(* ===== verification/Prelude.thy ===== *)
theory Prelude
  imports Main "HOL-Library.Word"
begin

section \<open>Prelude: machine integers, outcomes of kernel code, byte memory\<close>

text \<open>
  What every theory of the development shares: the integer types of \<^verbatim>\<open>types.h\<close>, the outcome of
  running a piece of kernel code (it returns, panics, performs an access C leaves undefined, spins on
  a lock another processor holds, or gives the processor up in \<^verbatim>\<open>sched()\<close>), the sequencing of such
  outcomes with a small calculus for reasoning about it, and the byte-addressed memory through which
  the code follows its pointers.
\<close>

unbundle bit_operations_syntax

type_synonym u8 = "8 word"
type_synonym u16 = "16 word"
type_synonym u32 = "32 word"
type_synonym addr = "32 word"

named_theorems outcome_simps \<open>evaluation of sequenced outcomes\<close>
named_theorems mem_simps \<open>loads and stores\<close>

subsection \<open>Arithmetic of 32-bit words\<close>

lemma unat_u32: "unat (x :: u32) < 4294967296"
  using unsigned_less [of x] by simp

lemma and_0xFF: "(c :: u32) AND 0xFF = take_bit 8 c"
proof -
  have "(0xFF :: u32) = mask 8"
    by (simp add: mask_eq_exp_minus_1)
  then show ?thesis
    by (simp only: take_bit_eq_mask)
qed

lemma unat_add_cases:
  fixes p q :: u32
  shows "unat (p + q) = unat p + unat q \<or> unat (p + q) + 4294967296 = unat p + unat q"
  using unat_plus_if' [of p q] unat_u32 [of p] unat_u32 [of q] by (simp split: if_splits)

lemma unat_add_of_nat:
  fixes p :: u32
  assumes "unat p + k < 4294967296"
  shows "unat (p + word_of_nat k) = unat p + k"
  using assms by (simp add: unat_word_ariths unat_of_nat)

lemma unat_sub_word:
  fixes y :: u32
  assumes "k \<le> 4294967296"
  shows "unat (y - word_of_nat k) = (if k \<le> unat y then unat y - k else unat y + 4294967296 - k)"
proof (cases "k = 4294967296")
  case True
  then have "(word_of_nat k :: u32) = 0"
    by (simp add: word_unat_eq_iff unat_of_nat)
  then have "unat (y - word_of_nat k) = unat y"
    by simp
  then show ?thesis
    unfolding True [symmetric] using True unat_u32 [of y] by auto
next
  case False
  then have k: "k < 4294967296"
    using assms by simp
  then have "unat (word_of_nat k :: u32) = k"
    by (simp add: unat_of_nat)
  then show ?thesis
    using k unat_sub_if' [of y "word_of_nat k"] by (simp add: word_le_nat_alt)
qed

lemma unat_sub_Suc:
  fixes x d :: u32
  shows "unat (x - (d + 1)) = (if x = d then 4294967295 else unat (x - d) - 1)"
proof (cases "x = d")
  case False
  then have "unat ((x - d) - 1) = unat (x - d) - 1"
    by (intro unat_minus_one) simp
  then show ?thesis
    using False by (simp add: diff_diff_add)
qed (use unat_sub_word [of 1 "0 :: u32"] in simp)

lemma unat_sub_offset:
  fixes x a :: u32
  assumes "k \<le> 4294967296"
  shows "unat (x - (a + word_of_nat k)) =
    (if k \<le> unat (x - a) then unat (x - a) - k else unat (x - a) + 4294967296 - k)"
  using unat_sub_word [OF assms, of "x - a"] by (simp add: diff_diff_add)

subsection \<open>Names of locks and wait channels\<close>

text \<open>
  In C a lock is a field of the structure it protects and a wait channel is the address of some
  object. Both are used as identities only, so the model names them.
\<close>

datatype sleeplk_id = SL_buf nat | SL_inode nat

datatype lockid =
    Lk_ptable | Lk_sltable | Lk_semtable | Lk_sem nat | Lk_kmem | Lk_bcache | Lk_log
  | Lk_icache | Lk_ftable | Lk_pipe addr | Lk_cons | Lk_ide | Lk_ticks | Lk_sleep sleeplk_id

datatype chan =
    Ch_proc nat | Ch_psl nat | Ch_sleep sleeplk_id | Ch_log | Ch_nread addr | Ch_nwrite addr
  | Ch_ticks | Ch_buf nat | Ch_input

subsection \<open>Outcomes\<close>

text \<open>
  \<^item> \<open>Ret v s\<close>: the code returned \<open>v\<close> in state \<open>s\<close>;
  \<^item> \<open>Panic m\<close>: it called \<^verbatim>\<open>panic(m)\<close>, which never returns;
  \<^item> \<open>Fault m\<close>: it dereferenced a null pointer or left an array, which C leaves undefined;
  \<^item> \<open>Spin l\<close>: it is in the loop of \<^verbatim>\<open>acquire\<close> on a lock that is not free;
  \<^item> \<open>Diverge\<close>: the variable of a loop wrapped around, after which the loop's test never fails again;
  \<^item> \<open>Switch s\<close>: it called \<^verbatim>\<open>swtch\<close> in \<^verbatim>\<open>sched()\<close> and the scheduler runs on from \<open>s\<close>.
\<close>

datatype ('a, 's) outcome =
    Ret 'a 's
  | Panic string
  | Fault string
  | Spin lockid
  | Diverge
  | Switch 's

fun seq :: "('a, 's) outcome \<Rightarrow> ('a \<Rightarrow> 's \<Rightarrow> ('b, 's) outcome) \<Rightarrow> ('b, 's) outcome" where
  "seq (Ret a s) f = f a s"
| "seq (Panic m) f = Panic m"
| "seq (Fault m) f = Fault m"
| "seq (Spin l) f = Spin l"
| "seq Diverge f = Diverge"
| "seq (Switch s) f = Switch s"

definition whenb :: "bool \<Rightarrow> ('s \<Rightarrow> (unit, 's) outcome) \<Rightarrow> 's \<Rightarrow> (unit, 's) outcome" where
  "whenb b m s = (if b then m s else Ret () s)"

lemma whenb_simps [simp]: "whenb True m s = m s" "whenb False m s = Ret () s"
  by (simp_all add: whenb_def)

lemma seq_assoc: "seq (seq m f) g = seq m (\<lambda>a s. seq (f a s) g)"
  by (cases m) simp_all

lemma seq_Ret_iff [outcome_simps]:
  "seq m f = Ret b t \<longleftrightarrow> (\<exists>a s. m = Ret a s \<and> f a s = Ret b t)"
  by (cases m) auto

lemma seq_if: "seq (if b then m else m') f = (if b then seq m f else seq m' f)"
  by simp

text \<open>Total correctness: the code returns, and its result and final state satisfy \<open>Q\<close>.\<close>

definition returns :: "('a, 's) outcome \<Rightarrow> ('a \<Rightarrow> 's \<Rightarrow> bool) \<Rightarrow> bool" where
  "returns m Q \<longleftrightarrow> (\<exists>a s. m = Ret a s \<and> Q a s)"

lemma returns_Ret [simp]: "returns (Ret a s) Q = Q a s"
  by (simp add: returns_def)

lemma returns_other [simp]:
  "\<not> returns (Panic m) Q" "\<not> returns (Fault m) Q" "\<not> returns (Spin l) Q" "\<not> returns Diverge Q"
  "\<not> returns (Switch s) Q"
  by (simp_all add: returns_def)

lemma returns_seq: "returns (seq m f) Q \<longleftrightarrow> returns m (\<lambda>a s. returns (f a s) Q)"
  by (cases m) simp_all

lemma returnsI: "m = Ret a s \<Longrightarrow> Q a s \<Longrightarrow> returns m Q"
  by simp

lemma returnsE:
  assumes "returns m Q"
  obtains a s where "m = Ret a s" "Q a s"
  using assms by (auto simp: returns_def)

lemma returns_unitE:
  assumes "returns m Q"
  obtains s where "m = Ret () s" "Q () s"
  using assms by (auto simp: returns_def)

lemma returns_mono: "returns m Q \<Longrightarrow> (\<And>a s. Q a s \<Longrightarrow> R a s) \<Longrightarrow> returns m R"
  by (auto simp: returns_def)

text \<open>For the function package: the continuation is reached only when the first part returned.\<close>

lemma seq_cong [fundef_cong]:
  "m = m' \<Longrightarrow> (\<And>a s. m' = Ret a s \<Longrightarrow> f a s = g a s) \<Longrightarrow> seq m f = seq m' g"
  by (cases m') auto

subsection \<open>Counted loops\<close>

text \<open>
  \<open>for_each\<close> is a \<^verbatim>\<open>for\<close> loop over a fixed range; \<open>for_until\<close> is one that may be left early, with the
  value \<open>Some r\<close> when it is.
\<close>

fun for_each :: "'i list \<Rightarrow> ('i \<Rightarrow> 's \<Rightarrow> (unit, 's) outcome) \<Rightarrow> 's \<Rightarrow> (unit, 's) outcome" where
  "for_each [] f s = Ret () s"
| "for_each (i # is) f s = seq (f i s) (\<lambda>_ s. for_each is f s)"

fun for_until ::
    "'i list \<Rightarrow> ('i \<Rightarrow> 's \<Rightarrow> ('r option, 's) outcome) \<Rightarrow> 's \<Rightarrow> ('r option, 's) outcome" where
  "for_until [] f s = Ret None s"
| "for_until (i # is) f s =
     seq (f i s) (\<lambda>r s. case r of Some x \<Rightarrow> Ret (Some x) s | None \<Rightarrow> for_until is f s)"

lemma for_each_cong [fundef_cong]:
  "is = is' \<Longrightarrow> s = s' \<Longrightarrow> (\<And>i s. i \<in> set is' \<Longrightarrow> f i s = g i s) \<Longrightarrow> for_each is f s = for_each is' g s'"
proof (induction "is" arbitrary: is' s s')
  case (Cons i "is")
  then show ?case by (cases is') (auto intro!: seq_cong)
qed simp

lemma for_each_append:
  "for_each (xs @ ys) f s = seq (for_each xs f s) (\<lambda>_ s. for_each ys f s)"
  by (induction xs arbitrary: s) (auto simp: seq_assoc intro!: seq_cong)

text \<open>A loop keeps an invariant indexed by the steps done so far.\<close>

lemma for_each_returns:
  assumes "P 0 s"
    and "\<And>k s. k < length is \<Longrightarrow> P k s \<Longrightarrow> returns (f (is ! k) s) (\<lambda>_ t. P (Suc k) t)"
  shows "returns (for_each is f s) (\<lambda>_ t. P (length is) t)"
  using assms
proof (induction "is" arbitrary: s P)
  case (Cons i "is")
  have "returns (f i s) (\<lambda>_ t. P (Suc 0) t)"
    using Cons.prems(2) [of 0 s] Cons.prems(1) by simp
  then obtain t where t: "f i s = Ret () t" "P (Suc 0) t"
    by (auto elim: returnsE)
  have "returns (for_each is f t) (\<lambda>_ u. (\<lambda>k. P (Suc k)) (length is) u)"
    using t(2) Cons.prems(2) [of "Suc k" for k] by (intro Cons.IH) auto
  then show ?case
    using t(1) by simp
qed simp

subsection \<open>Sequences of updates\<close>

definition upds :: "('k \<times> 'v) list \<Rightarrow> ('k \<Rightarrow> 'v) \<Rightarrow> 'k \<Rightarrow> 'v" where
  "upds ws f = fold (\<lambda>(k, v) f. f(k := v)) ws f"

lemma upds_simps [simp]:
  "upds [] f = f" "upds ((k, v) # ws) f = upds ws (f(k := v))" "upds (ws @ vs) f = upds vs (upds ws f)"
  by (simp_all add: upds_def)

lemma upds_other: "k \<notin> fst ` set ws \<Longrightarrow> upds ws f k = f k"
  by (induction ws arbitrary: f) auto

text \<open>The value at \<open>k\<close>, when all the updates of \<open>k\<close> agree.\<close>

lemma upds_agree:
  assumes "(k, v) \<in> set ws" "\<And>w. (k, w) \<in> set ws \<Longrightarrow> w = v"
  shows "upds ws f k = v"
  using assms
proof (induction ws rule: rev_induct)
  case (snoc x ws)
  obtain k' v' where x: "x = (k', v')"
    by (cases x)
  show ?case
  proof (cases "k' = k")
    case True
    then show ?thesis
      using snoc.prems(2) [of v'] x by simp
  next
    case False
    then have "(k, v) \<in> set ws"
      using snoc.prems(1) x by auto
    then have "upds ws f k = v"
      using snoc.prems(2) by (intro snoc.IH) auto
    then show ?thesis
      using False x by simp
  qed
qed simp

lemma upds_graph:
  assumes "\<And>k v. (k, v) \<in> set ws \<Longrightarrow> v = g k"
  shows "upds ws f k = (if k \<in> fst ` set ws then g k else f k)"
proof (cases "k \<in> fst ` set ws")
  case True
  then obtain v where v: "(k, v) \<in> set ws"
    by auto
  then have "upds ws f k = g k"
    using assms by (intro upds_agree) blast+
  then show ?thesis
    using True by simp
qed (simp add: upds_other)

lemma upds_map_inj:
  assumes "inj h"
  shows "upds (map (apfst h) ws) f (h k) = upds ws (\<lambda>x. f (h x)) k"
proof (induction ws arbitrary: f)
  case (Cons w ws)
  have "(\<lambda>x. (f(h (fst w) := snd w)) (h x)) = (\<lambda>x. f (h x))(fst w := snd w)"
    using assms by (auto simp: inj_def)
  then show ?case
    using Cons by (cases w) simp
qed simp

subsection \<open>Lists\<close>

lemma find_append: "find P (xs @ ys) = (case find P xs of None \<Rightarrow> find P ys | Some x \<Rightarrow> Some x)"
  by (induction xs) auto

end
