(* ===== verification/Spinlock.thy ===== *)
theory Spinlock
  imports Prelude
begin

section \<open>Processors and spin locks (spinlock.c, and mycpu of proc.c)\<close>

text \<open>
  The state of the processors (\<^verbatim>\<open>struct cpu\<close> of proc.h), the registers of the processor that executes,
  and the spin locks. The state is a record that later theories extend with their own fields, so every
  operation here is also an operation of the whole kernel state. A lock is used as an identity: the
  record field \<open>spinlocks\<close> gives the structure at each identity. The debugging copy of the call stack
  that \<^verbatim>\<open>acquire\<close> keeps in \<^verbatim>\<open>lk->pcs\<close> is not part of the lock's state; \<open>getcallerpcs\<close> is modelled on its
  own as a function of memory.
\<close>

subsection \<open>State\<close>

record segdesc =
  lim_15_0 :: u16
  base_15_0 :: u16
  base_23_16 :: u8
  sd_type :: "4 word"
  sd_s :: "1 word"
  sd_dpl :: "2 word"
  sd_p :: "1 word"
  lim_19_16 :: "4 word"
  sd_avl :: "1 word"
  sd_rsv1 :: "1 word"
  sd_db :: "1 word"
  sd_g :: "1 word"
  base_31_24 :: u8

record taskstate =
  esp0 :: u32
  ss0 :: u16
  iomb :: u16

record cpu =
  apicid :: u8
  cpu_scheduler :: addr
  ts :: taskstate
  gdt :: "nat \<Rightarrow> segdesc"
  cpu_started :: u32
  ncli :: int
  intena :: bool
  cpu_proc :: "nat option"

record spinlock =
  lk_locked :: u32
  lk_name :: string
  lk_cpu :: "nat option"

text \<open>
  \<open>lapic_id\<close> is what \<^verbatim>\<open>lapicid()\<close> reads from the executing processor's local APIC, \<open>fl_if\<close> its
  interrupt flag in EFLAGS, \<open>cr3\<close> and \<open>tr\<close> its page-table base and task registers.
\<close>

record machine =
  cpus :: "nat \<Rightarrow> cpu"
  ncpu :: nat
  lapic_id :: u8
  fl_if :: bool
  cr3 :: u32
  tr :: u16
  spinlocks :: "lockid \<Rightarrow> spinlock"

subsection \<open>Operations\<close>

text \<open>proc.c: \<^verbatim>\<open>mycpu\<close> scans \<^verbatim>\<open>cpus[]\<close> for the executing processor's APIC id.\<close>

definition cpu_index :: "'x machine_scheme \<Rightarrow> nat option" where
  "cpu_index s = find (\<lambda>i. apicid (cpus s i) = lapic_id s) [0..<ncpu s]"

definition mycpu :: "'x machine_scheme \<Rightarrow> (nat, 'x machine_scheme) outcome" where
  "mycpu s =
     (if fl_if s then Panic ''mycpu called with interrupts enabled''
      else case cpu_index s of
             None \<Rightarrow> Panic ''unknown apicid''
           | Some i \<Rightarrow> Ret i s)"

definition cpuid :: "'x machine_scheme \<Rightarrow> (nat, 'x machine_scheme) outcome" where
  "cpuid s = mycpu s"

definition upd_cpu :: "nat \<Rightarrow> (cpu \<Rightarrow> cpu) \<Rightarrow> 'x machine_scheme \<Rightarrow> 'x machine_scheme" where
  "upd_cpu c f s = s\<lparr>cpus := (cpus s)(c := f (cpus s c))\<rparr>"

definition upd_lock :: "lockid \<Rightarrow> (spinlock \<Rightarrow> spinlock) \<Rightarrow> 'x machine_scheme \<Rightarrow> 'x machine_scheme" where
  "upd_lock l f s = s\<lparr>spinlocks := (spinlocks s)(l := f (spinlocks s l))\<rparr>"

definition initlock :: "lockid \<Rightarrow> string \<Rightarrow> 'x machine_scheme \<Rightarrow> 'x machine_scheme" where
  "initlock l nm s = upd_lock l (\<lambda>k. k\<lparr>lk_name := nm, lk_locked := 0, lk_cpu := None\<rparr>) s"

definition pushcli :: "'x machine_scheme \<Rightarrow> (unit, 'x machine_scheme) outcome" where
  "pushcli s =
     (let eflags = fl_if s; s = s\<lparr>fl_if := False\<rparr> in
      seq (mycpu s) (\<lambda>c s.
      let s = (if ncli (cpus s c) = 0 then upd_cpu c (\<lambda>p. p\<lparr>intena := eflags\<rparr>) s else s) in
      Ret () (upd_cpu c (\<lambda>p. p\<lparr>ncli := ncli p + 1\<rparr>) s)))"

definition popcli :: "'x machine_scheme \<Rightarrow> (unit, 'x machine_scheme) outcome" where
  "popcli s =
     (if fl_if s then Panic ''popcli - interruptible''
      else seq (mycpu s) (\<lambda>c s.
      let s = upd_cpu c (\<lambda>p. p\<lparr>ncli := ncli p - 1\<rparr>) s in
      if ncli (cpus s c) < 0 then Panic ''popcli''
      else if ncli (cpus s c) = 0 \<and> intena (cpus s c) then Ret () (s\<lparr>fl_if := True\<rparr>)
      else Ret () s))"

definition holding :: "lockid \<Rightarrow> 'x machine_scheme \<Rightarrow> (bool, 'x machine_scheme) outcome" where
  "holding l s =
     seq (pushcli s) (\<lambda>_ s.
     seq (mycpu s) (\<lambda>c s.
     let r = (lk_locked (spinlocks s l) \<noteq> 0 \<and> lk_cpu (spinlocks s l) = Some c) in
     seq (popcli s) (\<lambda>_ s. Ret r s)))"

text \<open>
  \<^verbatim>\<open>xchg(&lk->locked, 1)\<close> until it returns 0: the first exchange decides when the executing
  processor alone runs, and the outcome is \<open>Spin\<close> when it finds the lock taken.
\<close>

definition xchg_locked :: "lockid \<Rightarrow> 'x machine_scheme \<Rightarrow> (u32, 'x machine_scheme) outcome" where
  "xchg_locked l s = Ret (lk_locked (spinlocks s l)) (upd_lock l (\<lambda>k. k\<lparr>lk_locked := 1\<rparr>) s)"

text \<open>
  \<^verbatim>\<open>acquire\<close> in its three parts: interrupts off and the check for a nested acquire; the exchange;
  recording the owner once the exchange has won the lock.
\<close>

definition acquire_enter :: "lockid \<Rightarrow> 'x machine_scheme \<Rightarrow> (unit, 'x machine_scheme) outcome" where
  "acquire_enter l s =
     seq (pushcli s) (\<lambda>_ s.
     seq (holding l s) (\<lambda>h s.
     if h then Panic ''acquire'' else Ret () s))"

definition acquire_own :: "lockid \<Rightarrow> 'x machine_scheme \<Rightarrow> (unit, 'x machine_scheme) outcome" where
  "acquire_own l s = seq (mycpu s) (\<lambda>c s. Ret () (upd_lock l (\<lambda>k. k\<lparr>lk_cpu := Some c\<rparr>) s))"

definition acquire :: "lockid \<Rightarrow> 'x machine_scheme \<Rightarrow> (unit, 'x machine_scheme) outcome" where
  "acquire l s =
     seq (acquire_enter l s) (\<lambda>_ s.
     seq (xchg_locked l s) (\<lambda>old s.
     if old \<noteq> 0 then Spin l else acquire_own l s))"

text \<open>
  \<^verbatim>\<open>release\<close> likewise: the check and the clearing of the owner; the store of 0; interrupts back.
\<close>

definition release_disown :: "lockid \<Rightarrow> 'x machine_scheme \<Rightarrow> (unit, 'x machine_scheme) outcome" where
  "release_disown l s =
     seq (holding l s) (\<lambda>h s.
     if \<not> h then Panic ''release''
     else Ret () (upd_lock l (\<lambda>k. k\<lparr>lk_cpu := None\<rparr>) s))"

definition release_store :: "lockid \<Rightarrow> 'x machine_scheme \<Rightarrow> 'x machine_scheme" where
  "release_store l s = upd_lock l (\<lambda>k. k\<lparr>lk_locked := 0\<rparr>) s"

definition release :: "lockid \<Rightarrow> 'x machine_scheme \<Rightarrow> (unit, 'x machine_scheme) outcome" where
  "release l s = seq (release_disown l s) (\<lambda>_ s. popcli (release_store l s))"

lemmas acquire_parts = acquire_def acquire_enter_def acquire_own_def xchg_locked_def
lemmas release_parts = release_def release_disown_def release_store_def

subsection \<open>The machine part of a state\<close>

text \<open>
  \<open>mach\<close> reads the processors and locks out of a larger state and \<open>set_mach\<close> puts them back. Facts
  about locking are stated on \<open>mach s\<close>, which no update of the larger state's own fields changes.
\<close>

definition mach :: "'x machine_scheme \<Rightarrow> machine" where
  "mach s = machine.truncate s"

definition set_mach :: "machine \<Rightarrow> 'x machine_scheme \<Rightarrow> 'x machine_scheme" where
  "set_mach m s = machine.extend m (machine.more s)"

lemma mach_sel [simp]:
  "cpus (mach s) = cpus s" "ncpu (mach s) = ncpu s" "lapic_id (mach s) = lapic_id s"
  "fl_if (mach s) = fl_if s" "cr3 (mach s) = cr3 s" "tr (mach s) = tr s"
  "spinlocks (mach s) = spinlocks s"
  by (simp_all add: mach_def machine.defs)

lemma set_mach_sel [simp]:
  "cpus (set_mach m s) = cpus m" "ncpu (set_mach m s) = ncpu m"
  "lapic_id (set_mach m s) = lapic_id m" "fl_if (set_mach m s) = fl_if m"
  "cr3 (set_mach m s) = cr3 m" "tr (set_mach m s) = tr m" "spinlocks (set_mach m s) = spinlocks m"
  "machine.more (set_mach m s) = machine.more s"
  by (simp_all add: set_mach_def machine.defs)

lemma mach_set_mach [simp]: "mach (set_mach m s) = m"
  by (rule machine.equality) simp_all

lemma set_mach_mach [simp]: "set_mach (mach s) s = s"
  by (rule machine.equality) simp_all

lemma set_mach_set_mach [simp]: "set_mach m (set_mach m' s) = set_mach m s"
  by (rule machine.equality) simp_all

lemma mach_machine [simp]: "mach (m :: machine) = m" "set_mach m' (m :: machine) = m'"
  by (rule machine.equality; simp)+

lemma set_mach_eq: "mach t = m \<Longrightarrow> set_mach m t = t"
  by auto

lemma mach_upd:
  "mach (s\<lparr>cpus := C\<rparr>) = (mach s)\<lparr>cpus := C\<rparr>"
  "mach (s\<lparr>fl_if := b\<rparr>) = (mach s)\<lparr>fl_if := b\<rparr>"
  "mach (s\<lparr>cr3 := r\<rparr>) = (mach s)\<lparr>cr3 := r\<rparr>"
  "mach (s\<lparr>tr := q\<rparr>) = (mach s)\<lparr>tr := q\<rparr>"
  "mach (s\<lparr>spinlocks := L\<rparr>) = (mach s)\<lparr>spinlocks := L\<rparr>"
  by (rule machine.equality; simp)+

subsection \<open>Critical sections\<close>

text \<open>
  The processor's bookkeeping between system calls and interrupts: the executing processor is one of
  \<^verbatim>\<open>cpus[]\<close>, its nesting depth is not negative, interrupts are off inside a nest, and outside one
  \<^verbatim>\<open>intena\<close> agrees with the interrupt flag.
\<close>

definition steady :: "machine \<Rightarrow> bool" where
  "steady m \<longleftrightarrow>
     (case cpu_index m of
        None \<Rightarrow> False
      | Some c \<Rightarrow> 0 \<le> ncli (cpus m c)
          \<and> (if ncli (cpus m c) = 0 then intena (cpus m c) = fl_if m else \<not> fl_if m))"

definition this_cpu :: "machine \<Rightarrow> nat" where
  "this_cpu m = the (cpu_index m)"

definition lock_free :: "lockid \<Rightarrow> machine \<Rightarrow> bool" where
  "lock_free l m \<longleftrightarrow> lk_locked (spinlocks m l) = 0 \<and> lk_cpu (spinlocks m l) = None"

definition lock_mine :: "lockid \<Rightarrow> machine \<Rightarrow> bool" where
  "lock_mine l m \<longleftrightarrow> lk_locked (spinlocks m l) \<noteq> 0 \<and> lk_cpu (spinlocks m l) = Some (this_cpu m)"

text \<open>
  One level more and one level less of nesting, and taking and dropping a lock, as changes of the
  machine part.
\<close>

definition nest :: "machine \<Rightarrow> machine" where
  "nest m =
     m\<lparr>fl_if := False,
       cpus := (cpus m)(this_cpu m := (cpus m (this_cpu m))\<lparr>ncli := ncli (cpus m (this_cpu m)) + 1\<rparr>)\<rparr>"

definition unnest :: "machine \<Rightarrow> machine" where
  "unnest m =
     m\<lparr>fl_if := (ncli (cpus m (this_cpu m)) = 1 \<and> intena (cpus m (this_cpu m))),
       cpus := (cpus m)(this_cpu m := (cpus m (this_cpu m))\<lparr>ncli := ncli (cpus m (this_cpu m)) - 1\<rparr>)\<rparr>"

definition take_lock :: "lockid \<Rightarrow> machine \<Rightarrow> machine" where
  "take_lock l m =
     m\<lparr>spinlocks := (spinlocks m)(l := (spinlocks m l)\<lparr>lk_locked := 1, lk_cpu := Some (this_cpu m)\<rparr>)\<rparr>"

definition drop_lock :: "lockid \<Rightarrow> machine \<Rightarrow> machine" where
  "drop_lock l m =
     m\<lparr>spinlocks := (spinlocks m)(l := (spinlocks m l)\<lparr>lk_cpu := None, lk_locked := 0\<rparr>)\<rparr>"

definition enter :: "lockid \<Rightarrow> machine \<Rightarrow> machine" where
  "enter l m = take_lock l (nest m)"

definition leave :: "lockid \<Rightarrow> machine \<Rightarrow> machine" where
  "leave l m = unnest (drop_lock l m)"

lemma cpu_index_cong:
  assumes "ncpu t = ncpu s" "lapic_id t = lapic_id s" "\<And>i. apicid (cpus t i) = apicid (cpus s i)"
  shows "cpu_index t = cpu_index s"
  using assms by (simp add: cpu_index_def)

lemma cpu_index_mach [simp]: "cpu_index (mach s) = cpu_index s"
  by (rule cpu_index_cong) simp_all

lemma cpu_index_set_mach [simp]: "cpu_index (set_mach m s) = cpu_index m"
  by (rule cpu_index_cong) simp_all

lemma cpu_index_fl_if [simp]: "cpu_index (s\<lparr>fl_if := b\<rparr>) = cpu_index s"
  by (rule cpu_index_cong) simp_all

lemma cpu_index_spinlocks [simp]: "cpu_index (s\<lparr>spinlocks := L\<rparr>) = cpu_index s"
  by (rule cpu_index_cong) simp_all

lemma cpu_index_cpus [simp]:
  "apicid p = apicid (cpus s c) \<Longrightarrow> cpu_index (s\<lparr>cpus := (cpus s)(c := p)\<rparr>) = cpu_index s"
  by (rule cpu_index_cong) simp_all

lemma cpu_index_nest [simp]: "cpu_index (nest m) = cpu_index m" "cpu_index (unnest m) = cpu_index m"
    "cpu_index (take_lock l m) = cpu_index m" "cpu_index (drop_lock l m) = cpu_index m"
  by (rule cpu_index_cong; simp add: nest_def unnest_def take_lock_def drop_lock_def)+

lemma this_cpu_nest [simp]: "this_cpu (nest m) = this_cpu m" "this_cpu (unnest m) = this_cpu m"
    "this_cpu (take_lock l m) = this_cpu m" "this_cpu (drop_lock l m) = this_cpu m"
  by (simp_all add: this_cpu_def)

lemma steady_cpu: "steady m \<Longrightarrow> cpu_index m = Some (this_cpu m)"
  by (auto simp: steady_def this_cpu_def split: option.splits)

lemma steady_alt:
  "steady m \<longleftrightarrow> cpu_index m = Some (this_cpu m) \<and> 0 \<le> ncli (cpus m (this_cpu m))
     \<and> (if ncli (cpus m (this_cpu m)) = 0 then intena (cpus m (this_cpu m)) = fl_if m
        else \<not> fl_if m)"
  by (auto simp: steady_def this_cpu_def split: option.splits)

lemma steady_spinlocks [simp]: "steady (m\<lparr>spinlocks := L\<rparr>) = steady m"
  by (auto simp: steady_def split: option.splits)

lemma nest_sel [simp]:
  "fl_if (nest m) = False"
  "cpus (nest m) =
     (cpus m)(this_cpu m := (cpus m (this_cpu m))\<lparr>ncli := ncli (cpus m (this_cpu m)) + 1\<rparr>)"
  "spinlocks (nest m) = spinlocks m"
  "ncpu (nest m) = ncpu m" "lapic_id (nest m) = lapic_id m" "cr3 (nest m) = cr3 m" "tr (nest m) = tr m"
  by (simp_all add: nest_def)

lemma unnest_sel [simp]:
  "fl_if (unnest m) = (ncli (cpus m (this_cpu m)) = 1 \<and> intena (cpus m (this_cpu m)))"
  "cpus (unnest m) =
     (cpus m)(this_cpu m := (cpus m (this_cpu m))\<lparr>ncli := ncli (cpus m (this_cpu m)) - 1\<rparr>)"
  "spinlocks (unnest m) = spinlocks m"
  "ncpu (unnest m) = ncpu m" "lapic_id (unnest m) = lapic_id m"
  "cr3 (unnest m) = cr3 m" "tr (unnest m) = tr m"
  by (simp_all add: unnest_def)

lemma lock_sel [simp]:
  "fl_if (take_lock l m) = fl_if m" "cpus (take_lock l m) = cpus m"
  "spinlocks (take_lock l m) =
     (spinlocks m)(l := (spinlocks m l)\<lparr>lk_locked := 1, lk_cpu := Some (this_cpu m)\<rparr>)"
  "ncpu (take_lock l m) = ncpu m" "lapic_id (take_lock l m) = lapic_id m"
  "cr3 (take_lock l m) = cr3 m" "tr (take_lock l m) = tr m"
  "fl_if (drop_lock l m) = fl_if m" "cpus (drop_lock l m) = cpus m"
  "spinlocks (drop_lock l m) = (spinlocks m)(l := (spinlocks m l)\<lparr>lk_cpu := None, lk_locked := 0\<rparr>)"
  "ncpu (drop_lock l m) = ncpu m" "lapic_id (drop_lock l m) = lapic_id m"
  "cr3 (drop_lock l m) = cr3 m" "tr (drop_lock l m) = tr m"
  by (simp_all add: take_lock_def drop_lock_def)

lemma steady_nest [simp]: "steady m \<Longrightarrow> steady (nest m)"
  by (auto simp: steady_alt split: if_splits)

lemma steady_take_lock [simp]: "steady (take_lock l m) = steady m"
  and steady_drop_lock [simp]: "steady (drop_lock l m) = steady m"
  by (auto simp: steady_alt)

lemma steady_enter [simp]: "steady m \<Longrightarrow> steady (enter l m)"
  by (simp add: enter_def)

lemma unnest_nest [simp]: "steady m \<Longrightarrow> unnest (nest m) = m"
  by (rule machine.equality) (auto simp: steady_alt split: if_splits)

lemma drop_take_lock [simp]: "lock_free l m \<Longrightarrow> drop_lock l (take_lock l m) = m"
  by (rule machine.equality) (auto simp: lock_free_def)

lemma lock_free_nest [simp]: "lock_free l (nest m) = lock_free l m"
    "lock_free l (unnest m) = lock_free l m"
  by (simp_all add: lock_free_def)

lemma lock_free_enter [simp]: "lock_free l' (enter l m) \<longleftrightarrow> l \<noteq> l' \<and> lock_free l' m"
  by (auto simp: lock_free_def enter_def)

lemma lock_mine_enter [simp]: "lock_mine l' (enter l m) \<longleftrightarrow> l = l' \<or> lock_mine l' m"
  by (auto simp: lock_mine_def enter_def)

lemma fl_if_enter [simp]: "fl_if (enter l m) = False"
  by (simp add: enter_def)

lemma this_cpu_enter [simp]: "this_cpu (enter l m) = this_cpu m"
  by (simp add: enter_def)

lemma leave_enter [simp]: "steady m \<Longrightarrow> lock_free l m \<Longrightarrow> leave l (enter l m) = m"
  by (simp add: leave_def enter_def)

text \<open>The operations in a steady state.\<close>

lemma mycpu_steady:
  "steady (mach s) \<Longrightarrow> \<not> fl_if s \<Longrightarrow> mycpu s = Ret (this_cpu (mach s)) s"
  by (auto dest: steady_cpu simp: mycpu_def)

lemma pushcli_steady:
  assumes "steady (mach s)"
  shows "pushcli s = Ret () (set_mach (nest (mach s)) s)"
proof -
  have c: "cpu_index s = Some (this_cpu (mach s))"
    using steady_cpu [OF assms] by simp
  have eq: "(cpus s (this_cpu (mach s)))\<lparr>intena := fl_if s, ncli := 1\<rparr>
      = (cpus s (this_cpu (mach s)))\<lparr>ncli := 1\<rparr>"
    if "ncli (cpus s (this_cpu (mach s))) = 0"
    using assms that by (simp add: steady_alt)
  show ?thesis
    using c eq
    by (cases "ncli (cpus s (this_cpu (mach s))) = 0")
      (simp_all add: pushcli_def mycpu_def upd_cpu_def Let_def machine.equality)
qed

lemma popcli_nested:
  assumes "cpu_index s = Some (this_cpu (mach s))" "\<not> fl_if s"
    and "1 \<le> ncli (cpus s (this_cpu (mach s)))"
  shows "popcli s = Ret () (set_mach (unnest (mach s)) s)"
  using assms by (auto simp: popcli_def mycpu_def upd_cpu_def Let_def intro!: machine.equality)

lemma popcli_pushcli:
  assumes "mach t = nest m" "steady m"
  shows "popcli t = Ret () (set_mach m t)"
proof -
  have "cpus t = cpus (nest m)" "fl_if t = fl_if (nest m)"
    using mach_sel [of t] assms(1) by metis+
  moreover have "cpu_index t = Some (this_cpu m)"
    using cpu_index_mach [of t] assms steady_cpu [OF assms(2)] by simp
  ultimately have "popcli t = Ret () (set_mach (unnest (mach t)) t)"
    using assms by (intro popcli_nested) (auto simp: steady_alt)
  then show ?thesis
    using assms by simp
qed

lemma holding_steady:
  assumes "steady (mach s)"
  shows "holding l s = Ret (lock_mine l (mach s)) s"
proof -
  have "mycpu (set_mach (nest (mach s)) s) =
      Ret (this_cpu (mach s)) (set_mach (nest (mach s)) s)"
    using assms mycpu_steady [of "set_mach (nest (mach s)) s"] by simp
  then show ?thesis
    using assms by (simp add: holding_def pushcli_steady popcli_pushcli lock_mine_def Let_def)
qed

lemma acquire_steady:
  assumes "steady (mach s)" "lock_free l (mach s)"
  shows "acquire l s = Ret () (set_mach (enter l (mach s)) s)"
proof -
  have c: "cpu_index s = Some (this_cpu (mach s))"
    using steady_cpu [OF assms(1)] by simp
  show ?thesis
    using assms c
    by (simp add: acquire_parts pushcli_steady holding_steady lock_mine_def lock_free_def
        mycpu_def upd_lock_def enter_def machine.equality)
qed

lemma acquire_mine: "steady (mach s) \<Longrightarrow> lock_mine l (mach s) \<Longrightarrow> acquire l s = Panic ''acquire''"
  by (simp add: acquire_parts pushcli_steady holding_steady lock_mine_def)

lemma acquire_other:
  assumes "steady (mach s)" "\<not> lock_mine l (mach s)" "lk_locked (spinlocks s l) \<noteq> 0"
  shows "acquire l s = Spin l"
  using assms
  by (simp add: acquire_parts pushcli_steady holding_steady lock_mine_def)

lemma release_mine:
  assumes "steady (mach s)" "lock_mine l (mach s)" "1 \<le> ncli (cpus s (this_cpu (mach s)))"
  shows "release l s = Ret () (set_mach (leave l (mach s)) s)"
proof -
  let ?t = "set_mach (drop_lock l (mach s)) s"
  have "popcli ?t = Ret () (set_mach (unnest (mach ?t)) ?t)"
    using assms by (intro popcli_nested) (auto simp: steady_alt)
  moreover have "upd_lock l (\<lambda>k. k\<lparr>lk_locked := 0\<rparr>) (upd_lock l (\<lambda>k. k\<lparr>lk_cpu := None\<rparr>) s) = ?t"
    by (rule machine.equality) (simp_all add: upd_lock_def)
  ultimately show ?thesis
    using assms by (simp add: release_parts holding_steady leave_def)
qed

lemma release_not_mine:
  "steady (mach s) \<Longrightarrow> \<not> lock_mine l (mach s) \<Longrightarrow> release l s = Panic ''release''"
  by (simp add: release_parts holding_steady)

lemma release_section:
  assumes "mach t = enter l m" "steady m" "lock_free l m"
  shows "release l t = Ret () (set_mach m t)"
proof -
  have "cpus t = cpus (enter l m)"
    using assms(1) mach_sel(1) by metis
  then have "release l t = Ret () (set_mach (leave l (mach t)) t)"
    using assms by (intro release_mine) (auto simp: steady_alt enter_def lock_mine_def)
  then show ?thesis
    using assms by simp
qed

text \<open>Sections that overlap instead of nesting: the outer one is left first.\<close>

lemma leave_outer:
  assumes "steady m" "lock_free l m" "l \<noteq> l'"
  shows "leave l (enter l' (enter l m)) = enter l' m"
  using assms
  by (intro machine.equality)
    (auto simp: leave_def enter_def steady_alt lock_free_def fun_upd_twist split: if_splits)

lemma unnest_outer:
  assumes "steady m"
  shows "unnest (enter l (nest m)) = enter l m"
  using assms
  by (intro machine.equality) (auto simp: enter_def steady_alt split: if_splits)

lemma ncli_enter: "ncli (cpus (enter l m) (this_cpu m)) = ncli (cpus m (this_cpu m)) + 1"
  by (simp add: enter_def)

lemma ncli_nest: "ncli (cpus (nest m) (this_cpu m)) = ncli (cpus m (this_cpu m)) + 1"
  by simp

lemma mach_eqD:
  "mach s = m \<Longrightarrow> cpus s = cpus m" "mach s = m \<Longrightarrow> fl_if s = fl_if m"
  "mach s = m \<Longrightarrow> cpu_index s = cpu_index m" "mach s = m \<Longrightarrow> spinlocks s = spinlocks m"
  by auto

lemma release_outer:
  assumes "mach t = enter l' (enter l m)" "steady m" "lock_free l m" "l \<noteq> l'"
  shows "release l t = Ret () (set_mach (enter l' m) t)"
proof -
  have "0 \<le> ncli (cpus m (this_cpu m))"
    using assms(2) by (simp add: steady_alt)
  then have "1 \<le> ncli (cpus t (this_cpu (mach t)))"
    using mach_eqD(1) [OF assms(1)] by (simp add: assms(1) ncli_enter [of l' "enter l m", simplified] ncli_enter)
  then have "release l t = Ret () (set_mach (leave l (mach t)) t)"
    using assms by (intro release_mine) simp_all
  then show ?thesis
    using assms leave_outer by simp
qed

lemma popcli_outer:
  assumes "mach t = enter l (nest m)" "steady m"
  shows "popcli t = Ret () (set_mach (enter l m) t)"
proof -
  have "0 \<le> ncli (cpus m (this_cpu m))"
    using assms(2) by (simp add: steady_alt)
  then have "popcli t = Ret () (set_mach (unnest (mach t)) t)"
    using mach_eqD [OF assms(1)] assms steady_cpu [OF assms(2)] ncli_enter [of l "nest m"]
    by (intro popcli_nested) (simp_all add: assms(1) enter_def)
  then show ?thesis
    using assms unnest_outer by simp
qed

text \<open>The process the executing processor runs.\<close>

definition running :: "machine \<Rightarrow> nat option" where
  "running m = cpu_proc (cpus m (this_cpu m))"

lemma running_nest [simp]: "running (nest m) = running m" "running (enter l m) = running m"
  by (simp_all add: running_def enter_def)

lemmas section_simps =
  mycpu_steady holding_steady acquire_steady release_section seq_assoc whenb_def

subsection \<open>Sections\<close>

text \<open>
  Code between an operation that enters a section and one that leaves it. The contract of such a pair:
  \<open>part\<close> is the bookkeeping it works on, \<open>inside\<close> its value within the section, and leaving restores
  what was there before entering.
\<close>

definition guarded ::
    "('s \<Rightarrow> (unit, 's) outcome) \<Rightarrow> ('s \<Rightarrow> (unit, 's) outcome) \<Rightarrow> ('s \<Rightarrow> ('a, 's) outcome) \<Rightarrow>
     's \<Rightarrow> ('a, 's) outcome" where
  "guarded acq rel f s = seq (acq s) (\<lambda>_ s. seq (f s) (\<lambda>r s. seq (rel s) (\<lambda>_ s. Ret r s)))"

fun times :: "nat \<Rightarrow> ('s \<Rightarrow> (unit, 's) outcome) \<Rightarrow> 's \<Rightarrow> (unit, 's) outcome" where
  "times 0 f s = Ret () s"
| "times (Suc n) f s = seq (f s) (\<lambda>_ s. times n f s)"

locale critical_section =
  fixes acq rel :: "'s \<Rightarrow> (unit, 's) outcome"
    and part :: "'s \<Rightarrow> 'p" and put :: "'p \<Rightarrow> 's \<Rightarrow> 's"
    and inside :: "'p \<Rightarrow> 'p" and ready :: "'p \<Rightarrow> bool"
  assumes acq_ready: "ready (part s) \<Longrightarrow> acq s = Ret () (put (inside (part s)) s)"
    and rel_inside: "ready p \<Longrightarrow> part t = inside p \<Longrightarrow> rel t = Ret () (put p t)"
    and part_put: "part (put p s) = p"
begin

lemma guarded_returns:
  assumes "ready (part s)"
    and "returns (f (put (inside (part s)) s)) (\<lambda>r t. part t = inside (part s) \<and> Q r (put (part s) t))"
  shows "returns (guarded acq rel f s) (\<lambda>r t. part t = part s \<and> Q r t)"
  using assms(2)
  by (auto simp: guarded_def acq_ready [OF assms(1)] rel_inside [OF assms(1)] part_put elim!: returnsE)

end

locale nested_section = critical_section +
  assumes ready_inside: "ready p \<Longrightarrow> ready (inside p)"
    and put_part: "put (part s) s = s" and put_put: "put p (put q s) = put p s"
begin

lemma ready_iter: "ready p \<Longrightarrow> ready ((inside ^^ n) p)"
  by (induction n) (simp_all add: ready_inside)

lemma times_acq: "ready (part s) \<Longrightarrow> times n acq s = Ret () (put ((inside ^^ n) (part s)) s)"
proof (induction n arbitrary: s)
  case (Suc n)
  then show ?case
    by (simp add: acq_ready ready_inside part_put put_put funpow_swap1)
qed (simp add: put_part)

lemma times_rel:
  assumes "ready p" "part t = (inside ^^ (n + k)) p"
  shows "times k rel t = Ret () (put ((inside ^^ n) p) t)"
  using assms(2)
proof (induction k arbitrary: t)
  case 0
  then show ?case
    using put_part [of t] by simp
next
  case (Suc k)
  have "rel t = Ret () (put ((inside ^^ (n + k)) p) t)"
    using Suc.prems by (intro rel_inside ready_iter assms(1)) simp
  then show ?case
    using Suc.IH [of "put ((inside ^^ (n + k)) p) t"] by (simp add: part_put put_put)
qed

lemma times_acq_rel:
  assumes "ready (part s)"
  shows "seq (times (n + k) acq s) (\<lambda>_. times k rel) = Ret () (put ((inside ^^ n) (part s)) s)"
  using times_acq [OF assms, of "n + k"]
    times_rel [OF assms, of "put ((inside ^^ (n + k)) (part s)) s" n k]
  by (simp add: part_put put_put)

end

interpretation spin: critical_section "acquire l" "release l" mach set_mach "enter l"
    "\<lambda>m. steady m \<and> lock_free l m" for l
  by unfold_locales (simp_all add: acquire_steady release_section)

interpretation cli: nested_section pushcli popcli mach set_mach nest steady
  by unfold_locales (simp_all add: pushcli_steady popcli_pushcli)

lemma nest_iter_sel:
  "fl_if ((nest ^^ n) m) = (if n = 0 then fl_if m else False)"
  "this_cpu ((nest ^^ n) m) = this_cpu m"
  "ncli (cpus ((nest ^^ n) m) (this_cpu m)) = ncli (cpus m (this_cpu m)) + int n"
  by (induction n) simp_all

subsection \<open>A concrete machine\<close>

text \<open>
  One processor with APIC id 0, interrupts off and no lock taken, as \<^verbatim>\<open>main\<close> finds it: the state the
  examples start from.
\<close>

definition boot_cpu :: cpu where
  "boot_cpu =
     \<lparr>apicid = 0, cpu_scheduler = 0, ts = \<lparr>esp0 = 0, ss0 = 0, iomb = 0\<rparr>,
      gdt = (\<lambda>_. \<lparr>lim_15_0 = 0, base_15_0 = 0, base_23_16 = 0, sd_type = 0, sd_s = 0, sd_dpl = 0,
        sd_p = 0, lim_19_16 = 0, sd_avl = 0, sd_rsv1 = 0, sd_db = 0, sd_g = 0, base_31_24 = 0\<rparr>),
      cpu_started = 0, ncli = 0, intena = False, cpu_proc = None\<rparr>"

definition boot_machine :: machine where
  "boot_machine =
     \<lparr>cpus = (\<lambda>_. boot_cpu), ncpu = 1, lapic_id = 0, fl_if = False, cr3 = 0, tr = 0,
      spinlocks = (\<lambda>_. \<lparr>lk_locked = 0, lk_name = [], lk_cpu = None\<rparr>)\<rparr>"

lemma steady_boot [simp]: "steady boot_machine"
  by (simp add: steady_def cpu_index_def boot_machine_def boot_cpu_def)

lemma lock_free_boot [simp]: "lock_free l boot_machine"
  by (simp add: lock_free_def boot_machine_def)

text \<open>The same processor running process 0 with interrupts on.\<close>

definition user_machine :: machine where
  "user_machine =
     boot_machine\<lparr>cpus := (\<lambda>_. boot_cpu\<lparr>intena := True, cpu_proc := Some 0\<rparr>), fl_if := True\<rparr>"

lemma user_machine_facts [simp]:
  "cpu_index user_machine = Some 0" "this_cpu user_machine = 0" "running user_machine = Some 0"
  "steady user_machine" "lock_free l user_machine" "ncli (cpus user_machine 0) = 0" "fl_if user_machine"
proof -
  show c: "cpu_index user_machine = Some 0"
    by (simp add: cpu_index_def user_machine_def boot_machine_def boot_cpu_def)
  then show t: "this_cpu user_machine = 0"
    by (simp add: this_cpu_def)
  show "running user_machine = Some 0"
    unfolding running_def t by (simp add: user_machine_def)
  show "steady user_machine"
    unfolding steady_def c by (simp add: user_machine_def boot_cpu_def)
qed (simp_all add: lock_free_def user_machine_def boot_machine_def boot_cpu_def)

subsection \<open>Several processors\<close>

text \<open>
  Processors that compete for one lock, interleaved between any two accesses to it. \<open>shared\<close> is the
  memory they share, \<open>flags\<close> the interrupt flag of each and \<open>stage\<close> where each is in
  \<^verbatim>\<open>acquire\<close> and \<^verbatim>\<open>release\<close>; \<open>view\<close> is the machine as processor \<open>c\<close> sees it.
\<close>

datatype stage = Outside | Trying | Won | Inside | Disowned | Stored

record multi =
  shared :: machine
  flags :: "nat \<Rightarrow> bool"
  stage :: "nat \<Rightarrow> stage"

definition view :: "nat \<Rightarrow> multi \<Rightarrow> machine" where
  "view c M = (shared M)\<lparr>lapic_id := apicid (cpus (shared M) c), fl_if := flags M c\<rparr>"

definition put_back :: "nat \<Rightarrow> stage \<Rightarrow> machine \<Rightarrow> multi \<Rightarrow> multi" where
  "put_back c g m M = \<lparr>shared = m, flags = (flags M)(c := fl_if m), stage = (stage M)(c := g)\<rparr>"

inductive multi_step :: "lockid \<Rightarrow> multi \<Rightarrow> multi \<Rightarrow> bool" for l where
  step_enter: "\<lbrakk>c < ncpu (shared M); stage M c = Outside; acquire_enter l (view c M) = Ret () m\<rbrakk>
    \<Longrightarrow> multi_step l M (put_back c Trying m M)"
| step_spin: "\<lbrakk>c < ncpu (shared M); stage M c = Trying; xchg_locked l (view c M) = Ret v m; v \<noteq> 0\<rbrakk>
    \<Longrightarrow> multi_step l M (put_back c Trying m M)"
| step_win: "\<lbrakk>c < ncpu (shared M); stage M c = Trying; xchg_locked l (view c M) = Ret 0 m\<rbrakk>
    \<Longrightarrow> multi_step l M (put_back c Won m M)"
| step_own: "\<lbrakk>c < ncpu (shared M); stage M c = Won; acquire_own l (view c M) = Ret () m\<rbrakk>
    \<Longrightarrow> multi_step l M (put_back c Inside m M)"
| step_disown: "\<lbrakk>c < ncpu (shared M); stage M c = Inside; release_disown l (view c M) = Ret () m\<rbrakk>
    \<Longrightarrow> multi_step l M (put_back c Disowned m M)"
| step_store: "\<lbrakk>c < ncpu (shared M); stage M c = Disowned\<rbrakk>
    \<Longrightarrow> multi_step l M (put_back c Stored (release_store l (view c M)) M)"
| step_leave: "\<lbrakk>c < ncpu (shared M); stage M c = Stored; popcli (view c M) = Ret () m\<rbrakk>
    \<Longrightarrow> multi_step l M (put_back c Outside m M)"

definition holds :: "multi \<Rightarrow> nat \<Rightarrow> bool" where
  "holds M c \<longleftrightarrow> stage M c \<in> {Won, Inside, Disowned}"

definition exclusive :: "lockid \<Rightarrow> multi \<Rightarrow> bool" where
  "exclusive l M \<longleftrightarrow>
     (\<forall>c d. holds M c \<and> holds M d \<longrightarrow> c = d)
     \<and> (lk_locked (spinlocks (shared M) l) = 0 \<longrightarrow> (\<forall>c. \<not> holds M c))"

lemma spinlocks_kept:
  "mycpu s = Ret c t \<Longrightarrow> spinlocks t = spinlocks s"
  "pushcli s = Ret u t \<Longrightarrow> spinlocks t = spinlocks s"
  "popcli s = Ret u t \<Longrightarrow> spinlocks t = spinlocks s"
  by (auto simp: mycpu_def pushcli_def popcli_def upd_cpu_def Let_def seq_Ret_iff
      split: if_splits option.splits)

lemma holding_spinlocks: "holding l s = Ret h t \<Longrightarrow> spinlocks t = spinlocks s"
  by (auto simp: holding_def Let_def seq_Ret_iff dest!: spinlocks_kept)

lemma exclusive_step:
  assumes "multi_step l M N" "exclusive l M"
  shows "exclusive l N"
  using assms
proof cases
  case (step_enter c m)
  then show ?thesis
    using assms(2)
    by (auto simp: exclusive_def holds_def put_back_def view_def acquire_enter_def seq_Ret_iff
        split: if_splits dest!: spinlocks_kept holding_spinlocks)
next
  case (step_spin c v m)
  then show ?thesis
    using assms(2) by (auto simp: exclusive_def holds_def put_back_def view_def xchg_locked_def upd_lock_def)
next
  case (step_win c m)
  then show ?thesis
    using assms(2) by (auto simp: exclusive_def holds_def put_back_def view_def xchg_locked_def upd_lock_def)
next
  case (step_own c m)
  then show ?thesis
    using assms(2)
    by (auto simp: exclusive_def holds_def put_back_def view_def acquire_own_def upd_lock_def seq_Ret_iff
        dest!: spinlocks_kept split: if_splits)
next
  case (step_disown c m)
  then show ?thesis
    using assms(2)
    by (auto simp: exclusive_def holds_def put_back_def view_def release_disown_def upd_lock_def
        seq_Ret_iff split: if_splits dest!: holding_spinlocks)
next
  case (step_store c)
  then show ?thesis
    using assms(2) by (auto simp: exclusive_def holds_def put_back_def view_def release_store_def upd_lock_def)
next
  case (step_leave c m)
  then show ?thesis
    using assms(2)
    by (auto simp: exclusive_def holds_def put_back_def view_def split: if_splits dest!: spinlocks_kept)
qed

lemma exclusive_reachable: "(multi_step l)\<^sup>*\<^sup>* M N \<Longrightarrow> exclusive l M \<Longrightarrow> exclusive l N"
  by (induction rule: rtranclp_induct) (auto intro: exclusive_step)

subsection \<open>Properties\<close>

text \<open>C1 (spinlock.c \<^verbatim>\<open>acquire\<close>, \<^verbatim>\<open>release\<close>): mutual exclusion. However the processors interleave their
  accesses to a lock, two of them are never past the winning exchange of \<^verbatim>\<open>acquire\<close> and before the
  store of \<^verbatim>\<open>release\<close> at the same time.\<close>

theorem spinlock_mutual_exclusion:
  assumes "(multi_step l)\<^sup>*\<^sup>* M N" "\<forall>c. stage M c = Outside" "holds N c" "holds N d"
  shows "c = d"
proof -
  have "exclusive l M"
    using assms(2) by (simp add: exclusive_def holds_def)
  then show ?thesis
    using exclusive_reachable [OF assms(1)] assms(3,4) by (auto simp: exclusive_def)
qed

definition multi0 :: multi where
  "multi0 = \<lparr>shared = boot_machine, flags = \<lambda>_. False, stage = \<lambda>_. Outside\<rparr>"

lemma multi0_steps:
  "\<exists>N. (multi_step Lk_kmem)\<^sup>*\<^sup>* multi0 N \<and> holds N 0"
proof -
  have v: "view 0 multi0 = boot_machine"
    by (simp add: view_def multi0_def boot_machine_def boot_cpu_def)
  have "acquire_enter Lk_kmem boot_machine = Ret () (nest boot_machine)"
    using pushcli_steady [of boot_machine] holding_steady [of "nest boot_machine" Lk_kmem]
      lock_free_boot [of Lk_kmem]
    by (simp add: acquire_enter_def lock_mine_def lock_free_def)
  then have 1: "multi_step Lk_kmem multi0 (put_back 0 Trying (nest boot_machine) multi0)"
    using v by (intro step_enter) (simp_all add: multi0_def boot_machine_def)
  let ?M = "put_back 0 Trying (nest boot_machine) multi0"
  have "\<exists>m. xchg_locked Lk_kmem (view 0 ?M) = Ret 0 m"
    by (simp add: xchg_locked_def put_back_def view_def boot_machine_def)
  then obtain m where "xchg_locked Lk_kmem (view 0 ?M) = Ret 0 m" ..
  then have "multi_step Lk_kmem ?M (put_back 0 Won m ?M)"
    by (intro step_win) (simp_all add: put_back_def boot_machine_def)
  then show ?thesis
    using 1 by (intro exI [of _ "put_back 0 Won m ?M"] conjI)
      (auto simp: holds_def put_back_def)
qed

theorem spinlock_mutual_exclusion_witness:
  "\<exists>N. (multi_step Lk_kmem)\<^sup>*\<^sup>* multi0 N \<and> holds N 0 \<and> (\<forall>d. \<not> holds N (Suc d))"
proof -
  obtain N where N: "(multi_step Lk_kmem)\<^sup>*\<^sup>* multi0 N" "holds N 0"
    using multi0_steps by blast
  have "\<not> holds N (Suc d)" for d
    using spinlock_mutual_exclusion [OF N(1) _ N(2), of "Suc d"] by (auto simp: multi0_def)
  then show ?thesis
    using N by blast
qed





end
