(* ===== verification/Cstring.thy ===== *)
theory Cstring
  imports Prelude
begin

section \<open>Byte memory and the C string routines (string.c)\<close>

text \<open>
  Memory is a total map from 32-bit addresses to bytes. The routines of string.c read and write it
  through pointers that wrap around at \<open>2^32\<close>, as the machine's do. Each loop of the source is a
  recursion over the bytes it still has to handle.
\<close>

type_synonym mem = "addr \<Rightarrow> u8"

subsection \<open>Words in memory\<close>

text \<open>Little-endian 32-bit loads and stores.\<close>

definition ld32 :: "mem \<Rightarrow> addr \<Rightarrow> u32" where
  "ld32 m a =
     ucast (m a) OR push_bit 8 (ucast (m (a + 1))) OR push_bit 16 (ucast (m (a + 2)))
       OR push_bit 24 (ucast (m (a + 3)))"

definition st32 :: "mem \<Rightarrow> addr \<Rightarrow> u32 \<Rightarrow> mem" where
  "st32 m a v =
     m(a := ucast v, a + 1 := ucast (drop_bit 8 v), a + 2 := ucast (drop_bit 16 v),
       a + 3 := ucast (drop_bit 24 v))"

definition aligned :: "nat \<Rightarrow> addr \<Rightarrow> bool" where
  "aligned k a \<longleftrightarrow> unat a mod k = 0"

lemma ld32_st32_same [simp, mem_simps]: "ld32 (st32 m a v) a = v"
proof (rule bit_word_eqI)
  fix n
  assume "n < LENGTH(32)"
  then show "bit (ld32 (st32 m a v) a) n \<longleftrightarrow> bit v n"
    by (cases "24 \<le> n"; cases "16 \<le> n") (auto simp: ld32_def st32_def bit_simps)
qed

lemma unat_aligned_add:
  assumes "aligned 4 a" "i < 4"
  shows "unat (a + word_of_nat i) = unat a + i"
proof -
  have "unat a < 4294967296"
    using unsigned_less [of a] by simp
  then have "unat a + 3 < 4294967296"
    using assms(1) unfolding aligned_def by presburger
  then have "unat a + i < 2 ^ LENGTH(32)"
    using assms(2) by simp
  then show ?thesis
    using assms(2) by (simp add: unat_word_ariths unat_of_nat)
qed

lemma aligned_add_neq:
  assumes "aligned 4 a" "aligned 4 b" "a \<noteq> b" "i < 4" "j < 4"
  shows "a + word_of_nat i \<noteq> b + word_of_nat j"
proof
  assume "a + word_of_nat i = b + word_of_nat j"
  then have "unat a + i = unat b + j"
    using assms unat_aligned_add by metis
  moreover have "unat a mod 4 = 0" "unat b mod 4 = 0"
    using assms by (simp_all add: aligned_def)
  ultimately have "unat a = unat b"
    using assms(4,5) by presburger
  then show False
    using assms(3) by (simp add: word_unat_eq_iff)
qed

lemma st32_other:
  assumes "aligned 4 a" "aligned 4 b" "a \<noteq> b" "j < 4"
  shows "st32 m a v (b + word_of_nat j) = m (b + word_of_nat j)"
  using assms aligned_add_neq [of b a j 0] aligned_add_neq [of b a j 1]
    aligned_add_neq [of b a j 2] aligned_add_neq [of b a j 3]
  by (simp add: st32_def)

lemma ld32_st32_other [simp, mem_simps]:
  assumes "aligned 4 a" "aligned 4 b" "a \<noteq> b"
  shows "ld32 (st32 m a v) b = ld32 m b"
  using st32_other [OF assms, of 0] st32_other [OF assms, of 1] st32_other [OF assms, of 2]
    st32_other [OF assms, of 3]
  by (simp add: ld32_def)

subsection \<open>memset, memcmp, memmove\<close>

text \<open>x86.h: \<^verbatim>\<open>rep stosb\<close> and \<^verbatim>\<open>rep stosl\<close> store a byte or a word \<open>cnt\<close> times at rising addresses.\<close>

fun stosb :: "mem \<Rightarrow> addr \<Rightarrow> u32 \<Rightarrow> nat \<Rightarrow> mem" where
  "stosb m a data 0 = m"
| "stosb m a data (Suc cnt) = stosb (m(a := ucast data)) (a + 1) data cnt"

fun stosl :: "mem \<Rightarrow> addr \<Rightarrow> u32 \<Rightarrow> nat \<Rightarrow> mem" where
  "stosl m a data 0 = m"
| "stosl m a data (Suc cnt) = stosl (st32 m a data) (a + 4) data cnt"

definition memset :: "mem \<Rightarrow> addr \<Rightarrow> u32 \<Rightarrow> u32 \<Rightarrow> mem" where
  "memset m dst c n =
     (if dst mod 4 = 0 \<and> n mod 4 = 0
      then let c = c AND 0xFF in
           stosl m dst (push_bit 24 c OR push_bit 16 c OR push_bit 8 c OR c) (unat (n div 4))
      else stosb m dst c (unat n))"

fun memcmp :: "mem \<Rightarrow> addr \<Rightarrow> addr \<Rightarrow> nat \<Rightarrow> int" where
  "memcmp m s1 s2 0 = 0"
| "memcmp m s1 s2 (Suc n) =
     (if m s1 \<noteq> m s2 then uint (m s1) - uint (m s2) else memcmp m (s1 + 1) (s2 + 1) n)"

text \<open>The two loops of \<^verbatim>\<open>memmove\<close>: \<^verbatim>\<open>*--d = *--s\<close> from the end and \<^verbatim>\<open>*d++ = *s++\<close> from the start.\<close>

fun copy_down :: "mem \<Rightarrow> addr \<Rightarrow> addr \<Rightarrow> nat \<Rightarrow> mem" where
  "copy_down m d s 0 = m"
| "copy_down m d s (Suc n) = copy_down (m(d - 1 := m (s - 1))) (d - 1) (s - 1) n"

fun copy_up :: "mem \<Rightarrow> addr \<Rightarrow> addr \<Rightarrow> nat \<Rightarrow> mem" where
  "copy_up m d s 0 = m"
| "copy_up m d s (Suc n) = copy_up (m(d := m s)) (d + 1) (s + 1) n"

definition memmove :: "mem \<Rightarrow> addr \<Rightarrow> addr \<Rightarrow> u32 \<Rightarrow> mem" where
  "memmove m dst src n =
     (if src < dst \<and> src + n > dst
      then copy_down m (dst + n) (src + n) (unat n)
      else copy_up m dst src (unat n))"

definition memcpy :: "mem \<Rightarrow> addr \<Rightarrow> addr \<Rightarrow> u32 \<Rightarrow> mem" where
  "memcpy m dst src n = memmove m dst src n"

subsection \<open>Strings\<close>

fun strncmp :: "mem \<Rightarrow> addr \<Rightarrow> addr \<Rightarrow> nat \<Rightarrow> int" where
  "strncmp m p q 0 = 0"
| "strncmp m p q (Suc n) =
     (if m p \<noteq> 0 \<and> m p = m q then strncmp m (p + 1) (q + 1) n
      else uint (m p) - uint (m q))"

text \<open>\<^verbatim>\<open>while(n-- > 0) *s++ = 0\<close>, the padding loop.\<close>

fun zero_fill :: "mem \<Rightarrow> addr \<Rightarrow> nat \<Rightarrow> mem" where
  "zero_fill m s 0 = m"
| "zero_fill m s (Suc n) = zero_fill (m(s := 0)) (s + 1) n"

fun strncpy_loop :: "mem \<Rightarrow> addr \<Rightarrow> addr \<Rightarrow> nat \<Rightarrow> mem" where
  "strncpy_loop m s t 0 = m"
| "strncpy_loop m s t (Suc n) =
     (let m' = m(s := m t) in
      if m t \<noteq> 0 then strncpy_loop m' (s + 1) (t + 1) n else zero_fill m' (s + 1) n)"

definition strncpy :: "mem \<Rightarrow> addr \<Rightarrow> addr \<Rightarrow> int \<Rightarrow> mem" where
  "strncpy m s t n = strncpy_loop m s t (nat n)"

fun safestrcpy_loop :: "mem \<Rightarrow> addr \<Rightarrow> addr \<Rightarrow> nat \<Rightarrow> mem" where
  "safestrcpy_loop m s t 0 = m(s := 0)"
| "safestrcpy_loop m s t (Suc n) =
     (let m' = m(s := m t) in
      if m t \<noteq> 0 then safestrcpy_loop m' (s + 1) (t + 1) n else m'(s + 1 := 0))"

definition safestrcpy :: "mem \<Rightarrow> addr \<Rightarrow> addr \<Rightarrow> int \<Rightarrow> mem" where
  "safestrcpy m s t n = (if n \<le> 0 then m else safestrcpy_loop m s t (nat (n - 1)))"

text \<open>\<^verbatim>\<open>for(n = 0; s[n]; n++)\<close>: the loop ends only if a zero byte follows.\<close>

partial_function (option) strlen_from :: "mem \<Rightarrow> addr \<Rightarrow> nat \<Rightarrow> nat option" where
  "strlen_from m s n = (if m (s + word_of_nat n) = 0 then Some n else strlen_from m s (Suc n))"

definition strlen :: "mem \<Rightarrow> addr \<Rightarrow> nat option" where
  "strlen m s = strlen_from m s 0"

subsection \<open>Filling and copying\<close>

text \<open>What \<^verbatim>\<open>memset\<close> is for: \<open>n\<close> bytes from \<open>a\<close> on hold \<open>b\<close>, and nothing else changes.\<close>

definition fill :: "mem \<Rightarrow> addr \<Rightarrow> nat \<Rightarrow> u8 \<Rightarrow> mem" where
  "fill m a n b = (\<lambda>x. if unat (x - a) < n then b else m x)"

lemma fill_fill:
  assumes "n1 + n2 \<le> 4294967296"
  shows "fill (fill m a n1 b) (a + word_of_nat n1) n2 b = fill m a (n1 + n2) b"
proof
  fix x
  show "fill (fill m a n1 b) (a + word_of_nat n1) n2 b x = fill m a (n1 + n2) b x"
    using assms unat_u32 [of "x - a"]
    by (auto simp: fill_def unat_sub_offset)
qed

lemma fill_0 [simp]: "fill m a 0 b = m"
  by (simp add: fill_def)

lemma fill_1 [simp]: "fill m a (Suc 0) b = m(a := b)"
  by (auto simp: fill_def unat_eq_zero)

lemma fill_Suc: "n < 4294967296 \<Longrightarrow> fill m a (Suc n) b = fill (m(a := b)) (a + 1) n b"
  using fill_fill [of "Suc 0" n m a b] by simp

lemma stosb_fill: "n \<le> 4294967296 \<Longrightarrow> stosb m a c n = fill m a n (ucast c)"
  by (induction n arbitrary: m a) (simp_all add: fill_Suc)

lemma st32_fill:
  assumes "c = c AND 0xFF"
  shows "st32 m a (push_bit 24 c OR push_bit 16 c OR push_bit 8 c OR c) = fill m a 4 (ucast c)"
proof -
  have b: "n < 8" if "bit c n" for n
    using assms that bit_take_bit_iff [of 8 c n] by (simp add: and_0xFF)
  have e: "ucast (push_bit 24 c OR push_bit 16 c OR push_bit 8 c OR c) = (ucast c :: u8)"
    "ucast (drop_bit 8 (push_bit 24 c OR push_bit 16 c OR push_bit 8 c OR c)) = (ucast c :: u8)"
    "ucast (drop_bit 16 (push_bit 24 c OR push_bit 16 c OR push_bit 8 c OR c)) = (ucast c :: u8)"
    "ucast (drop_bit 24 (push_bit 24 c OR push_bit 16 c OR push_bit 8 c OR c)) = (ucast c :: u8)"
    by (rule bit_word_eqI; auto simp: bit_simps dest: b)+
  have "fill m a (Suc (Suc (Suc (Suc 0)))) (ucast c) =
      m(a := ucast c, a + 1 := ucast c, a + 2 := ucast c, a + 3 := ucast c)"
    by (simp add: fill_Suc) (simp add: add.commute)
  then have "fill m a 4 (ucast c) =
      m(a := ucast c, a + 1 := ucast c, a + 2 := ucast c, a + 3 := ucast c)"
    by (simp add: eval_nat_numeral)
  then show ?thesis
    by (simp only: st32_def e)
qed

lemma stosl_fill:
  "4 * n \<le> 4294967296 \<Longrightarrow> c = c AND 0xFF \<Longrightarrow>
     stosl m a (push_bit 24 c OR push_bit 16 c OR push_bit 8 c OR c) n = fill m a (4 * n) (ucast c)"
proof (induction n arbitrary: m a)
  case (Suc n)
  then show ?case
    using fill_fill [of 4 "4 * n" m a "ucast c"] by (simp add: st32_fill)
qed simp

lemma memset_fill: "memset m dst c n = fill m dst (unat n) (ucast c)"
  using unat_u32 [of n] 
proof -
  have n: "4 * unat (n div 4) = unat n" if "n mod 4 = 0"
    using that by (auto simp: word_unat_eq_iff unat_div unat_mod)
  have c: "ucast (c AND 0xFF) = (ucast c :: u8)"
    by (rule bit_word_eqI) (auto simp: bit_simps and_0xFF)
  show ?thesis
  proof (cases "dst mod 4 = 0 \<and> n mod 4 = 0")
    case True
    have "4 * unat (n div 4) \<le> 4294967296"
      using True n unat_u32 [of n] by simp
    then have "stosl m dst (push_bit 24 (c AND 0xFF) OR push_bit 16 (c AND 0xFF)
        OR push_bit 8 (c AND 0xFF) OR (c AND 0xFF)) (unat (n div 4))
        = fill m dst (4 * unat (n div 4)) (ucast (c AND 0xFF))"
      by (rule stosl_fill) (simp add: and.assoc)
    then show ?thesis
      unfolding memset_def Let_def using True n c by (simp only: if_True simp_thms)
  next
    case False
    then show ?thesis
      using unat_u32 [of n] unfolding memset_def by (simp only: if_False stosb_fill less_imp_le)
  qed
qed

lemma copy_up_spec:
  assumes "n \<le> 4294967296" "unat (d - s) = 0 \<or> n \<le> unat (d - s)"
  shows "copy_up m d s n x = (if unat (x - d) < n then m (s + (x - d)) else m x)"
  using assms
proof (induction n arbitrary: m d s)
  case (Suc n)
  have IH: "copy_up (m(d := m s)) (d + 1) (s + 1) n x =
     (if unat (x - (d + 1)) < n then (m(d := m s)) (s + 1 + (x - (d + 1))) else (m(d := m s)) x)"
    using Suc.IH [of "d + 1" "s + 1" "m(d := m s)"] Suc.prems by (auto simp del: fun_upd_apply)
  have e: "s + 1 + (x - (d + 1)) = s + (x - d)"
    by simp
  have ne: "s + (x - d) \<noteq> d" if "x \<noteq> d" "unat (x - d) < Suc n"
  proof
    assume "s + (x - d) = d"
    then have "x - d = d - s"
      by (metis add_diff_cancel_left')
    then show False
      using that Suc.prems(2) by (auto simp: unat_eq_zero)
  qed
  have "copy_up m d s (Suc n) x =
     (if unat (x - (d + 1)) < n then (m(d := m s)) (s + (x - d)) else (m(d := m s)) x)"
    using IH e by simp
  then show ?case
    using Suc.prems(1) ne unat_u32 [of "x - d"] unat_gt_0 [of "x - d"]
    by (cases "x = d") (auto simp: unat_sub_Suc)
qed simp

lemma copy_down_spec:
  assumes "n \<le> 4294967296" "unat (s - d) = 0 \<or> n \<le> unat (s - d)"
  shows "copy_down m (d + word_of_nat n) (s + word_of_nat n) n x =
    (if unat (x - d) < n then m (s + (x - d)) else m x)"
  using assms
proof (induction n arbitrary: m)
  case (Suc n)
  let ?d = "d + word_of_nat n" and ?s = "s + word_of_nat n"
  have p: "d + word_of_nat (Suc n) - 1 = ?d" "s + word_of_nat (Suc n) - 1 = ?s"
    by simp_all
  have IH: "copy_down (m(?d := m ?s)) ?d ?s n x =
     (if unat (x - d) < n then (m(?d := m ?s)) (s + (x - d)) else (m(?d := m ?s)) x)"
    using Suc.IH [of "m(?d := m ?s)"] Suc.prems by (auto simp del: fun_upd_apply)
  have n: "unat (word_of_nat n :: u32) = n"
    using Suc.prems(1) by (simp add: unat_of_nat)
  have ne: "s + (x - d) \<noteq> ?d" if "unat (x - d) < n"
  proof
    assume "s + (x - d) = ?d"
    then have "x - d + (s - d) = word_of_nat n"
      by (metis add_diff_cancel_left' add_diff_eq add.commute)
    then have "unat (x - d + (s - d)) = n"
      using n by simp
    then show False
      using Suc.prems(2) that unat_u32 [of "s - d"] unat_add_cases [of "x - d" "s - d"]
      by arith
  qed
  have xd: "x = ?d \<longleftrightarrow> unat (x - d) = n"
    using n by (metis add_diff_cancel_left' diff_add_cancel word_unat_eq_iff)
  show ?case
    unfolding copy_down.simps p IH using ne xd by auto
qed simp

lemma memmove_snapshot:
  assumes "unat src + unat n < 2 ^ 32" "unat dst + unat n \<le> 2 ^ 32"
  shows "memmove m dst src n = (\<lambda>x. if unat (x - dst) < unat n then m (src + (x - dst)) else m x)"
proof
  fix x
  have add: "unat (src + n) = unat src + unat n"
    using assms(1) unat_add_cases [of src n] by auto
  show "memmove m dst src n x = (if unat (x - dst) < unat n then m (src + (x - dst)) else m x)"
  proof (cases "src < dst \<and> src + n > dst")
    case True
    then have "unat n \<le> unat (src - dst)"
      using assms add unat_sub_if' [of src dst] by (auto simp: word_less_nat_alt word_le_nat_alt)
    then show ?thesis
      using True copy_down_spec [of "unat n" src dst m x] unat_u32 [of n]
      by (simp add: memmove_def)
  next
    case False
    then have "unat (dst - src) = 0 \<or> unat n \<le> unat (dst - src)"
      using assms add unat_sub_if' [of dst src]
      by (auto simp: word_less_nat_alt word_le_nat_alt)
    then show ?thesis
      using False copy_up_spec [of "unat n" dst src m x] unat_u32 [of n]
      by (auto simp: memmove_def)
  qed
qed
subsection \<open>Strings as lists of bytes\<close>

definition bytes :: "mem \<Rightarrow> addr \<Rightarrow> nat \<Rightarrow> u8 list" where
  "bytes m a n = map (\<lambda>i. m (a + word_of_nat i)) [0..<n]"

lemma bytes_0 [simp]: "bytes m a 0 = []"
  by (simp add: bytes_def)

lemma bytes_Suc [simp]: "bytes m a (Suc n) = m a # bytes m (a + 1) n"
  by (simp add: bytes_def upt_conv_Cons map_Suc_upt [symmetric] add.assoc del: upt_Suc)

lemma length_bytes [simp]: "length (bytes m a n) = n"
  by (simp add: bytes_def)

lemma strncmp_eq_0:
  "strncmp m p q n = 0 \<longleftrightarrow>
     takeWhile (\<lambda>c. c \<noteq> 0) (bytes m p n) = takeWhile (\<lambda>c. c \<noteq> 0) (bytes m q n)"
proof (induction n arbitrary: p q)
  case (Suc n)
  then show ?case
    by (auto simp: word_uint_eq_iff)
qed simp

lemma zero_fill_fill: "n \<le> 4294967296 \<Longrightarrow> zero_fill m s n = fill m s n 0"
  by (induction n arbitrary: m s) (simp_all add: fill_Suc)

lemma safestrcpy_loop_spec:
  assumes "j < 4294967295"
  shows "(\<exists>k \<le> j. safestrcpy_loop m s t j (s + word_of_nat k) = 0)
     \<and> (\<forall>x. j < unat (x - s) \<longrightarrow> safestrcpy_loop m s t j x = m x)"
  using assms
proof (induction j arbitrary: m s t)
  case 0
  then show ?case by auto
next
  case (Suc j)
  let ?m = "m(s := m t)"
  show ?case
  proof (cases "m t = 0")
    case True
    have "s + word_of_nat 1 = s + 1"
      by simp
    moreover have "x \<noteq> s \<and> x \<noteq> s + 1" if "Suc j < unat (x - s)" for x
      using that by auto
    ultimately show ?thesis
      using True by (auto simp: Let_def intro: exI [of _ 0])
  next
    case False
    have IH: "\<exists>k \<le> j. safestrcpy_loop ?m (s + 1) (t + 1) j (s + 1 + word_of_nat k) = 0"
      "\<forall>x. j < unat (x - (s + 1)) \<longrightarrow> safestrcpy_loop ?m (s + 1) (t + 1) j x = ?m x"
      using Suc by simp_all
    from IH(1) obtain k where "k \<le> j" "safestrcpy_loop ?m (s + 1) (t + 1) j (s + 1 + word_of_nat k) = 0"
      by blast
    then have "Suc k \<le> Suc j \<and> safestrcpy_loop ?m (s + 1) (t + 1) j (s + word_of_nat (Suc k)) = 0"
      by (simp add: add.assoc)
    then have "\<exists>k \<le> Suc j. safestrcpy_loop ?m (s + 1) (t + 1) j (s + word_of_nat k) = 0"
      by blast
    moreover have "safestrcpy_loop ?m (s + 1) (t + 1) j x = m x" if "Suc j < unat (x - s)" for x
    proof -
      have "x \<noteq> s"
        using that by auto
      moreover from this have "j < unat (x - (s + 1))"
        using that by (simp add: unat_sub_Suc)
      ultimately show ?thesis
        using IH(2) by simp
    qed
    ultimately show ?thesis
      using False by (simp add: Let_def)
  qed
qed

lemma safestrcpy_nul_terminated:
  assumes "0 < n" "n < 2 ^ 31"
  shows "(\<exists>k < nat n. safestrcpy m s t n (s + word_of_nat k) = 0)
     \<and> (\<forall>x. nat n \<le> unat (x - s) \<longrightarrow> safestrcpy m s t n x = m x)"
proof -
  define j where "j = nat (n - 1)"
  have "nat n = Suc j" "j < 4294967295"
    using assms by (simp_all add: j_def nat_less_iff)
  then show ?thesis
    using assms(1) safestrcpy_loop_spec [of j m s t]
    by (simp add: safestrcpy_def j_def less_Suc_eq_le Suc_le_eq)
qed

lemma strlen_finds_nul:
  assumes "m (s + word_of_nat k) = 0" "\<forall>i < k. m (s + word_of_nat i) \<noteq> 0"
  shows "strlen m s = Some k"
proof -
  have "strlen_from m s (k - j) = Some k" if "j \<le> k" for j
    using that
  proof (induction j)
    case (Suc j)
    then have "Suc (k - Suc j) = k - j" "k - Suc j < k"
      by simp_all
    then show ?case
      using Suc assms(2) by (subst strlen_from.simps) (simp del: of_nat_diff)
  qed (subst strlen_from.simps, simp add: assms(1))
  from this [of k] show ?thesis
    by (simp add: strlen_def)
qed

subsection \<open>Overlapping copies\<close>

text \<open>C28 (equivalence). \<^verbatim>\<open>memmove\<close>, which chooses between a loop from the start and one from the end, is the copy
  that reads all of the source before it writes: for areas that do not wrap around the end of memory, however they
  overlap, the destination holds afterwards the bytes that the source held before, and no other byte changes.\<close>

theorem memmove_is_simultaneous_copy:
  assumes "unat src + unat n < 2 ^ 32" "unat dst + unat n \<le> 2 ^ 32"
  shows "bytes (memmove m dst src n) dst (unat n) = bytes m src (unat n)
     \<and> (\<forall>x. unat n \<le> unat (x - dst) \<longrightarrow> memmove m dst src n x = m x)"
proof -
  have "unat (word_of_nat i :: u32) = i" if "i < unat n" for i
    using that unat_u32 [of n] by (simp add: unat_of_nat)
  then show ?thesis
    by (simp add: memmove_snapshot [OF assms] bytes_def)
qed

theorem memmove_is_simultaneous_copy_witness:
  "bytes (memmove (\<lambda>x. ucast x) 0x1003 0x1000 8) 0x1003 8 = [0, 1, 2, 3, 4, 5, 6, 7]
   \<and> memmove (\<lambda>x. ucast x) 0x1003 0x1000 8 0x100B = 0x0B"
  using memmove_is_simultaneous_copy [of "0x1000" 8 "0x1003" "\<lambda>x. ucast x"]
  by (simp add: bytes_def upt_rec)

end
