(* ===== verification/Mmu.thy ===== *)
theory Mmu
  imports Cstring
begin

section \<open>Constants and address arithmetic (mmu.h, memlayout.h, param.h)\<close>

text \<open>The macros on addresses keep their C names; the sizes and limits are abbreviations.\<close>

abbreviation (input) PGSIZE :: u32 where "PGSIZE \<equiv> 4096"
abbreviation (input) EXTMEM :: u32 where "EXTMEM \<equiv> 0x100000"
abbreviation (input) PHYSTOP :: u32 where "PHYSTOP \<equiv> 0xE000000"
abbreviation (input) DEVSPACE :: u32 where "DEVSPACE \<equiv> 0xFE000000"
abbreviation (input) KERNBASE :: u32 where "KERNBASE \<equiv> 0x80000000"
abbreviation (input) KERNLINK :: u32 where "KERNLINK \<equiv> 0x80100000"

abbreviation (input) NPROC :: nat where "NPROC \<equiv> 128"
abbreviation (input) KSTACKSIZE :: u32 where "KSTACKSIZE \<equiv> 4096"
abbreviation (input) NOFILE :: nat where "NOFILE \<equiv> 16"
abbreviation (input) NFILE :: nat where "NFILE \<equiv> 100"
abbreviation (input) NINODE :: nat where "NINODE \<equiv> 50"
abbreviation (input) NDEV :: nat where "NDEV \<equiv> 10"
abbreviation (input) ROOTDEV :: u32 where "ROOTDEV \<equiv> 1"
abbreviation (input) MAXARG :: nat where "MAXARG \<equiv> 32"
abbreviation (input) MAXOPBLOCKS :: nat where "MAXOPBLOCKS \<equiv> 10"
abbreviation (input) LOGSIZE :: nat where "LOGSIZE \<equiv> 30"
abbreviation (input) NBUF :: nat where "NBUF \<equiv> 30"
abbreviation (input) FSSIZE :: nat where "FSSIZE \<equiv> 1000"
abbreviation (input) MAXQ :: nat where "MAXQ \<equiv> 7"
abbreviation (input) KT_TABLESIZE :: nat where "KT_TABLESIZE \<equiv> 64"

abbreviation (input) PTE_P :: u32 where "PTE_P \<equiv> 1"
abbreviation (input) PTE_W :: u32 where "PTE_W \<equiv> 2"
abbreviation (input) PTE_U :: u32 where "PTE_U \<equiv> 4"

definition V2P :: "addr \<Rightarrow> u32" where
  "V2P a = a - KERNBASE"

definition P2V :: "u32 \<Rightarrow> addr" where
  "P2V a = a + KERNBASE"

definition PGROUNDUP :: "u32 \<Rightarrow> u32" where
  "PGROUNDUP sz = (sz + PGSIZE - 1) AND NOT (PGSIZE - 1)"

definition PGROUNDDOWN :: "u32 \<Rightarrow> u32" where
  "PGROUNDDOWN a = a AND NOT (PGSIZE - 1)"

definition PDX :: "addr \<Rightarrow> u32" where
  "PDX va = drop_bit 22 va AND 0x3FF"

definition PTX :: "addr \<Rightarrow> u32" where
  "PTX va = drop_bit 12 va AND 0x3FF"

definition PGADDR :: "u32 \<Rightarrow> u32 \<Rightarrow> u32 \<Rightarrow> addr" where
  "PGADDR d t ofs = push_bit 22 d OR push_bit 12 t OR ofs"

definition PTE_ADDR :: "u32 \<Rightarrow> u32" where
  "PTE_ADDR pte = pte AND NOT 0xFFF"

definition PTE_FLAGS :: "u32 \<Rightarrow> u32" where
  "PTE_FLAGS pte = pte AND 0xFFF"

text \<open>\<open>STACKBOTTOM\<close> is \<^verbatim>\<open>PGROUNDDOWN(KERNBASE-4)\<close>.\<close>

definition STACKBOTTOM :: addr where
  "STACKBOTTOM = PGROUNDDOWN (KERNBASE - 4)"

subsection \<open>Facts about pages\<close>

lemma V2P_P2V [simp]: "V2P (P2V a) = a" "P2V (V2P a) = a"
  by (simp_all add: V2P_def P2V_def)

lemma STACKBOTTOM_eq: "STACKBOTTOM = 0x7FFFF000"
  by (simp add: STACKBOTTOM_def PGROUNDDOWN_def)

lemma and_0xFFF: "(c :: u32) AND 0xFFF = take_bit 12 c"
proof -
  have "(0xFFF :: u32) = mask 12"
    by (simp add: mask_eq_exp_minus_1)
  then show ?thesis
    by (simp only: take_bit_eq_mask)
qed

lemma and_not_0xFFF: "(a :: u32) AND NOT 0xFFF = push_bit 12 (drop_bit 12 a)"
proof -
  have m: "(0xFFF :: u32) = mask 12"
    by (simp add: mask_eq_exp_minus_1)
  show ?thesis
    unfolding m by (rule bit_word_eqI) (auto simp: bit_simps)
qed

lemma unat_and_not_0xFFF: "unat ((a :: u32) AND NOT 0xFFF) = 4096 * (unat a div 4096)"
proof -
  have "4096 * (unat a div 4096) < 4294967296"
    using unat_u32 [of a] div_times_less_eq_dividend [of "unat a" 4096]
    by (simp add: mult.commute)
  then show ?thesis
    unfolding and_not_0xFFF
    by (simp add: push_bit_eq_mult drop_bit_eq_div unat_mult_lem [symmetric] unat_div_distrib
      unat_word_ariths)
qed

lemma PGROUNDDOWN_alt: "PGROUNDDOWN a = a AND NOT 0xFFF"
  by (simp add: PGROUNDDOWN_def)

lemma PGROUNDUP_alt: "PGROUNDUP a = PGROUNDDOWN (a + 4095)"
  by (simp add: PGROUNDDOWN_def PGROUNDUP_def add.commute)

lemma PTE_ADDR_alt: "PTE_ADDR a = PGROUNDDOWN a"
  by (simp add: PGROUNDDOWN_def PTE_ADDR_def)

lemma unat_PGROUNDDOWN: "unat (PGROUNDDOWN a) = 4096 * (unat a div 4096)"
  by (simp only: PGROUNDDOWN_alt unat_and_not_0xFFF)

lemma aligned_PGROUNDDOWN [simp]: "aligned 4096 (PGROUNDDOWN a)" "aligned 4096 (PGROUNDUP a)"
    "aligned 4096 (PTE_ADDR a)"
  by (simp_all add: aligned_def unat_PGROUNDDOWN PGROUNDUP_alt PTE_ADDR_alt)

lemma PGROUNDDOWN_le: "PGROUNDDOWN a \<le> a"
  by (simp add: word_le_nat_alt unat_PGROUNDDOWN)

lemma PGROUNDDOWN_aligned [simp]: "aligned 4096 a \<Longrightarrow> PGROUNDDOWN a = a"
  by (auto simp: word_unat_eq_iff unat_PGROUNDDOWN aligned_def)

lemma unat_PGROUNDUP:
  "unat a + 4095 < 4294967296 \<Longrightarrow> unat (PGROUNDUP a) = 4096 * ((unat a + 4095) div 4096)"
  by (simp add: PGROUNDUP_alt unat_PGROUNDDOWN unat_word_ariths)

lemma page_eqn:
  assumes "aligned 4096 a"
  obtains k where "unat a = 4096 * k" "k < 1048576"
proof
  show "unat a = 4096 * (unat a div 4096)"
    using assms by (auto simp: aligned_def)
  show "unat a div 4096 < 1048576"
    using unat_u32 [of a] by (simp add: less_mult_imp_div_less)
qed

lemma PGROUNDUP_aligned [simp]:
  assumes "aligned 4096 a"
  shows "PGROUNDUP a = a"
proof -
  obtain k where k: "unat a = 4096 * k" "k < 1048576"
    by (rule page_eqn [OF assms])
  then have "(unat a + 4095) div 4096 = k"
    by (simp add: div_add1_eq)
  then show ?thesis
    using k by (simp add: word_unat_eq_iff unat_PGROUNDUP)
qed

lemma unat_page_add:
  assumes "aligned 4096 a" "i < 4096"
  shows "unat (a + word_of_nat i) = unat a + i"
proof -
  obtain k where "unat a = 4096 * k" "k < 1048576"
    by (rule page_eqn [OF assms(1)])
  then show ?thesis
    using assms(2) by (simp add: unat_word_ariths unat_of_nat)
qed

lemma page_offset:
  assumes "aligned 4096 a" "aligned 4096 v" "a \<noteq> v" "i < 4096"
  shows "4096 \<le> unat (a + word_of_nat i - v)"
proof -
  obtain k where k: "unat a = 4096 * k" "k < 1048576"
    by (rule page_eqn [OF assms(1)])
  obtain l where l: "unat v = 4096 * l" "l < 1048576"
    by (rule page_eqn [OF assms(2)])
  have "k \<noteq> l"
    using k l assms(3) by (auto simp: word_unat_eq_iff)
  then show ?thesis
    using k l assms(4) unat_page_add [OF assms(1,4)] unat_sub_if' [of "a + word_of_nat i" v]
    by (cases "k < l") (auto simp: word_le_nat_alt)
qed

lemma fill_page_other:
  assumes "aligned 4096 a" "aligned 4096 v" "a \<noteq> v" "i < 4096"
  shows "fill m v 4096 b (a + word_of_nat i) = m (a + word_of_nat i)"
  using page_offset [OF assms] by (simp add: fill_def)

lemma ld32_fill_other:
  assumes "aligned 4096 a" "aligned 4096 v" "a \<noteq> v"
  shows "ld32 (fill m v 4096 b) a = ld32 m a"
  using fill_page_other [OF assms, of 0] fill_page_other [OF assms, of 1]
    fill_page_other [OF assms, of 2] fill_page_other [OF assms, of 3]
  by (simp add: ld32_def)

lemma aligned_4096_4: "aligned 4096 a \<Longrightarrow> aligned 4 a"
  by (auto elim!: page_eqn simp: aligned_def mod_mult_eq [symmetric])

end
