(* ===== verification/Kalloc.thy ===== *)
theory Kalloc
  imports Spinlock Mmu "HOL-Library.Multiset"
begin

section \<open>Physical page allocator (kalloc.c)\<close>

text \<open>
  The free list is kept as the code keeps it: \<^verbatim>\<open>kmem.freelist\<close> is an address, and the first word of
  a free page holds the address of the next one. \<open>free_list\<close> reads the list out of memory, and the
  operations are shown to be \<open>push\<close> and \<open>pop\<close> on it. \<open>kend\<close> is the linker's symbol \<^verbatim>\<open>end\<close>.
\<close>

record kmachine = machine +
  ram :: mem
  kend :: addr
  use_lock :: bool
  freelist :: addr

lemma kmachine_mach [simp]:
  "mach (s\<lparr>ram := r\<rparr>) = mach s" "mach (s\<lparr>freelist := f\<rparr>) = mach s" "mach (s\<lparr>use_lock := b\<rparr>) = mach s"
  by (rule machine.equality; simp)+

lemma kmachine_set_mach [simp]:
  "ram (set_mach m s) = ram s" "kend (set_mach m s) = kend s"
  "use_lock (set_mach m s) = use_lock s" "freelist (set_mach m s) = freelist s"
  "set_mach m (s\<lparr>ram := r\<rparr>) = (set_mach m s)\<lparr>ram := r\<rparr>"
  "set_mach m (s\<lparr>freelist := f\<rparr>) = (set_mach m s)\<lparr>freelist := f\<rparr>"
  "set_mach m (s\<lparr>use_lock := b\<rparr>) = (set_mach m s)\<lparr>use_lock := b\<rparr>"
  by (cases s; cases m; simp add: set_mach_def machine.defs)+

subsection \<open>Operations\<close>

definition kfree :: "addr \<Rightarrow> 'x kmachine_scheme \<Rightarrow> (unit, 'x kmachine_scheme) outcome" where
  "kfree v s =
     (if v mod PGSIZE \<noteq> 0 \<or> v < kend s \<or> PHYSTOP \<le> V2P v then Panic ''kfree''
      else let s = s\<lparr>ram := memset (ram s) v 1 PGSIZE\<rparr> in
      seq (whenb (use_lock s) (acquire Lk_kmem) s) (\<lambda>_ s.
      let s = s\<lparr>ram := st32 (ram s) v (freelist s)\<rparr>;
          s = s\<lparr>freelist := v\<rparr> in
      whenb (use_lock s) (release Lk_kmem) s))"

definition kalloc :: "'x kmachine_scheme \<Rightarrow> (addr, 'x kmachine_scheme) outcome" where
  "kalloc s =
     seq (whenb (use_lock s) (acquire Lk_kmem) s) (\<lambda>_ s.
     let r = freelist s;
         s = (if r \<noteq> 0 then s\<lparr>freelist := ld32 (ram s) r\<rparr> else s) in
     seq (whenb (use_lock s) (release Lk_kmem) s) (\<lambda>_ s. Ret r s))"

text \<open>
  The loop of \<^verbatim>\<open>freerange\<close> goes on only when \<^verbatim>\<open>kfree\<close> returned, and then the page lies below
  \<^verbatim>\<open>PHYSTOP\<close>, so \<^verbatim>\<open>p += PGSIZE\<close> does not wrap around.
\<close>

lemma kfree_Ret_bound:
  assumes "kfree p s = Ret u t"
  shows "unat p + 4096 < 4294967296"
proof -
  have "V2P p < PHYSTOP"
    using assms by (auto simp: kfree_def split: if_splits)
  then have "unat (p - word_of_nat 0x80000000) < 0xE000000"
    by (simp add: V2P_def word_less_nat_alt)
  then show ?thesis
    unfolding unat_sub_word [of "0x80000000" p, simplified]
    using unat_u32 [of p] unat_sub_word [of "0x80000000" p] by (simp split: if_splits)
qed

function freerange_loop :: "addr \<Rightarrow> addr \<Rightarrow> 'x kmachine_scheme \<Rightarrow> (unit, 'x kmachine_scheme) outcome" where
  "freerange_loop p vend s =
     (if p + PGSIZE \<le> vend
      then seq (kfree p s) (\<lambda>_ s. freerange_loop (p + PGSIZE) vend s)
      else Ret () s)"
  by pat_completeness auto
termination
proof (relation "measure (\<lambda>(p, vend, s). 4294967296 - unat p)")
  fix p vend :: addr and s :: "'x kmachine_scheme" and u t
  assume "kfree p s = Ret u t"
  then have "unat p + 4096 < 4294967296"
    by (rule kfree_Ret_bound)
  then have "unat (p + PGSIZE) = unat p + 4096" "unat p < 4294967296"
    by (simp_all add: unat_word_ariths)
  then show "((p + PGSIZE, vend, t), p, vend, s) \<in> measure (\<lambda>(p, vend, s). 4294967296 - unat p)"
    by simp
qed simp

declare freerange_loop.simps [simp del]

definition freerange :: "addr \<Rightarrow> addr \<Rightarrow> 'x kmachine_scheme \<Rightarrow> (unit, 'x kmachine_scheme) outcome" where
  "freerange vstart vend s = freerange_loop (PGROUNDUP vstart) vend s"

definition kinit1 :: "addr \<Rightarrow> addr \<Rightarrow> 'x kmachine_scheme \<Rightarrow> (unit, 'x kmachine_scheme) outcome" where
  "kinit1 vstart vend s =
     (let s = initlock Lk_kmem ''kmem'' s; s = s\<lparr>use_lock := False\<rparr> in freerange vstart vend s)"

definition kinit2 :: "addr \<Rightarrow> addr \<Rightarrow> 'x kmachine_scheme \<Rightarrow> (unit, 'x kmachine_scheme) outcome" where
  "kinit2 vstart vend s =
     seq (freerange vstart vend s) (\<lambda>_ s. Ret () (s\<lparr>use_lock := True\<rparr>))"

subsection \<open>The free list\<close>

fun free_list :: "mem \<Rightarrow> addr \<Rightarrow> addr list \<Rightarrow> bool" where
  "free_list m p [] \<longleftrightarrow> p = 0"
| "free_list m p (a # as) \<longleftrightarrow> p = a \<and> a \<noteq> 0 \<and> free_list m (ld32 m a) as"

definition page_ok :: "addr \<Rightarrow> addr \<Rightarrow> bool" where
  "page_ok e v \<longleftrightarrow> aligned 4096 v \<and> e \<le> v \<and> V2P v < PHYSTOP \<and> v \<noteq> 0"

text \<open>\<open>avail s as\<close>: the allocator can be entered and its free pages are \<open>as\<close>, in list order.\<close>

definition avail :: "'x kmachine_scheme \<Rightarrow> addr list \<Rightarrow> bool" where
  "avail s as \<longleftrightarrow>
     steady (mach s) \<and> (use_lock s \<longrightarrow> lock_free Lk_kmem (mach s))
     \<and> free_list (ram s) (freelist s) as \<and> distinct as \<and> (\<forall>a \<in> set as. page_ok (kend s) a)"

lemma free_list_det: "free_list m p as \<Longrightarrow> free_list m p bs \<Longrightarrow> as = bs"
proof (induction as arbitrary: p bs)
  case Nil
  then show ?case by (cases bs) auto
next
  case (Cons a as)
  then show ?case by (cases bs) auto
qed

text \<open>A write that stays inside one page leaves the rest of memory alone.\<close>

definition same_off_page :: "addr \<Rightarrow> mem \<Rightarrow> mem \<Rightarrow> bool" where
  "same_off_page v m m' \<longleftrightarrow> (\<forall>x. 4096 \<le> unat (x - v) \<longrightarrow> m' x = m x)"

lemma same_off_page_ld32:
  assumes "same_off_page v m m'" "aligned 4096 a" "aligned 4096 v" "a \<noteq> v"
  shows "ld32 m' a = ld32 m a"
  using assms(1) page_offset [OF assms(2-4), of 0] page_offset [OF assms(2-4), of 1]
    page_offset [OF assms(2-4), of 2] page_offset [OF assms(2-4), of 3]
  by (simp add: same_off_page_def ld32_def)

lemma same_off_page_trans:
  "same_off_page v m m' \<Longrightarrow> same_off_page v m' m'' \<Longrightarrow> same_off_page v m m''"
  by (simp add: same_off_page_def)

lemma same_off_page_fill: "n \<le> 4096 \<Longrightarrow> same_off_page v m (fill m v n b)"
  by (simp add: same_off_page_def fill_def)

lemma same_off_page_st32: "same_off_page v m (st32 m v w)"
  using unat_sub_word [of 1] 
  by (auto simp: same_off_page_def st32_def)

lemma free_list_frame:
  assumes "same_off_page v m m'" "aligned 4096 v"
  shows "free_list m p as \<Longrightarrow> v \<notin> set as \<Longrightarrow> \<forall>a \<in> set as. aligned 4096 a \<Longrightarrow> free_list m' p as"
  by (induction as arbitrary: p) (auto simp: same_off_page_ld32 [OF assms(1) _ assms(2)])

lemma page_ok_mod: "page_ok e v \<Longrightarrow> v mod PGSIZE = 0"
  by (simp add: page_ok_def aligned_def word_unat_eq_iff unat_mod)

text \<open>What the two operations do to the state.\<close>

definition junk :: "addr \<Rightarrow> 'x kmachine_scheme \<Rightarrow> mem" where
  "junk v s = st32 (fill (ram s) v 4096 1) v (freelist s)"

lemma kfree_eq:
  assumes "steady (mach s)" "use_lock s \<longrightarrow> lock_free Lk_kmem (mach s)" "page_ok (kend s) v"
  shows "kfree v s = Ret () (s\<lparr>ram := junk v s, freelist := v\<rparr>)"
proof -
  have "\<not> (v mod PGSIZE \<noteq> 0 \<or> v < kend s \<or> PHYSTOP \<le> V2P v)"
    using assms(3) page_ok_mod [OF assms(3)] by (auto simp: page_ok_def)
  then show ?thesis
    using assms(1,2)
    by (cases "use_lock s")
      (simp_all add: kfree_def section_simps memset_fill junk_def Let_def)
qed

lemma kalloc_eq:
  assumes "steady (mach s)" "use_lock s \<longrightarrow> lock_free Lk_kmem (mach s)"
  shows "kalloc s = Ret (freelist s)
           (if freelist s = 0 then s else s\<lparr>freelist := ld32 (ram s) (freelist s)\<rparr>)"
  using assms by (cases "use_lock s") (simp_all add: kalloc_def section_simps Let_def)

lemma kfree_bad: "\<not> page_ok (kend s) v \<Longrightarrow> v \<noteq> 0 \<Longrightarrow> kfree v s = Panic ''kfree''"
  by (auto simp: kfree_def page_ok_def aligned_def word_unat_eq_iff unat_mod)

lemma same_off_page_junk: "same_off_page v (ram s) (junk v s)"
  unfolding junk_def by (rule same_off_page_trans [OF same_off_page_fill same_off_page_st32]) simp

lemma avail_kfree:
  assumes "avail s as" "page_ok (kend s) v" "v \<notin> set as"
  shows "avail (s\<lparr>ram := junk v s, freelist := v\<rparr>) (v # as)"
proof -
  have "free_list (junk v s) (freelist s) as"
    using assms same_off_page_junk
    by (intro free_list_frame [of v "ram s" "junk v s"]) (auto simp: avail_def page_ok_def)
  moreover have "ld32 (junk v s) v = freelist s"
    by (simp add: junk_def)
  ultimately show ?thesis
    using assms by (auto simp: avail_def page_ok_def)
qed


subsection \<open>The contract of the allocator\<close>

text \<open>
  What the rest of the kernel relies on: an allocator hands out a page from its pool or 0 when the
  pool is empty, and takes back a valid page that is not in the pool.
\<close>

datatype page_op = Op_kalloc | Op_kfree nat

text \<open>
  A client that calls the allocator in any order; \<open>own\<close> lists the pages it holds, and \<open>Op_kfree i\<close>
  gives back the \<open>i\<close>-th of them.
\<close>

fun run_pages ::
    "('s \<Rightarrow> (addr, 's) outcome) \<Rightarrow> (addr \<Rightarrow> 's \<Rightarrow> (unit, 's) outcome) \<Rightarrow> page_op list \<Rightarrow>
     addr list \<Rightarrow> 's \<Rightarrow> (addr list, 's) outcome" where
  "run_pages al fr [] own s = Ret own s"
| "run_pages al fr (Op_kalloc # ops) own s =
     seq (al s) (\<lambda>r s. run_pages al fr ops (if r = 0 then own else r # own) s)"
| "run_pages al fr (Op_kfree i # ops) own s =
     (if i < length own
      then seq (fr (own ! i) s) (\<lambda>_ s. run_pages al fr ops (take i own @ drop (Suc i) own) s)
      else run_pages al fr ops own s)"

locale page_allocator =
  fixes alloc :: "'s \<Rightarrow> (addr, 's) outcome"
    and dealloc :: "addr \<Rightarrow> 's \<Rightarrow> (unit, 's) outcome"
    and pool :: "'s \<Rightarrow> addr list \<Rightarrow> bool"
    and page :: "'s \<Rightarrow> addr \<Rightarrow> bool"
  assumes alloc_empty: "pool s [] \<Longrightarrow> alloc s = Ret 0 s"
    and alloc_page: "pool s (a # as) \<Longrightarrow> \<exists>t. alloc s = Ret a t \<and> pool t as \<and> page t = page s"
    and dealloc_page: "pool s as \<Longrightarrow> page s a \<Longrightarrow> a \<notin> set as \<Longrightarrow>
      \<exists>t. dealloc a s = Ret () t \<and> pool t (a # as) \<and> page t = page s"
    and pool_distinct: "pool s as \<Longrightarrow> distinct as"
    and pool_page: "pool s as \<Longrightarrow> a \<in> set as \<Longrightarrow> page s a \<and> a \<noteq> 0"
begin

lemma run_pages_pool:
  assumes "pool s as" "distinct (own @ as)" "\<forall>a \<in> set own. page s a"
  shows "returns (run_pages alloc dealloc ops own s)
    (\<lambda>own' t. \<exists>as'. pool t as' \<and> distinct (own' @ as') \<and> mset (own' @ as') = mset (own @ as)
       \<and> (\<forall>a \<in> set own'. page t a))"
  using assms
proof (induction ops arbitrary: own s as)
  case (Cons op ops)
  show ?case
  proof (cases op)
    case Op_kalloc
    show ?thesis
    proof (cases as)
      case Nil
      then show ?thesis
        using Cons.IH [of s "[]" own] Cons.prems Op_kalloc by (simp add: alloc_empty)
    next
      case as: (Cons a as')
      obtain t where t: "alloc s = Ret a t" "pool t as'" "page t = page s"
        using alloc_page Cons.prems(1) as by blast
      have "page s a \<and> a \<noteq> 0"
        using pool_page Cons.prems(1) as by simp
      then show ?thesis
        using Cons.IH [of t as' "a # own"] Cons.prems Op_kalloc t as by simp
    qed
  next
    case (Op_kfree i)
    show ?thesis
    proof (cases "i < length own")
      case True
      have own: "own = take i own @ own ! i # drop (Suc i) own"
        using True by (rule id_take_nth_drop)
      define own' where "own' = take i own @ drop (Suc i) own"
      have m: "mset own = add_mset (own ! i) (mset own')" "set own = insert (own ! i) (set own')"
        unfolding own'_def by (subst own; simp)+
      have d: "distinct (own' @ own ! i # as)"
        using Cons.prems(2) unfolding own'_def by (subst (asm) own) auto
      obtain t where t: "dealloc (own ! i) s = Ret () t" "pool t (own ! i # as)" "page t = page s"
        using dealloc_page [OF Cons.prems(1), of "own ! i"] Cons.prems(3) True d by auto
      then show ?thesis
        using Cons.IH [OF t(2), of own'] Cons.prems True d m Op_kfree
        by (simp add: own'_def [symmetric])
    qed (use Cons Op_kfree in simp)
  qed
qed auto

end

interpretation kmem: page_allocator kalloc kfree avail "\<lambda>s. page_ok (kend s)"
proof
  fix s :: "'x kmachine_scheme" and a as
  assume "avail s (a # as)"
  then show "\<exists>t. kalloc s = Ret a t \<and> avail t as \<and> page_ok (kend t) = page_ok (kend s)"
    by (auto simp: avail_def kalloc_eq)
next
  fix s :: "'x kmachine_scheme" and a as
  assume "avail s as" "page_ok (kend s) a" "a \<notin> set as"
  then show "\<exists>t. kfree a s = Ret () t \<and> avail t (a # as) \<and> page_ok (kend t) = page_ok (kend s)"
    using avail_kfree [of s as a] by (auto simp: kfree_eq avail_def)
qed (auto simp: avail_def kalloc_eq page_ok_def)

subsection \<open>Building the free list\<close>

text \<open>The pages of a range, in the order \<^verbatim>\<open>freerange\<close> frees them.\<close>

definition range_pages :: "addr \<Rightarrow> nat \<Rightarrow> addr list" where
  "range_pages p n = map (\<lambda>i. p + word_of_nat (4096 * i)) [0..<n]"

lemma range_pages_Suc: "range_pages p (Suc n) = p # range_pages (p + 4096) n"
  by (simp add: range_pages_def upt_conv_Cons map_Suc_upt [symmetric] algebra_simps del: upt_Suc)

lemma range_pages_0 [simp]: "range_pages p 0 = []"
  by (simp add: range_pages_def)

lemma range_pages_ok:
  assumes "aligned 4096 p" "e \<le> p" "0x80000000 \<le> unat p" "unat p + 4096 * n \<le> 0x8E000000"
  shows "distinct (range_pages p n)" "\<forall>a \<in> set (range_pages p n). page_ok e a"
proof -
  have u: "unat (p + word_of_nat (4096 * i)) = unat p + 4096 * i" if "i < n" for i
    using assms(4) that by (intro unat_add_of_nat) simp
  show "distinct (range_pages p n)"
    unfolding range_pages_def distinct_map
    using u by (auto intro!: inj_onI simp del: of_nat_mult) (metis add_left_cancel mult_cancel1
        zero_neq_numeral)
  have "page_ok e (p + word_of_nat (4096 * i))" if "i < n" for i
  proof -
    have v: "unat (V2P (p + word_of_nat (4096 * i))) = unat p + 4096 * i - 0x80000000"
      using u [OF that] unat_sub_word [of "0x80000000" "p + word_of_nat (4096 * i)"] assms(3)
      by (simp add: V2P_def)
    show ?thesis
      using u [OF that] v assms that
      by (auto simp: page_ok_def aligned_def word_le_nat_alt word_less_nat_alt
          simp del: of_nat_mult)
  qed
  then show "\<forall>a \<in> set (range_pages p n). page_ok e a"
    by (auto simp: range_pages_def)
qed

lemma freerange_loop_pool:
  assumes "avail s as" "set (range_pages p n) \<inter> set as = {}" "distinct (range_pages p n)"
    and "\<forall>a \<in> set (range_pages p n). page_ok (kend s) a"
    and "unat p + 4096 * n \<le> unat vend" "unat vend < unat p + 4096 * Suc n"
    and "unat vend + 4096 < 4294967296"
  shows "returns (freerange_loop p vend s)
    (\<lambda>_ t. avail t (rev (range_pages p n) @ as) \<and> kend t = kend s)"
  using assms
proof (induction n arbitrary: p s as)
  case 0
  then have "\<not> p + PGSIZE \<le> vend"
    using unat_add_cases [of p 4096] by (auto simp: word_le_nat_alt)
  then show ?case
    using 0 by (simp add: freerange_loop.simps)
next
  case (Suc n)
  let ?s = "s\<lparr>ram := junk p s, freelist := p\<rparr>"
  have p: "unat (p + 4096) = unat p + 4096"
    using Suc.prems(5,7) unat_add_cases [of p 4096] by auto
  then have c: "p + PGSIZE \<le> vend"
    using Suc.prems(5) by (simp add: word_le_nat_alt)
  have ok: "page_ok (kend s) p" "p \<notin> set as"
    using Suc.prems(2,4) by (simp_all add: range_pages_Suc)
  have "avail ?s (p # as)"
    using avail_kfree [OF Suc.prems(1) ok] .
  then have "returns (freerange_loop (p + 4096) vend ?s)
      (\<lambda>_ t. avail t (rev (range_pages (p + 4096) n) @ p # as) \<and> kend t = kend ?s)"
    using Suc.prems p by (intro Suc.IH) (auto simp: range_pages_Suc)
  moreover have "kfree p s = Ret () ?s"
    using Suc.prems(1) ok by (simp add: kfree_eq avail_def)
  ultimately show ?case
    using c by (subst freerange_loop.simps) (simp add: range_pages_Suc)
qed

subsection \<open>Properties\<close>

text \<open>C3 (kalloc.c \<^verbatim>\<open>kalloc\<close>, \<^verbatim>\<open>kfree\<close>): whatever sequence of allocations and releases of pages it
  owns a client performs, the calls return, no page is ever handed out twice, no page is both owned and
  free, and no page is lost: owned and free pages together are always the pages there were at the
  start.\<close>

theorem kalloc_kfree_conserve_pages:
  assumes "avail s as" "distinct (own @ as)" "\<forall>a \<in> set own. page_ok (kend s) a"
  shows "returns (run_pages kalloc kfree ops own s)
    (\<lambda>own' t. \<exists>as'. avail t as' \<and> distinct (own' @ as') \<and> mset (own' @ as') = mset (own @ as)
       \<and> (\<forall>a \<in> set own'. page_ok (kend t) a))"
  using assms by (rule kmem.run_pages_pool)

definition one_page :: kmachine where
  "one_page = machine.extend boot_machine
     \<lparr>ram = \<lambda>_. 0, kend = 0x80110000, use_lock = True, freelist = 0x80400000\<rparr>"

lemma mach_one_page [simp]: "mach one_page = boot_machine"
  by (rule machine.equality) (simp_all add: one_page_def machine.defs boot_machine_def)

lemma one_page_sel [simp]:
  "ram one_page = (\<lambda>_. 0)" "kend one_page = 0x80110000" "use_lock one_page"
  "freelist one_page = 0x80400000"
  by (simp_all add: one_page_def machine.defs boot_machine_def)

lemma avail_one_page: "avail one_page [0x80400000]"
  by (simp add: avail_def ld32_def page_ok_def aligned_def V2P_def)

theorem kalloc_kfree_conserve_pages_witness:
  "avail one_page [0x80400000] \<and>
   returns (run_pages kalloc kfree [Op_kalloc, Op_kalloc, Op_kfree 0] [] one_page)
     (\<lambda>own' t. \<exists>as'. avail t as' \<and> distinct (own' @ as') \<and> mset (own' @ as') = mset ([] @ [0x80400000])
        \<and> (\<forall>a \<in> set own'. page_ok (kend t) a))"
  using kalloc_kfree_conserve_pages [of one_page "[0x80400000]" "[]" "[Op_kalloc, Op_kalloc, Op_kfree 0]"]
    avail_one_page
  by simp

text \<open>C12 (kalloc.c \<^verbatim>\<open>kinit1\<close>, \<^verbatim>\<open>freerange\<close>): started on a page-aligned range of physical memory, the
  first phase of initialisation returns and leaves exactly the pages of the range on the free list,
  the highest first, each of them once.\<close>

theorem kinit1_builds_pool:
  assumes "steady (mach s)" "freelist s = 0"
    and "aligned 4096 p" "kend s \<le> p" "0x80000000 \<le> unat p" "unat p + 4096 * n \<le> 0x8E000000"
  shows "returns (kinit1 p (p + word_of_nat (4096 * n)) s)
    (\<lambda>_ t. avail t (rev (range_pages p n)) \<and> kend t = kend s)"
proof -
  let ?s = "(initlock Lk_kmem ''kmem'' s)\<lparr>use_lock := False\<rparr>"
  have "steady (mach ?s)"
    using assms(1) by (simp add: initlock_def upd_lock_def mach_upd)
  then have "avail ?s []"
    using assms(2) by (simp add: avail_def initlock_def upd_lock_def)
  moreover have k: "kend ?s = kend s"
    by (simp add: initlock_def upd_lock_def)
  moreover have "unat (p + word_of_nat (4096 * n)) = unat p + 4096 * n"
    using assms(6) by (intro unat_add_of_nat) simp
  ultimately have "returns (freerange_loop p (p + word_of_nat (4096 * n)) ?s)
      (\<lambda>_ t. avail t (rev (range_pages p n) @ []) \<and> kend t = kend ?s)"
    using assms range_pages_ok [OF assms(3-6)]
    by (intro freerange_loop_pool) (simp_all add: initlock_def upd_lock_def)
  then show ?thesis
    using assms(3) k by (simp add: kinit1_def freerange_def Let_def)
qed

theorem kinit1_builds_pool_witness:
  "returns (kinit1 0x80200000 (0x80200000 + word_of_nat (4096 * 512)) (one_page\<lparr>freelist := 0\<rparr>))
    (\<lambda>_ t. avail t (rev (range_pages 0x80200000 512)) \<and> kend t = 0x80110000)"
  using kinit1_builds_pool [where s = "one_page\<lparr>freelist := 0\<rparr>" and p = "0x80200000" and n = 512]
  by (simp add: aligned_def)

end
