(* ===== verification/Vm.thy ===== *)
theory Vm
  imports Kalloc
begin

section \<open>Page tables (vm.c)\<close>

text \<open>
  Two-level x86 page tables in physical memory, as vm.c builds and walks them through the kernel's
  mapping of physical memory. The functions that also need the process table or the file system
  (\<^verbatim>\<open>switchuvm\<close>, \<^verbatim>\<open>loaduvm\<close>) are with those components.
\<close>

text \<open>
  \<open>kdata\<close> is the linker's symbol \<^verbatim>\<open>data\<close>, \<open>ts_addr c\<close> the address of \<^verbatim>\<open>cpus[c].ts\<close>, \<open>gdtr\<close> the
  descriptor table the processor has loaded, and \<open>klog\<close> what \<^verbatim>\<open>cprintf\<close> has printed.
\<close>

record kvm = kmachine +
  kdata :: addr
  kpgdir :: addr
  gdtr :: "nat option"
  ts_addr :: "nat \<Rightarrow> addr"
  klog :: "string list"

lemma kvm_mach [simp]:
  "mach (s\<lparr>kpgdir := x1\<rparr>) = mach s" "mach (s\<lparr>gdtr := x2\<rparr>) = mach s" "mach (s\<lparr>klog := x3\<rparr>) = mach s"
  by (rule machine.equality; simp)+

lemma kvm_set_mach [simp]:
  "kdata (set_mach m s) = kdata s" "kpgdir (set_mach m s) = kpgdir s" "gdtr (set_mach m s) = gdtr s"
  "ts_addr (set_mach m s) = ts_addr s" "klog (set_mach m s) = klog s"
  "set_mach m (s\<lparr>kpgdir := x1\<rparr>) = (set_mach m s)\<lparr>kpgdir := x1\<rparr>"
  "set_mach m (s\<lparr>gdtr := x2\<rparr>) = (set_mach m s)\<lparr>gdtr := x2\<rparr>"
  "set_mach m (s\<lparr>klog := x3\<rparr>) = (set_mach m s)\<lparr>klog := x3\<rparr>"
  by (cases s; cases m; simp add: set_mach_def machine.defs)+

definition cprintf :: "string \<Rightarrow> 'x kvm_scheme \<Rightarrow> 'x kvm_scheme" where
  "cprintf msg s = s\<lparr>klog := klog s @ [msg]\<rparr>"

subsection \<open>Segments\<close>

definition SEG :: "4 word \<Rightarrow> u32 \<Rightarrow> u32 \<Rightarrow> 2 word \<Rightarrow> segdesc" where
  "SEG type base lim dpl =
     \<lparr>lim_15_0 = ucast (drop_bit 12 lim AND 0xffff), base_15_0 = ucast (base AND 0xffff),
      base_23_16 = ucast (drop_bit 16 base AND 0xff), sd_type = type, sd_s = 1, sd_dpl = dpl, sd_p = 1,
      lim_19_16 = ucast (drop_bit 28 lim), sd_avl = 0, sd_rsv1 = 0, sd_db = 1, sd_g = 1,
      base_31_24 = ucast (drop_bit 24 base)\<rparr>"

definition SEG16 :: "4 word \<Rightarrow> u32 \<Rightarrow> u32 \<Rightarrow> 2 word \<Rightarrow> segdesc" where
  "SEG16 type base lim dpl =
     \<lparr>lim_15_0 = ucast (lim AND 0xffff), base_15_0 = ucast (base AND 0xffff),
      base_23_16 = ucast (drop_bit 16 base AND 0xff), sd_type = type, sd_s = 1, sd_dpl = dpl, sd_p = 1,
      lim_19_16 = ucast (drop_bit 16 lim), sd_avl = 0, sd_rsv1 = 0, sd_db = 1, sd_g = 0,
      base_31_24 = ucast (drop_bit 24 base)\<rparr>"

text \<open>Selectors 1 to 4 are the kernel's and the user's code and data; \<^verbatim>\<open>STA_X|STA_R\<close> is 10, \<^verbatim>\<open>STA_W\<close> 2.\<close>

definition seginit :: "'x kvm_scheme \<Rightarrow> (unit, 'x kvm_scheme) outcome" where
  "seginit s =
     seq (cpuid s) (\<lambda>c s.
     let s = upd_cpu c (\<lambda>p. p\<lparr>gdt := (gdt p)(1 := SEG 10 0 0xffffffff 0)\<rparr>) s;
         s = upd_cpu c (\<lambda>p. p\<lparr>gdt := (gdt p)(2 := SEG 2 0 0xffffffff 0)\<rparr>) s;
         s = upd_cpu c (\<lambda>p. p\<lparr>gdt := (gdt p)(3 := SEG 10 0 0xffffffff 3)\<rparr>) s;
         s = upd_cpu c (\<lambda>p. p\<lparr>gdt := (gdt p)(4 := SEG 2 0 0xffffffff 3)\<rparr>) s
     in Ret () (s\<lparr>gdtr := Some c\<rparr>))"

subsection \<open>Walking and mapping\<close>

definition walkpgdir :: "addr \<Rightarrow> addr \<Rightarrow> bool \<Rightarrow> 'x kvm_scheme \<Rightarrow> (addr, 'x kvm_scheme) outcome" where
  "walkpgdir pgdir va alloc s =
     (let pde = pgdir + 4 * PDX va in
      if ld32 (ram s) pde AND PTE_P \<noteq> 0
      then Ret (P2V (PTE_ADDR (ld32 (ram s) pde)) + 4 * PTX va) s
      else if \<not> alloc then Ret 0 s
      else seq (kalloc s) (\<lambda>pgtab s.
           if pgtab = 0 then Ret 0 s
           else let s = s\<lparr>ram := memset (ram s) pgtab 0 PGSIZE\<rparr>;
                    s = s\<lparr>ram := st32 (ram s) pde (V2P pgtab OR PTE_P OR PTE_W OR PTE_U)\<rparr>
                in Ret (pgtab + 4 * PTX va) s))"

text \<open>
  The loop of \<^verbatim>\<open>mappages\<close> from \<open>a\<close> to \<^verbatim>\<open>last\<close>; both are page aligned, and \<open>n\<close> is the number of pages
  from \<open>a\<close> to \<^verbatim>\<open>last\<close>, so \<^verbatim>\<open>a == last\<close> when it is 0.
\<close>

primrec mappages_loop ::
    "nat \<Rightarrow> addr \<Rightarrow> addr \<Rightarrow> u32 \<Rightarrow> u32 \<Rightarrow> 'x kvm_scheme \<Rightarrow> (int, 'x kvm_scheme) outcome" where
  "mappages_loop 0 pgdir a pa perm s =
     seq (walkpgdir pgdir a True s) (\<lambda>pte s.
     if pte = 0 then Ret (-1) s
     else if ld32 (ram s) pte AND PTE_P \<noteq> 0 then Panic ''remap''
     else Ret 0 (s\<lparr>ram := st32 (ram s) pte (pa OR perm OR PTE_P)\<rparr>))"
| "mappages_loop (Suc n) pgdir a pa perm s =
     seq (walkpgdir pgdir a True s) (\<lambda>pte s.
     if pte = 0 then Ret (-1) s
     else if ld32 (ram s) pte AND PTE_P \<noteq> 0 then Panic ''remap''
     else let s = s\<lparr>ram := st32 (ram s) pte (pa OR perm OR PTE_P)\<rparr> in
          mappages_loop n pgdir (a + PGSIZE) (pa + PGSIZE) perm s)"

definition mappages ::
    "addr \<Rightarrow> addr \<Rightarrow> u32 \<Rightarrow> u32 \<Rightarrow> u32 \<Rightarrow> 'x kvm_scheme \<Rightarrow> (int, 'x kvm_scheme) outcome" where
  "mappages pgdir va sz pa perm s =
     (let a = PGROUNDDOWN va; last = PGROUNDDOWN (va + sz - 1) in
      mappages_loop (unat (last - a) div 4096) pgdir a pa perm s)"

subsection \<open>Releasing user memory\<close>

text \<open>
  The loop of \<^verbatim>\<open>deallocuvm\<close>. Where a page directory entry is missing it jumps to the next one. If the
  address wraps around, the loop starts again at 0 and comes back to the same place for ever.
\<close>

definition dealloc_next :: "addr \<Rightarrow> addr \<Rightarrow> addr" where
  "dealloc_next pte a = (if pte = 0 then PGADDR (PDX a + 1) 0 0 - PGSIZE else a) + PGSIZE"

definition dealloc_page :: "addr \<Rightarrow> 'x kvm_scheme \<Rightarrow> (unit, 'x kvm_scheme) outcome" where
  "dealloc_page pte s =
     (if pte \<noteq> 0 \<and> ld32 (ram s) pte AND PTE_P \<noteq> 0
      then let pa = PTE_ADDR (ld32 (ram s) pte) in
           if pa = 0 then Panic ''kfree''
           else seq (kfree (P2V pa) s) (\<lambda>_ s. Ret () (s\<lparr>ram := st32 (ram s) pte 0\<rparr>))
      else Ret () s)"

function deallocuvm_loop ::
    "addr \<Rightarrow> addr \<Rightarrow> addr \<Rightarrow> 'x kvm_scheme \<Rightarrow> (unit, 'x kvm_scheme) outcome" where
  "deallocuvm_loop pgdir a oldsz s =
     (if a < oldsz then
        seq (walkpgdir pgdir a False s) (\<lambda>pte s.
        seq (dealloc_page pte s) (\<lambda>_ s.
        let a' = dealloc_next pte a in
        if a' \<le> a then Diverge else deallocuvm_loop pgdir a' oldsz s))
      else Ret () s)"
  by pat_completeness auto
termination
  by (relation "measure (\<lambda>(pgdir, a, oldsz, s). 4294967296 - unat a)")
    (auto simp: word_le_nat_alt not_le intro!: diff_less_mono2 less_le_trans [OF _ less_imp_le [OF unat_u32]]
      unat_u32)

declare deallocuvm_loop.simps [simp del]

definition deallocuvm :: "addr \<Rightarrow> u32 \<Rightarrow> u32 \<Rightarrow> 'x kvm_scheme \<Rightarrow> (u32, 'x kvm_scheme) outcome" where
  "deallocuvm pgdir oldsz newsz s =
     (if newsz \<ge> oldsz then Ret oldsz s
      else seq (deallocuvm_loop pgdir (PGROUNDUP newsz) oldsz s) (\<lambda>_ s. Ret newsz s))"

definition freevm :: "addr \<Rightarrow> 'x kvm_scheme \<Rightarrow> (unit, 'x kvm_scheme) outcome" where
  "freevm pgdir s =
     (if pgdir = 0 then Panic ''freevm: no pgdir''
      else seq (deallocuvm pgdir KERNBASE 0 s) (\<lambda>_ s.
           seq (for_each [0..<1024] (\<lambda>i s.
             let pde = ld32 (ram s) (pgdir + 4 * word_of_nat i) in
             if pde AND PTE_P \<noteq> 0 then kfree (P2V (PTE_ADDR pde)) s else Ret () s) s) (\<lambda>_ s.
           kfree pgdir s)))"

subsection \<open>The kernel part\<close>

definition kmap :: "addr \<Rightarrow> (addr \<times> u32 \<times> u32 \<times> u32) list" where
  "kmap data =
     [(KERNBASE, 0, EXTMEM, PTE_W),
      (KERNLINK, V2P KERNLINK, V2P data, 0),
      (data, V2P data, PHYSTOP, PTE_W),
      (DEVSPACE, DEVSPACE, 0, PTE_W)]"

definition setupkvm :: "'x kvm_scheme \<Rightarrow> (addr, 'x kvm_scheme) outcome" where
  "setupkvm s =
     seq (kalloc s) (\<lambda>pgdir s.
     if pgdir = 0 then Ret 0 s
     else let s = s\<lparr>ram := memset (ram s) pgdir 0 PGSIZE\<rparr> in
     if P2V PHYSTOP > DEVSPACE then Panic ''PHYSTOP too high''
     else seq (for_until (kmap (kdata s)) (\<lambda>(virt, phys_start, phys_end, perm) s.
            seq (mappages pgdir virt (phys_end - phys_start) phys_start perm s) (\<lambda>r s.
            if r < 0 then seq (freevm pgdir s) (\<lambda>_ s. Ret (Some 0) s) else Ret None s)) s) (\<lambda>e s.
          case e of Some r \<Rightarrow> Ret r s | None \<Rightarrow> Ret pgdir s))"

definition switchkvm :: "'x kvm_scheme \<Rightarrow> 'x kvm_scheme" where
  "switchkvm s = s\<lparr>cr3 := V2P (kpgdir s)\<rparr>"

definition kvmalloc :: "'x kvm_scheme \<Rightarrow> (unit, 'x kvm_scheme) outcome" where
  "kvmalloc s = seq (setupkvm s) (\<lambda>p s. let s = s\<lparr>kpgdir := p\<rparr> in Ret () (switchkvm s))"

subsection \<open>User memory\<close>

text \<open>\<open>init\<close> is the address of the initial program in the kernel image.\<close>

definition inituvm :: "addr \<Rightarrow> addr \<Rightarrow> u32 \<Rightarrow> 'x kvm_scheme \<Rightarrow> (unit, 'x kvm_scheme) outcome" where
  "inituvm pgdir init sz s =
     (if sz \<ge> PGSIZE then Panic ''inituvm: more than a page''
      else seq (kalloc s) (\<lambda>mem s.
      let s = s\<lparr>ram := memset (ram s) mem 0 PGSIZE\<rparr> in
      seq (mappages pgdir 0 PGSIZE (V2P mem) (PTE_W OR PTE_U) s) (\<lambda>_ s.
      Ret () (s\<lparr>ram := memmove (ram s) mem init sz\<rparr>))))"

text \<open>
  The loop of \<^verbatim>\<open>allocuvm\<close>; it runs only when \<^verbatim>\<open>newsz < KERNBASE\<close>, which its test repeats here, so the
  address does not wrap around. It returns \<^verbatim>\<open>Some 0\<close> when it was left because memory ran out.
\<close>

function allocuvm_loop ::
    "addr \<Rightarrow> addr \<Rightarrow> u32 \<Rightarrow> u32 \<Rightarrow> 'x kvm_scheme \<Rightarrow> (u32 option, 'x kvm_scheme) outcome" where
  "allocuvm_loop pgdir a oldsz newsz s =
     (if a < newsz \<and> newsz < KERNBASE then
        seq (kalloc s) (\<lambda>mem s.
        if mem = 0 then
          let s = cprintf ''allocuvm out of memory'' s in
          seq (deallocuvm pgdir newsz oldsz s) (\<lambda>_ s. Ret (Some 0) s)
        else let s = s\<lparr>ram := memset (ram s) mem 0 PGSIZE\<rparr> in
        seq (mappages pgdir a PGSIZE (V2P mem) (PTE_W OR PTE_U) s) (\<lambda>r s.
        if r < 0 then
          let s = cprintf ''allocuvm out of memory (2)'' s in
          seq (deallocuvm pgdir newsz oldsz s) (\<lambda>_ s.
          seq (kfree mem s) (\<lambda>_ s. Ret (Some 0) s))
        else allocuvm_loop pgdir (a + PGSIZE) oldsz newsz s))
      else Ret None s)"
  by pat_completeness auto
termination
proof (relation "measure (\<lambda>(pgdir, a, oldsz, newsz, s). 4294967296 - unat a)", goal_cases)
  case (2 pgdir a oldsz newsz s mem s1 s2 r s3)
  then have "unat a < 0x80000000"
    by (auto simp: word_less_nat_alt)
  then have "unat (a + PGSIZE) = unat a + 4096"
    using unat_add_of_nat [of a 4096] by simp
  then show ?case
    using \<open>unat a < 0x80000000\<close> by simp
qed simp

declare allocuvm_loop.simps [simp del]

definition allocuvm :: "addr \<Rightarrow> u32 \<Rightarrow> u32 \<Rightarrow> 'x kvm_scheme \<Rightarrow> (u32, 'x kvm_scheme) outcome" where
  "allocuvm pgdir oldsz newsz s =
     (if newsz \<ge> KERNBASE then Ret 0 s
      else if newsz < oldsz then Ret oldsz s
      else seq (allocuvm_loop pgdir (PGROUNDUP oldsz) oldsz newsz s) (\<lambda>e s.
           case e of Some r \<Rightarrow> Ret r s | None \<Rightarrow> Ret newsz s))"

definition clearpteu :: "addr \<Rightarrow> addr \<Rightarrow> 'x kvm_scheme \<Rightarrow> (unit, 'x kvm_scheme) outcome" where
  "clearpteu pgdir uva s =
     seq (walkpgdir pgdir uva False s) (\<lambda>pte s.
     if pte = 0 then Panic ''clearpteu''
     else Ret () (s\<lparr>ram := st32 (ram s) pte (ld32 (ram s) pte AND NOT PTE_U)\<rparr>))"

text \<open>
  \<^verbatim>\<open>copyuvm\<close>: the copy of one page is the same in its loop and after it, except that the last copy does
  not give \<open>mem\<close> back when it cannot be mapped. The result of a page is \<open>True\<close> when the code goes to
  \<^verbatim>\<open>bad\<close>.
\<close>

definition copy_page ::
    "addr \<Rightarrow> addr \<Rightarrow> addr \<Rightarrow> addr \<Rightarrow> bool \<Rightarrow> 'x kvm_scheme \<Rightarrow> (bool, 'x kvm_scheme) outcome" where
  "copy_page pgdir d src dst giveback s =
     seq (walkpgdir pgdir src False s) (\<lambda>pte s.
     if pte = 0 then Panic ''copyuvm: pte should exist''
     else if ld32 (ram s) pte AND PTE_P = 0 then Panic ''copyuvm: page not present''
     else let pa = PTE_ADDR (ld32 (ram s) pte); flags = PTE_FLAGS (ld32 (ram s) pte) in
     seq (kalloc s) (\<lambda>mem s.
     if mem = 0 then Ret True s
     else let s = s\<lparr>ram := memmove (ram s) mem (P2V pa) PGSIZE\<rparr> in
     seq (mappages d dst PGSIZE (V2P mem) flags s) (\<lambda>r s.
     if r < 0 then seq (whenb giveback (kfree mem) s) (\<lambda>_ s. Ret True s)
     else Ret False s)))"

function copyuvm_loop ::
    "addr \<Rightarrow> addr \<Rightarrow> u32 \<Rightarrow> u32 \<Rightarrow> 'x kvm_scheme \<Rightarrow> (bool, 'x kvm_scheme) outcome" where
  "copyuvm_loop pgdir d i sz s =
     (if i < sz then
        seq (copy_page pgdir d i i True s) (\<lambda>bad s.
        if bad then Ret True s
        else if i + PGSIZE \<le> i then Diverge
        else copyuvm_loop pgdir d (i + PGSIZE) sz s)
      else Ret False s)"
  by pat_completeness auto
termination
  by (relation "measure (\<lambda>(pgdir, d, i, sz, s). 4294967296 - unat i)")
    (auto simp: word_le_nat_alt not_le intro!: diff_less_mono2 unat_u32)

declare copyuvm_loop.simps [simp del]

definition copyuvm :: "addr \<Rightarrow> u32 \<Rightarrow> int \<Rightarrow> 'x kvm_scheme \<Rightarrow> (addr, 'x kvm_scheme) outcome" where
  "copyuvm pgdir sz slindex s =
     seq (setupkvm s) (\<lambda>d s.
     if d = 0 then Ret 0 s
     else seq (copyuvm_loop pgdir d 0 sz s) (\<lambda>bad s.
          if bad then seq (freevm d s) (\<lambda>_ s. Ret 0 s)
          else seq (copy_page pgdir d (STACKBOTTOM - word_of_int slindex * 2 * PGSIZE - PGSIZE)
                 (STACKBOTTOM - PGSIZE) False s) (\<lambda>bad s.
               if bad then seq (freevm d s) (\<lambda>_ s. Ret 0 s) else Ret d s)))"

text \<open>\<^verbatim>\<open>uva2ka\<close> follows the entry it finds without a test, so a missing page table is a null access.\<close>

definition uva2ka :: "addr \<Rightarrow> addr \<Rightarrow> 'x kvm_scheme \<Rightarrow> (addr, 'x kvm_scheme) outcome" where
  "uva2ka pgdir uva s =
     seq (walkpgdir pgdir uva False s) (\<lambda>pte s.
     if pte = 0 then Fault ''uva2ka: null pte''
     else if ld32 (ram s) pte AND PTE_P = 0 then Ret 0 s
     else if ld32 (ram s) pte AND PTE_U = 0 then Ret 0 s
     else Ret (P2V (PTE_ADDR (ld32 (ram s) pte))) s)"

text \<open>How much \<^verbatim>\<open>copyout\<close> copies into the page of \<open>va\<close>.\<close>

definition copyout_n :: "addr \<Rightarrow> u32 \<Rightarrow> u32" where
  "copyout_n va len = (let n = PGSIZE - (va - PGROUNDDOWN va) in if n > len then len else n)"

lemma va_offset: "unat (va - PGROUNDDOWN va) = unat va mod 4096"
proof -
  have "PGROUNDDOWN va \<le> va"
    by (rule PGROUNDDOWN_le)
  then have "unat (va - PGROUNDDOWN va) = unat va - unat (PGROUNDDOWN va)"
    by (simp add: unat_sub word_le_nat_alt)
  then show ?thesis
    by (simp add: unat_PGROUNDDOWN minus_mult_div_eq_mod)
qed

lemma unat_copyout_n:
  "unat (copyout_n va len) = min (unat len) (4096 - unat va mod 4096)"
proof -
  have m: "unat va mod 4096 < 4096"
    by simp
  have "unat (PGSIZE - (va - PGROUNDDOWN va)) = 4096 - unat va mod 4096"
    using va_offset [of va] m by (subst unat_sub) (simp_all add: word_le_nat_alt)
  then show ?thesis
    by (simp add: copyout_n_def Let_def word_less_nat_alt min_def)
qed

function copyout :: "addr \<Rightarrow> addr \<Rightarrow> addr \<Rightarrow> u32 \<Rightarrow> 'x kvm_scheme \<Rightarrow> (int, 'x kvm_scheme) outcome" where
  "copyout pgdir va buf len s =
     (if len > 0 then
        let va0 = PGROUNDDOWN va in
        seq (uva2ka pgdir va0 s) (\<lambda>pa0 s.
        if pa0 = 0 then Ret (-1) s
        else let n = copyout_n va len;
                 s = s\<lparr>ram := memmove (ram s) (pa0 + (va - va0)) buf n\<rparr> in
             copyout pgdir (va0 + PGSIZE) (buf + n) (len - n) s)
      else Ret 0 s)"
  by pat_completeness auto
termination
proof (relation "measure (\<lambda>(pgdir, va, buf, len, s). unat len)", goal_cases)
  case (2 pgdir va buf len s va0 pa0 s1 n s2)
  have "unat va mod 4096 < 4096"
    by simp
  then have "0 < unat n" "unat n \<le> unat len"
    using 2 unat_copyout_n [of va len] by (auto simp: word_less_nat_alt)
  then show ?case
    by (simp add: unat_sub word_le_nat_alt)
qed simp

declare copyout.simps [simp del]

end
