(* ===== verification/Sched.thy ===== *)
theory Sched
  imports Vm
begin

section \<open>Processes and scheduling (proc.h, and the scheduling half of proc.c)\<close>

text \<open>
  The process table, the stack lists of threads and the semaphores as proc.h and proc.c declare them,
  with the operations that give the processor up and take it back: \<^verbatim>\<open>sched\<close>, \<^verbatim>\<open>yield\<close>, \<^verbatim>\<open>sleep\<close>,
  \<^verbatim>\<open>wakeup\<close>, \<^verbatim>\<open>kill\<close>, \<^verbatim>\<open>scheduler\<close>. A call of \<^verbatim>\<open>swtch\<close> ends the outcome with \<open>Switch\<close>; what the code does
  when it is resumed is a function of its own (\<open>sched_resume\<close>, \<open>sleep_resume\<close>, \<open>yield_resume\<close>). Processes
  are named by their index in \<^verbatim>\<open>ptable.proc\<close>.
\<close>

subsection \<open>State\<close>

datatype procstate = UNUSED | EMBRYO | SLEEPING | RUNNABLE | RUNNING | ZOMBIE | SEM_SLEEPING

record psl_t =
  stackz :: "nat \<Rightarrow> int"
  thread_count :: int
  sl_state :: procstate

record proc =
  sz :: u32
  pgdir :: addr
  kstack :: addr
  pstate :: procstate
  pid :: int
  parent :: "nat option"
  tf :: addr
  context_p :: addr
  pchan :: "chan option"
  killed :: bool
  ofile :: "nat \<Rightarrow> nat option"
  cwd :: "nat option"
  pname :: string
  tid :: int
  pthread :: "nat option"
  psl :: "nat option"
  slindex :: int
  startTime :: u32
  waitTime :: u32
  lastWait :: u32

record queue =
  que_q :: "nat \<Rightarrow> nat option"
  que_front :: int
  que_back :: int
  que_count :: int

record semaphore =
  sem_queue :: queue
  sem_count :: int
  sem_state :: procstate

text \<open>
  \<open>kstk_intena p\<close> is the local variable \<^verbatim>\<open>intena\<close> of the call of \<^verbatim>\<open>sched\<close> that process \<open>p\<close> is in, kept on
  its kernel stack; \<open>forkret_addr\<close> and \<open>trapret_addr\<close> are the addresses of those routines, and
  \<open>initcode\<close> and \<open>initcode_size\<close> the linker's symbols for the first user program.
\<close>

record kproc = kvm +
  procs :: "nat \<Rightarrow> proc"
  psls :: "nat \<Rightarrow> psl_t"
  sems :: "nat \<Rightarrow> semaphore"
  initproc :: "nat option"
  nextpid :: int
  ticks :: u32
  forkret_first :: bool
  kstk_intena :: "nat \<Rightarrow> bool"
  forkret_addr :: addr
  trapret_addr :: addr
  initcode :: addr
  initcode_size :: u32

lemma kproc_mach [simp]:
  "mach (s\<lparr>procs := x0\<rparr>) = mach s" "mach (s\<lparr>psls := x1\<rparr>) = mach s"
  "mach (s\<lparr>sems := x2\<rparr>) = mach s" "mach (s\<lparr>initproc := x3\<rparr>) = mach s"
  "mach (s\<lparr>nextpid := x4\<rparr>) = mach s" "mach (s\<lparr>ticks := x5\<rparr>) = mach s"
  "mach (s\<lparr>forkret_first := x6\<rparr>) = mach s"
  "mach (s\<lparr>kstk_intena := x7\<rparr>) = mach s"
  by (rule machine.equality; simp)+

lemma kproc_set_mach [simp]:
  "procs (set_mach m s) = procs s" "psls (set_mach m s) = psls s" "sems (set_mach m s) = sems s"
  "initproc (set_mach m s) = initproc s" "nextpid (set_mach m s) = nextpid s"
  "ticks (set_mach m s) = ticks s" "forkret_first (set_mach m s) = forkret_first s"
  "kstk_intena (set_mach m s) = kstk_intena s" "forkret_addr (set_mach m s) = forkret_addr s"
  "trapret_addr (set_mach m s) = trapret_addr s" "initcode (set_mach m s) = initcode s"
  "initcode_size (set_mach m s) = initcode_size s"
  "set_mach m (s\<lparr>procs := x0\<rparr>) = (set_mach m s)\<lparr>procs := x0\<rparr>"
  "set_mach m (s\<lparr>psls := x1\<rparr>) = (set_mach m s)\<lparr>psls := x1\<rparr>"
  "set_mach m (s\<lparr>sems := x2\<rparr>) = (set_mach m s)\<lparr>sems := x2\<rparr>"
  "set_mach m (s\<lparr>initproc := x3\<rparr>) = (set_mach m s)\<lparr>initproc := x3\<rparr>"
  "set_mach m (s\<lparr>nextpid := x4\<rparr>) = (set_mach m s)\<lparr>nextpid := x4\<rparr>"
  "set_mach m (s\<lparr>ticks := x5\<rparr>) = (set_mach m s)\<lparr>ticks := x5\<rparr>"
  "set_mach m (s\<lparr>forkret_first := x6\<rparr>) = (set_mach m s)\<lparr>forkret_first := x6\<rparr>"
  "set_mach m (s\<lparr>kstk_intena := x7\<rparr>) = (set_mach m s)\<lparr>kstk_intena := x7\<rparr>"
  by (cases s; cases m; simp add: set_mach_def machine.defs)+

definition upd_proc :: "nat \<Rightarrow> (proc \<Rightarrow> proc) \<Rightarrow> 'x kproc_scheme \<Rightarrow> 'x kproc_scheme" where
  "upd_proc p f s = s\<lparr>procs := (procs s)(p := f (procs s p))\<rparr>"

definition upd_psl :: "nat \<Rightarrow> (psl_t \<Rightarrow> psl_t) \<Rightarrow> 'x kproc_scheme \<Rightarrow> 'x kproc_scheme" where
  "upd_psl i f s = s\<lparr>psls := (psls s)(i := f (psls s i))\<rparr>"

definition upd_sem :: "nat \<Rightarrow> (semaphore \<Rightarrow> semaphore) \<Rightarrow> 'x kproc_scheme \<Rightarrow> 'x kproc_scheme" where
  "upd_sem i f s = s\<lparr>sems := (sems s)(i := f (sems s i))\<rparr>"

text \<open>A pointer that the code follows without a test: a null one is an undefined access.\<close>

definition deref :: "string \<Rightarrow> 'a option \<Rightarrow> 's \<Rightarrow> ('a, 's) outcome" where
  "deref what p s = (case p of None \<Rightarrow> Fault what | Some a \<Rightarrow> Ret a s)"

lemma deref_simps [simp]: "deref w (Some a) s = Ret a s" "deref w None s = Fault w"
  by (simp_all add: deref_def)

subsection \<open>The current process\<close>

definition pinit :: "'x kproc_scheme \<Rightarrow> 'x kproc_scheme" where
  "pinit s = initlock Lk_semtable ''semtable'' (initlock Lk_sltable ''sltable'' (initlock Lk_ptable ''ptable'' s))"

definition myproc :: "'x kproc_scheme \<Rightarrow> (nat option, 'x kproc_scheme) outcome" where
  "myproc s =
     seq (pushcli s) (\<lambda>_ s.
     seq (mycpu s) (\<lambda>c s.
     let p = cpu_proc (cpus s c) in
     seq (popcli s) (\<lambda>_ s. Ret p s)))"

text \<open>\<^verbatim>\<open>myproc()->...\<close>: the current process where the code follows the pointer.\<close>

definition curproc :: "'x kproc_scheme \<Rightarrow> (nat, 'x kproc_scheme) outcome" where
  "curproc s = seq (myproc s) (\<lambda>p s. deref ''myproc()'' p s)"

definition init_proc_metrics :: "nat \<Rightarrow> 'x kproc_scheme \<Rightarrow> 'x kproc_scheme" where
  "init_proc_metrics p s =
     upd_proc p (\<lambda>q. q\<lparr>startTime := ticks s, waitTime := 0, lastWait := 0\<rparr>) s"

subsection \<open>Switching address spaces (vm.c)\<close>

definition switchuvm :: "nat option \<Rightarrow> 'x kproc_scheme \<Rightarrow> (unit, 'x kproc_scheme) outcome" where
  "switchuvm po s =
     (case po of
        None \<Rightarrow> Panic ''switchuvm: no process''
      | Some p \<Rightarrow>
          if kstack (procs s p) = 0 then Panic ''switchuvm: no kstack''
          else if pgdir (procs s p) = 0 then Panic ''switchuvm: no pgdir''
          else
            seq (pushcli s) (\<lambda>_ s.
            seq (mycpu s) (\<lambda>c s.
            let s = upd_cpu c (\<lambda>q. q\<lparr>gdt := (gdt q)(5 := SEG16 9 (ts_addr s c) 103 0)\<rparr>) s;
                s = upd_cpu c (\<lambda>q. q\<lparr>gdt := (gdt q)(5 := (gdt q 5)\<lparr>sd_s := 0\<rparr>)\<rparr>) s;
                s = upd_cpu c (\<lambda>q. q\<lparr>ts := (ts q)\<lparr>ss0 := 16\<rparr>\<rparr>) s;
                s = upd_cpu c (\<lambda>q. q\<lparr>ts := (ts q)\<lparr>esp0 := kstack (procs s p) + KSTACKSIZE\<rparr>\<rparr>) s;
                s = upd_cpu c (\<lambda>q. q\<lparr>ts := (ts q)\<lparr>iomb := 0xFFFF\<rparr>\<rparr>) s;
                s = s\<lparr>tr := 40\<rparr>;
                s = s\<lparr>cr3 := V2P (pgdir (procs s p))\<rparr>
            in popcli s)))"

subsection \<open>Giving the processor up\<close>

definition sched :: "'x kproc_scheme \<Rightarrow> (unit, 'x kproc_scheme) outcome" where
  "sched s =
     seq (myproc s) (\<lambda>po s.
     seq (holding Lk_ptable s) (\<lambda>h s.
     if \<not> h then Panic ''sched ptable.lock''
     else seq (mycpu s) (\<lambda>c s.
     if ncli (cpus s c) \<noteq> 1 then Panic ''sched locks''
     else seq (deref ''sched: p'' po s) (\<lambda>p s.
     if pstate (procs s p) = RUNNING then Panic ''sched running''
     else if fl_if s then Panic ''sched interruptible''
     else seq (mycpu s) (\<lambda>c s.
          Switch (s\<lparr>kstk_intena := (kstk_intena s)(p := intena (cpus s c))\<rparr>))))))"

definition sched_resume :: "nat \<Rightarrow> 'x kproc_scheme \<Rightarrow> (unit, 'x kproc_scheme) outcome" where
  "sched_resume p s =
     seq (mycpu s) (\<lambda>c s. Ret () (upd_cpu c (\<lambda>q. q\<lparr>intena := kstk_intena s p\<rparr>) s))"

definition yield :: "'x kproc_scheme \<Rightarrow> (unit, 'x kproc_scheme) outcome" where
  "yield s =
     seq (myproc s) (\<lambda>po s.
     seq (case po of
            None \<Rightarrow> Ret () s
          | Some _ \<Rightarrow> seq (curproc s) (\<lambda>p s. Ret () (upd_proc p (\<lambda>q. q\<lparr>lastWait := ticks s\<rparr>) s))) (\<lambda>_ s.
     seq (acquire Lk_ptable s) (\<lambda>_ s.
     seq (curproc s) (\<lambda>p s.
     sched (upd_proc p (\<lambda>q. q\<lparr>pstate := RUNNABLE\<rparr>) s)))))"

definition yield_resume :: "nat \<Rightarrow> 'x kproc_scheme \<Rightarrow> (unit, 'x kproc_scheme) outcome" where
  "yield_resume p s = seq (sched_resume p s) (\<lambda>_ s. release Lk_ptable s)"

definition sleep :: "chan option \<Rightarrow> lockid option \<Rightarrow> 'x kproc_scheme \<Rightarrow> (unit, 'x kproc_scheme) outcome" where
  "sleep ch lk s =
     seq (myproc s) (\<lambda>po s.
     case po of
       None \<Rightarrow> Panic ''sleep''
     | Some p \<Rightarrow>
         (case lk of
            None \<Rightarrow> Panic ''sleep without lk''
          | Some l \<Rightarrow>
              seq (if l \<noteq> Lk_ptable
                   then seq (acquire Lk_ptable s) (\<lambda>_ s. release l s)
                   else Ret () s) (\<lambda>_ s.
              let s = upd_proc p (\<lambda>q. q\<lparr>pchan := ch\<rparr>) s;
                  s = upd_proc p (\<lambda>q. q\<lparr>pstate := SLEEPING\<rparr>) s
              in sched s)))"

definition sleep_resume :: "nat \<Rightarrow> lockid \<Rightarrow> 'x kproc_scheme \<Rightarrow> (unit, 'x kproc_scheme) outcome" where
  "sleep_resume p l s =
     seq (sched_resume p s) (\<lambda>_ s.
     let s = upd_proc p (\<lambda>q. q\<lparr>pchan := None\<rparr>) s in
     if l \<noteq> Lk_ptable then seq (release Lk_ptable s) (\<lambda>_ s. acquire l s) else Ret () s)"

subsection \<open>Waking processes\<close>

definition wake_one :: "chan option \<Rightarrow> proc \<Rightarrow> proc" where
  "wake_one ch q = (if pstate q = SLEEPING \<and> pchan q = ch then q\<lparr>pstate := RUNNABLE\<rparr> else q)"

definition wakeup1 :: "chan option \<Rightarrow> 'x kproc_scheme \<Rightarrow> 'x kproc_scheme" where
  "wakeup1 ch s = fold (\<lambda>p s. upd_proc p (wake_one ch) s) [0..<NPROC] s"

definition wakeup :: "chan option \<Rightarrow> 'x kproc_scheme \<Rightarrow> (unit, 'x kproc_scheme) outcome" where
  "wakeup ch s = seq (acquire Lk_ptable s) (\<lambda>_ s. release Lk_ptable (wakeup1 ch s))"

definition kill :: "int \<Rightarrow> 'x kproc_scheme \<Rightarrow> (int, 'x kproc_scheme) outcome" where
  "kill n s =
     seq (acquire Lk_ptable s) (\<lambda>_ s.
     case find (\<lambda>p. pid (procs s p) = n) [0..<NPROC] of
       Some p \<Rightarrow>
         let s = upd_proc p (\<lambda>q. q\<lparr>killed := True\<rparr>) s;
             s = upd_proc p (\<lambda>q. if pstate q = SLEEPING then q\<lparr>pstate := RUNNABLE\<rparr> else q) s
         in seq (release Lk_ptable s) (\<lambda>_ s. Ret 0 s)
     | None \<Rightarrow> seq (release Lk_ptable s) (\<lambda>_ s. Ret (-1) s))"

subsection \<open>The scheduler\<close>

text \<open>
  \<^verbatim>\<open>scheduler\<close> runs one pass over the table under \<^verbatim>\<open>ptable.lock\<close>: \<open>sched_enter\<close> starts a pass,
  \<open>sched_dispatch\<close> is the body of the loop up to its \<^verbatim>\<open>swtch\<close> for a runnable process, \<open>sched_back\<close> the
  rest of the body when that process has switched back, and \<open>sched_leave\<close> ends the pass.
\<close>

definition sched_start :: "'x kproc_scheme \<Rightarrow> (unit, 'x kproc_scheme) outcome" where
  "sched_start s = seq (mycpu s) (\<lambda>c s. Ret () (upd_cpu c (\<lambda>q. q\<lparr>cpu_proc := None\<rparr>) s))"

definition sched_enter :: "'x kproc_scheme \<Rightarrow> (unit, 'x kproc_scheme) outcome" where
  "sched_enter s = (let s = s\<lparr>fl_if := True\<rparr> in acquire Lk_ptable s)"

definition charge_wait :: "u32 \<Rightarrow> proc \<Rightarrow> proc" where
  "charge_wait now q =
     (if lastWait q \<noteq> 0
      then let waitDiff = now - lastWait q in q\<lparr>waitTime := waitTime q + waitDiff, lastWait := now\<rparr>
      else q)"

definition sched_dispatch :: "nat \<Rightarrow> nat \<Rightarrow> 'x kproc_scheme \<Rightarrow> (unit, 'x kproc_scheme) outcome" where
  "sched_dispatch c p s =
     (let s = upd_proc p (charge_wait (ticks s)) s;
          s = upd_cpu c (\<lambda>q. q\<lparr>cpu_proc := Some p\<rparr>) s in
      seq (switchuvm (Some p) s) (\<lambda>_ s.
      Ret () (upd_proc p (\<lambda>q. q\<lparr>pstate := RUNNING\<rparr>) s)))"

definition sched_back :: "nat \<Rightarrow> 'x kproc_scheme \<Rightarrow> 'x kproc_scheme" where
  "sched_back c s = (let s = switchkvm s in upd_cpu c (\<lambda>q. q\<lparr>cpu_proc := None\<rparr>) s)"

definition sched_leave :: "'x kproc_scheme \<Rightarrow> (unit, 'x kproc_scheme) outcome" where
  "sched_leave s = release Lk_ptable s"

text \<open>
  One pass of the inner loop; \<open>run\<close> is what happens between the \<^verbatim>\<open>swtch\<close> to a process and its switch
  back. The second component of the result lists the processes dispatched.
\<close>

fun sched_pass ::
    "(nat \<Rightarrow> 'x kproc_scheme \<Rightarrow> 'x kproc_scheme) \<Rightarrow> nat \<Rightarrow> nat list \<Rightarrow> 'x kproc_scheme \<Rightarrow>
     (nat list, 'x kproc_scheme) outcome" where
  "sched_pass run c [] s = Ret [] s"
| "sched_pass run c (p # ps) s =
     (if pstate (procs s p) \<noteq> RUNNABLE then sched_pass run c ps s
      else seq (sched_dispatch c p s) (\<lambda>_ s.
           let s = sched_back c (run p s) in
           seq (sched_pass run c ps s) (\<lambda>ds s. Ret (p # ds) s)))"

text \<open>\<open>forkret\<close> up to the first-time initialisation of the file system, which follows with that part.\<close>

definition forkret_enter :: "'x kproc_scheme \<Rightarrow> (bool, 'x kproc_scheme) outcome" where
  "forkret_enter s =
     seq (release Lk_ptable s) (\<lambda>_ s.
     let first = forkret_first s in Ret first (s\<lparr>forkret_first := False\<rparr>))"

subsection \<open>Statistics\<close>

definition retrieve_process_statistics ::
    "'x kproc_scheme \<Rightarrow> ((u32 \<times> u32 \<times> u32) option, 'x kproc_scheme) outcome" where
  "retrieve_process_statistics s =
     seq (curproc s) (\<lambda>p s.
     let endTime = ticks s in
     if startTime (procs s p) > endTime \<or> startTime (procs s p) = 0 then Ret None s
     else let elapsed = endTime - startTime (procs s p) in
          Ret (Some (elapsed, elapsed - waitTime (procs s p), waitTime (procs s p))) s)"

subsection \<open>Behaviour in a steady state\<close>

lemma upd_proc_sel [simp]:
  "mach (upd_proc p f s) = mach s" "psls (upd_proc p f s) = psls s" "sems (upd_proc p f s) = sems s"
  "procs (upd_proc p f s) = (procs s)(p := f (procs s p))" "ram (upd_proc p f s) = ram s"
  "fl_if (upd_proc p f s) = fl_if s" "cpus (upd_proc p f s) = cpus s" "ticks (upd_proc p f s) = ticks s"
  "kstk_intena (upd_proc p f s) = kstk_intena s" "nextpid (upd_proc p f s) = nextpid s"
  "initproc (upd_proc p f s) = initproc s" "cpu_index (upd_proc p f s) = cpu_index s"
  by (simp_all add: upd_proc_def cpu_index_def)

lemma upd_proc_cr3 [simp]: "cr3 (upd_proc p f s) = cr3 s"
  by (simp add: upd_proc_def)

lemma upd_cpu_sel [simp]:
  "procs (upd_cpu c g s) = procs s" "psls (upd_cpu c g s) = psls s" "sems (upd_cpu c g s) = sems s"
  "cpus (upd_cpu c g s) = (cpus s)(c := g (cpus s c))"
  by (simp_all add: upd_cpu_def)

lemma set_mach_upd_proc [simp]: "set_mach m (upd_proc p f s) = upd_proc p f (set_mach m s)"
  by (simp add: upd_proc_def)

lemma upd_proc_upd_proc [simp]: "upd_proc p f (upd_proc p g s) = upd_proc p (\<lambda>q. f (g q)) s"
  by (simp add: upd_proc_def)

lemma myproc_steady:
  assumes "steady (mach s)"
  shows "myproc s = Ret (running (mach s)) s"
proof -
  let ?t = "set_mach (nest (mach s)) s"
  have "mycpu ?t = Ret (this_cpu (mach s)) ?t"
    using assms mycpu_steady [of ?t] by simp
  moreover have "popcli ?t = Ret () s"
    using popcli_pushcli [of ?t "mach s"] assms by simp
  ultimately show ?thesis
    using assms by (simp add: myproc_def pushcli_steady Let_def running_def)
qed

lemma curproc_steady:
  "steady (mach s) \<Longrightarrow> running (mach s) = Some p \<Longrightarrow> curproc s = Ret p s"
  by (simp add: curproc_def myproc_steady)

text \<open>
  The processor is between the outermost sections of process \<open>p\<close>: nothing is held or disabled.
\<close>

definition runs :: "machine \<Rightarrow> nat \<Rightarrow> bool" where
  "runs m p \<longleftrightarrow> steady m \<and> ncli (cpus m (this_cpu m)) = 0 \<and> running m = Some p \<and> lock_free Lk_ptable m"

lemma runs_steady: "runs m p \<Longrightarrow> steady m" "runs m p \<Longrightarrow> running m = Some p"
    "runs m p \<Longrightarrow> lock_free Lk_ptable m"
  by (simp_all add: runs_def)

lemma sched_switch:
  assumes "mach s = enter Lk_ptable m" "runs m p" "pstate (procs s p) \<noteq> RUNNING"
  shows "sched s = Switch (s\<lparr>kstk_intena := (kstk_intena s)(p := fl_if m)\<rparr>)"
proof -
  have st: "steady (mach s)" "running (mach s) = Some p" "this_cpu (mach s) = this_cpu m"
    using assms by (simp_all add: runs_def)
  have f: "\<not> fl_if s"
    using mach_eqD(2) [OF assms(1)] by simp
  have n: "ncli (cpus s (this_cpu m)) = 1" "intena (cpus s (this_cpu m)) = fl_if m"
    using assms(2) mach_eqD(1) [OF assms(1)] by (simp_all add: runs_def enter_def steady_alt)
  show ?thesis
    using st f n assms
    by (simp add: sched_def myproc_steady holding_steady mycpu_steady)
qed

lemma sched_resume_eq:
  assumes "mach u = enter Lk_ptable m" "steady m"
  shows "sched_resume p u = Ret () (upd_cpu (this_cpu m) (\<lambda>q. q\<lparr>intena := kstk_intena u p\<rparr>) u)"
  using assms mach_eqD(2) [OF assms(1)] by (simp add: sched_resume_def mycpu_steady)

text \<open>The machine once a thread that had interrupts \<open>b\<close> has been resumed on it.\<close>

definition resumed :: "bool \<Rightarrow> machine \<Rightarrow> machine" where
  "resumed b m =
     m\<lparr>fl_if := b, cpus := (cpus m)(this_cpu m := (cpus m (this_cpu m))\<lparr>intena := b\<rparr>)\<rparr>"

lemma resumed_simps [simp]:
  "this_cpu (resumed b m) = this_cpu m" "cpu_index (resumed b m) = cpu_index m"
  "running (resumed b m) = running m" "lock_free l (resumed b m) = lock_free l m"
  "ncli (cpus (resumed b m) (this_cpu m)) = ncli (cpus m (this_cpu m))"
  "intena (cpus (resumed b m) (this_cpu m)) = b"
  "fl_if (resumed b m) = b" "spinlocks (resumed b m) = spinlocks m"
proof -
  show c: "cpu_index (resumed b m) = cpu_index m"
    by (rule cpu_index_cong) (simp_all add: resumed_def)
  then show "this_cpu (resumed b m) = this_cpu m"
    by (simp add: this_cpu_def)
  then show "running (resumed b m) = running m"
    by (simp add: running_def) (simp add: resumed_def)
qed (simp_all add: resumed_def lock_free_def)

lemma runs_resumed: "runs m p \<Longrightarrow> runs (resumed b m) p"
  by (auto simp: runs_def steady_alt)

lemma enter_resumed:
  assumes "mach u = enter l m" "steady m" "ncli (cpus m (this_cpu m)) = 0"
  shows "mach (upd_cpu (this_cpu m) (\<lambda>q. q\<lparr>intena := b\<rparr>) u) = enter l (resumed b m)"
proof -
  have u: "cpus u = cpus (enter l m)" "spinlocks u = spinlocks (enter l m)" "fl_if u = fl_if (enter l m)"
      "ncpu u = ncpu (enter l m)" "lapic_id u = lapic_id (enter l m)" "cr3 u = cr3 (enter l m)"
      "tr u = tr (enter l m)"
    using mach_sel [of u] assms(1) by metis+
  have c: "q\<lparr>ncli := n, intena := b\<rparr> = q\<lparr>intena := b, ncli := n\<rparr>" for q :: cpu and n
    by (rule cpu.equality) simp_all
  show ?thesis
    by (rule machine.equality) (simp_all add: u upd_cpu_def enter_def, simp_all add: resumed_def c)
qed

text \<open>
  \<open>sleep\<close> called with \<open>l\<close> held: the process ends up asleep on the channel, \<open>l\<close> has been given back, and
  \<^verbatim>\<open>ptable.lock\<close> is the only lock held when the scheduler takes over.
\<close>

definition slept :: "nat \<Rightarrow> chan option \<Rightarrow> machine \<Rightarrow> 'x kproc_scheme \<Rightarrow> 'x kproc_scheme" where
  "slept p ch m s =
     (upd_proc p (\<lambda>q. q\<lparr>pchan := ch, pstate := SLEEPING\<rparr>) (set_mach (enter Lk_ptable m) s))
       \<lparr>kstk_intena := (kstk_intena s)(p := fl_if m)\<rparr>"

lemma sleep_switch:
  assumes "mach s = enter l m" "runs m p" "lock_free l m" "l \<noteq> Lk_ptable"
  shows "sleep ch (Some l) s = Switch (slept p ch m s)"
proof -
  let ?t = "set_mach (enter Lk_ptable (enter l m)) s"
  have a: "acquire Lk_ptable s = Ret () ?t"
    using assms runs_steady [OF assms(2)] by (simp add: acquire_steady)
  have r: "release l ?t = Ret () (set_mach (enter Lk_ptable m) s)"
    using release_outer [of ?t Lk_ptable l m] assms runs_steady [OF assms(2)] by simp
  let ?u = "upd_proc p (\<lambda>q. q\<lparr>pchan := ch, pstate := SLEEPING\<rparr>) (set_mach (enter Lk_ptable m) s)"
  have "sched ?u = Switch (?u\<lparr>kstk_intena := (kstk_intena ?u)(p := fl_if m)\<rparr>)"
    using assms(2) by (intro sched_switch) simp_all
  then show ?thesis
    using a r assms runs_steady [OF assms(2)]
    by (simp add: sleep_def myproc_steady slept_def)
qed

lemma sleep_resume_eq:
  assumes "mach u = enter Lk_ptable m" "runs m p" "lock_free l m" "l \<noteq> Lk_ptable"
  shows "sleep_resume p l u =
    Ret () (upd_proc p (\<lambda>q. q\<lparr>pchan := None\<rparr>) (set_mach (enter l (resumed (kstk_intena u p) m)) u))"
proof -
  let ?b = "kstk_intena u p"
  let ?t = "upd_cpu (this_cpu m) (\<lambda>q. q\<lparr>intena := ?b\<rparr>) u"
  have m: "mach ?t = enter Lk_ptable (resumed ?b m)"
    using assms by (intro enter_resumed) (simp_all add: runs_def)
  have r: "runs (resumed ?b m) p"
    using assms(2) by (rule runs_resumed)
  have t: "?t = set_mach (enter Lk_ptable (resumed ?b m)) u"
    unfolding m [symmetric] by (rule machine.equality) (simp_all add: upd_cpu_def)
  show ?thesis
    using assms runs_steady [OF assms(2)] runs_steady [OF r]
    by (simp add: sleep_resume_def sched_resume_eq t release_section acquire_steady)
qed

text \<open>\<open>wakeup1\<close> as one change of the whole table.\<close>

lemma wakeup1_upto:
  "fold (\<lambda>p s. upd_proc p (wake_one ch) s) [0..<n] s =
     s\<lparr>procs := (\<lambda>p. if p < n then wake_one ch (procs s p) else procs s p)\<rparr>"
  by (induction n) (auto simp: upd_proc_def fun_eq_iff less_Suc_eq)

lemma wakeup1_eq:
  "wakeup1 ch s = s\<lparr>procs := (\<lambda>p. if p < NPROC then wake_one ch (procs s p) else procs s p)\<rparr>"
  unfolding wakeup1_def by (rule wakeup1_upto)

lemma wakeup_eq:
  assumes "steady (mach s)" "lock_free Lk_ptable (mach s)"
  shows "wakeup ch s = Ret () (wakeup1 ch s)"
  using assms by (simp add: wakeup_def section_simps wakeup1_eq cong: if_cong)

subsection \<open>A pass of the scheduler\<close>

text \<open>Two machines that differ at most in segment and paging registers and in the current process.\<close>

definition like :: "machine \<Rightarrow> machine \<Rightarrow> bool" where
  "like m' m \<longleftrightarrow>
     cpu_index m' = cpu_index m \<and> fl_if m' = fl_if m \<and> spinlocks m' = spinlocks m
     \<and> (\<forall>c. ncli (cpus m' c) = ncli (cpus m c) \<and> intena (cpus m' c) = intena (cpus m c))"

lemma like_refl [simp]: "like m m"
  by (simp add: like_def)

lemma like_trans: "like m'' m' \<Longrightarrow> like m' m \<Longrightarrow> like m'' m"
  by (simp add: like_def)

lemma like_this_cpu: "like m' m \<Longrightarrow> this_cpu m' = this_cpu m"
  by (simp add: like_def this_cpu_def)

lemma like_steady: "like m' m \<Longrightarrow> steady m' = steady m"
  using like_this_cpu [of m' m] by (simp add: like_def steady_alt)

lemma like_upd_cpu:
  assumes "\<And>q. apicid (f q) = apicid q" "\<And>q. ncli (f q) = ncli q" "\<And>q. intena (f q) = intena q"
  shows "like (mach (upd_cpu c f s)) (mach s)"
proof -
  have "cpu_index (upd_cpu c f s) = cpu_index s"
    using assms by (intro cpu_index_cong) (auto simp: upd_cpu_def)
  then show ?thesis
    using assms by (auto simp: like_def upd_cpu_def)
qed

lemma switchuvm_returns:
  assumes "steady (mach s)" "kstack (procs s p) \<noteq> 0" "pgdir (procs s p) \<noteq> 0"
  shows "returns (switchuvm (Some p) s)
    (\<lambda>_ t. procs t = procs s \<and> like (mach t) (mach s) \<and> cr3 t = V2P (pgdir (procs s p))
       \<and> esp0 (ts (cpus t (this_cpu (mach s)))) = kstack (procs s p) + KSTACKSIZE
       \<and> cpu_proc (cpus t (this_cpu (mach s))) = cpu_proc (cpus s (this_cpu (mach s))))"
proof -
  let ?c = "this_cpu (mach s)" and ?s = "set_mach (nest (mach s)) s"
  define f where "f q = q\<lparr>gdt := (gdt q)(5 := (SEG16 9 (ts_addr s ?c) 103 0)\<lparr>sd_s := 0\<rparr>),
    ts := (ts q)\<lparr>ss0 := 16, esp0 := kstack (procs s p) + KSTACKSIZE, iomb := 0xFFFF\<rparr>\<rparr>" for q :: cpu
  define t where "t = (upd_cpu ?c f ?s)\<lparr>tr := 40, cr3 := V2P (pgdir (procs s p))\<rparr>"
  have "cpu_index t = cpu_index s"
    by (rule cpu_index_cong) (auto simp: t_def f_def upd_cpu_def)
  then have idx: "cpu_index t = Some ?c"
    using steady_cpu [OF assms(1)] by simp
  then have "this_cpu (mach t) = ?c"
    by (simp add: this_cpu_def)
  moreover have "ncli (cpus t ?c) = ncli (cpus s ?c) + 1" "intena (cpus t ?c) = intena (cpus s ?c)"
    by (simp_all add: t_def f_def upd_cpu_def)
  ultimately have pop: "popcli t = Ret () (set_mach (unnest (mach t)) t)"
    using idx assms(1) by (intro popcli_nested) (simp_all add: steady_alt, simp add: t_def upd_cpu_def)
  have sw: "switchuvm (Some p) s = popcli t"
    using assms mycpu_steady [of ?s]
    by (simp add: switchuvm_def pushcli_steady Let_def upd_cpu_def t_def f_def)
  have sel: "cpus t = (cpus ?s)(?c := f (cpus ?s ?c))" "spinlocks t = spinlocks s"
      "cr3 t = V2P (pgdir (procs s p))" "procs t = procs s"
    by (simp_all add: t_def upd_cpu_def)
  have "like (unnest (mach t)) (mach s)"
    using idx assms(1) \<open>this_cpu (mach t) = ?c\<close> steady_cpu [OF assms(1)]
    by (auto simp: like_def sel f_def steady_alt split: if_splits)
  then show ?thesis
    unfolding sw pop using \<open>this_cpu (mach t) = ?c\<close> by (simp add: sel f_def)
qed

lemma sched_dispatch_returns:
  assumes "steady (mach s)" "this_cpu (mach s) = c"
    and "kstack (procs s p) \<noteq> 0" "pgdir (procs s p) \<noteq> 0"
  shows "returns (sched_dispatch c p s)
    (\<lambda>_ t. procs t = (procs s)(p := (charge_wait (ticks s) (procs s p))\<lparr>pstate := RUNNING\<rparr>)
       \<and> like (mach t) (mach s) \<and> running (mach t) = Some p \<and> cr3 t = V2P (pgdir (procs s p)))"
proof -
  let ?u = "upd_cpu c (\<lambda>q. q\<lparr>cpu_proc := Some p\<rparr>) (upd_proc p (charge_wait (ticks s)) s)"
  have l: "like (mach ?u) (mach s)"
    using like_upd_cpu [of "\<lambda>q. q\<lparr>cpu_proc := Some p\<rparr>" c "upd_proc p (charge_wait (ticks s)) s"] by simp
  have pu: "procs ?u = (procs s)(p := charge_wait (ticks s) (procs s p))"
    by (simp add: upd_cpu_def)
  have k: "kstack (charge_wait n q) = kstack q" "pgdir (charge_wait n q) = pgdir q" for n q
    by (simp_all add: charge_wait_def Let_def)
  have "returns (switchuvm (Some p) ?u)
    (\<lambda>_ t. procs t = procs ?u \<and> like (mach t) (mach ?u) \<and> cr3 t = V2P (pgdir (procs ?u p))
       \<and> esp0 (ts (cpus t (this_cpu (mach ?u)))) = kstack (procs ?u p) + KSTACKSIZE
       \<and> cpu_proc (cpus t (this_cpu (mach ?u))) = cpu_proc (cpus ?u (this_cpu (mach ?u))))"
    using assms(1,3,4) l by (intro switchuvm_returns) (simp_all add: like_steady pu k)
  then show ?thesis
    using l like_this_cpu [OF l] assms(2)
    by (auto simp: sched_dispatch_def Let_def returns_seq pu k running_def like_this_cpu
        elim!: returns_mono intro: like_trans)
qed

text \<open>
  What a process may do between being dispatched and switching back, as far as the scheduler is
  concerned: it changes its own entry, and gives the processor back as it got it.
\<close>

definition own_run :: "(nat \<Rightarrow> 'x kproc_scheme \<Rightarrow> 'x kproc_scheme) \<Rightarrow> bool" where
  "own_run run \<longleftrightarrow> (\<forall>p s. like (mach (run p s)) (mach s) \<and> (\<forall>q. q \<noteq> p \<longrightarrow> procs (run p s) q = procs s q))"

lemma sched_pass_dispatches:
  assumes "own_run run" "steady (mach s)" "this_cpu (mach s) = c" "distinct ps"
    and "\<forall>p \<in> set ps. pstate (procs s p) = RUNNABLE \<longrightarrow> kstack (procs s p) \<noteq> 0 \<and> pgdir (procs s p) \<noteq> 0"
  shows "returns (sched_pass run c ps s)
    (\<lambda>ds t. ds = filter (\<lambda>p. pstate (procs s p) = RUNNABLE) ps \<and> like (mach t) (mach s))"
  using assms(2-5)
proof (induction ps arbitrary: s)
  case (Cons p ps)
  show ?case
  proof (cases "pstate (procs s p) = RUNNABLE")
    case True
    obtain t where t: "sched_dispatch c p s = Ret () t" "like (mach t) (mach s)"
        "\<And>q. q \<noteq> p \<Longrightarrow> procs t q = procs s q"
      using sched_dispatch_returns [of s c p] Cons.prems True by (auto elim!: returnsE)
    let ?u = "sched_back c (run p t)"
    have l1: "like (mach (switchkvm (run p t))) (mach (run p t))"
      by (simp add: switchkvm_def like_def mach_upd cpu_index_def)
    have l2: "like (mach (run p t)) (mach t)"
      using assms(1) by (simp add: own_run_def)
    have "like (mach ?u) (mach (switchkvm (run p t)))"
      unfolding sched_back_def Let_def by (rule like_upd_cpu) simp_all
    then have u1: "like (mach ?u) (mach s)"
      by (rule like_trans [OF _ like_trans [OF l1 like_trans [OF l2 t(2)]]])
    have u2: "procs ?u q = procs s q" if "q \<noteq> p" for q
      using that t(3) assms(1) by (simp add: own_run_def sched_back_def upd_cpu_def switchkvm_def)
    have u3: "procs ?u q = procs s q" if "q \<in> set ps" for q
      using that Cons.prems(3) by (intro u2) auto
    note u = u1 u3
    have "returns (sched_pass run c ps ?u)
        (\<lambda>ds v. ds = filter (\<lambda>q. pstate (procs ?u q) = RUNNABLE) ps \<and> like (mach v) (mach ?u))"
      using Cons.prems u by (intro Cons.IH) (auto simp: like_steady like_this_cpu)
    moreover have "filter (\<lambda>q. pstate (procs ?u q) = RUNNABLE) ps
        = filter (\<lambda>q. pstate (procs s q) = RUNNABLE) ps"
      using u(2) Cons.prems(3) by (intro filter_cong) auto
    ultimately show ?thesis
      using t(1) u(1) True by (auto simp: returns_seq Let_def elim!: returns_mono intro: like_trans)
  qed (use Cons in simp)
qed simp

subsection \<open>A concrete state\<close>

text \<open>Process 0 runs, with a page directory and a kernel stack; no other entry is in use.\<close>

definition no_proc :: proc where
  "no_proc =
     \<lparr>sz = 0, pgdir = 0, kstack = 0, pstate = UNUSED, pid = 0, parent = None, tf = 0, context_p = 0,
      pchan = None, killed = False, ofile = (\<lambda>_. None), cwd = None, pname = [], tid = 0, pthread = None,
      psl = None, slindex = 0, startTime = 0, waitTime = 0, lastWait = 0\<rparr>"

definition no_sem :: semaphore where
  "no_sem =
     \<lparr>sem_queue = \<lparr>que_q = \<lambda>_. None, que_front = 0, que_back = 0, que_count = 0\<rparr>, sem_count = 0,
      sem_state = UNUSED\<rparr>"

definition proc0 :: kproc where
  "proc0 = machine.extend user_machine
     \<lparr>ram = \<lambda>_. 0, kend = 0x80110000, use_lock = True, freelist = 0x80400000,
      kdata = 0x80108000, kpgdir = 0x803ff000, gdtr = Some 0, ts_addr = \<lambda>_. 0x80112000, klog = [],
      procs = (\<lambda>_. no_proc)(0 := no_proc\<lparr>pgdir := 0x803fe000, kstack := 0x803fd000,
        pstate := RUNNING, pid := 1, tid := 1\<rparr>),
      psls = (\<lambda>_. \<lparr>stackz = \<lambda>_. 0, thread_count = 0, sl_state = UNUSED\<rparr>),
      sems = (\<lambda>_. no_sem), initproc = Some 0, nextpid = 2, ticks = 5, forkret_first = False,
      kstk_intena = (\<lambda>_. True), forkret_addr = 0x80103000, trapret_addr = 0x80105000,
      initcode = 0x8010b000, initcode_size = 44\<rparr>"

lemma mach_proc0 [simp]: "mach proc0 = user_machine"
  by (rule machine.equality) (simp_all add: proc0_def machine.defs user_machine_def)

lemma proc0_sel [simp]:
  "sems proc0 = (\<lambda>_. no_sem)" "kstk_intena proc0 = (\<lambda>_. True)"
  "procs proc0 = (\<lambda>_. no_proc)(0 := no_proc\<lparr>pgdir := 0x803fe000, kstack := 0x803fd000,
     pstate := RUNNING, pid := 1, tid := 1\<rparr>)" "ticks proc0 = 5"
  by (simp_all add: proc0_def machine.defs user_machine_def boot_machine_def)

lemma runs_user_machine [simp]: "runs user_machine 0"
  by (simp add: runs_def)

subsection \<open>Properties\<close>



text \<open>C15 (proc.c \<^verbatim>\<open>sleep\<close>, \<^verbatim>\<open>sched\<close>): a sleeper that is resumed, on whatever processor, gets its lock back and
  continues with the interrupt flag it had when it went to sleep.\<close>

theorem sleep_resume_gets_lock_back:
  assumes "mach s = enter l m" "runs m p" "sleep ch (Some l) s = Switch t"
    and "mach u = enter Lk_ptable m'" "runs m' p" "kstk_intena u p = kstk_intena t p"
    and "lock_free l m" "lock_free l m'" "l \<noteq> Lk_ptable"
  shows "returns (sleep_resume p l u)
    (\<lambda>_ v. mach v = enter l (resumed (fl_if m) m') \<and> pchan (procs v p) = None
       \<and> returns (release l v) (\<lambda>_ w. fl_if w = fl_if m))"
proof -
  have t: "t = slept p ch m s"
    using sleep_switch [OF assms(1,2,7,9), of ch] assms(3) by simp
  have "runs (resumed (fl_if m) m') p"
    using assms(5) by (rule runs_resumed)
  then show ?thesis
    using sleep_resume_eq [OF assms(4,5,8,9)] assms(6,8) runs_steady(1)
    by (simp add: t slept_def release_section)
qed

theorem sleep_resume_gets_lock_back_witness:
  "\<exists>t. sleep (Some Ch_ticks) (Some Lk_ticks) (set_mach (enter Lk_ticks user_machine) proc0) = Switch t
    \<and> returns (sleep_resume 0 Lk_ticks (set_mach (enter Lk_ptable user_machine) proc0))
        (\<lambda>_ v. mach v = enter Lk_ticks (resumed True user_machine))"
proof -
  let ?s = "set_mach (enter Lk_ticks user_machine) proc0"
  have s: "sleep (Some Ch_ticks) (Some Lk_ticks) ?s = Switch (slept 0 (Some Ch_ticks) user_machine ?s)"
    by (intro sleep_switch) simp_all
  show ?thesis
    using sleep_resume_gets_lock_back [OF _ _ s, where p = 0 and m = user_machine and m' = user_machine
        and u = "set_mach (enter Lk_ptable user_machine) proc0"] s
    by (auto simp: slept_def elim: returns_mono)
qed


definition ready0 :: kproc where
  "ready0 = upd_proc 0 (\<lambda>q. q\<lparr>pstate := RUNNABLE\<rparr>) proc0"

lemma ready0_sel [simp]:
  "mach ready0 = user_machine" "pstate (procs ready0 p) = (if p = 0 then RUNNABLE else UNUSED)"
  "kstack (procs ready0 0) = 0x803fd000" "pgdir (procs ready0 0) = 0x803fe000"
  by (simp_all add: ready0_def no_proc_def)


end
