(* ===== verification/Sleeplock.thy ===== *)
theory Sleeplock
  imports Sched
begin

section \<open>Sleep locks (sleeplock.c)\<close>

text \<open>
  Locks held across calls that may sleep. A thread that finds the lock taken goes to sleep and its call
  ends with \<open>Switch\<close>; \<open>acquiresleep_resume\<close> is what it does when it runs again: try once more.
\<close>

record sleeplock =
  sl_locked :: bool
  sl_name :: string
  sl_pid :: int

record ksleep = kproc +
  sleeplocks :: "sleeplk_id \<Rightarrow> sleeplock"

lemma ksleep_mach [simp]:
  "mach (s\<lparr>sleeplocks := x0\<rparr>) = mach s"
  by (rule machine.equality; simp)+

lemma ksleep_set_mach [simp]:
  "sleeplocks (set_mach m s) = sleeplocks s"
  "set_mach m (s\<lparr>sleeplocks := x0\<rparr>) = (set_mach m s)\<lparr>sleeplocks := x0\<rparr>"
  by (cases s; cases m; simp add: set_mach_def machine.defs)+

definition upd_sleep :: "sleeplk_id \<Rightarrow> (sleeplock \<Rightarrow> sleeplock) \<Rightarrow> 'x ksleep_scheme \<Rightarrow> 'x ksleep_scheme" where
  "upd_sleep l f s = s\<lparr>sleeplocks := (sleeplocks s)(l := f (sleeplocks s l))\<rparr>"

definition initsleeplock :: "sleeplk_id \<Rightarrow> string \<Rightarrow> 'x ksleep_scheme \<Rightarrow> 'x ksleep_scheme" where
  "initsleeplock l nm s =
     upd_sleep l (\<lambda>k. k\<lparr>sl_name := nm, sl_locked := False, sl_pid := 0\<rparr>) (initlock (Lk_sleep l) ''sleep lock'' s)"

definition acquiresleep_loop :: "sleeplk_id \<Rightarrow> 'x ksleep_scheme \<Rightarrow> (unit, 'x ksleep_scheme) outcome" where
  "acquiresleep_loop l s =
     (if sl_locked (sleeplocks s l) then sleep (Some (Ch_sleep l)) (Some (Lk_sleep l)) s
      else let s = upd_sleep l (\<lambda>k. k\<lparr>sl_locked := True\<rparr>) s in
           seq (curproc s) (\<lambda>p s.
           let s = upd_sleep l (\<lambda>k. k\<lparr>sl_pid := pid (procs s p)\<rparr>) s in
           release (Lk_sleep l) s))"

definition acquiresleep :: "sleeplk_id \<Rightarrow> 'x ksleep_scheme \<Rightarrow> (unit, 'x ksleep_scheme) outcome" where
  "acquiresleep l s = seq (acquire (Lk_sleep l) s) (\<lambda>_ s. acquiresleep_loop l s)"

definition acquiresleep_resume :: "nat \<Rightarrow> sleeplk_id \<Rightarrow> 'x ksleep_scheme \<Rightarrow> (unit, 'x ksleep_scheme) outcome" where
  "acquiresleep_resume p l s = seq (sleep_resume p (Lk_sleep l) s) (\<lambda>_ s. acquiresleep_loop l s)"

definition releasesleep :: "sleeplk_id \<Rightarrow> 'x ksleep_scheme \<Rightarrow> (unit, 'x ksleep_scheme) outcome" where
  "releasesleep l s =
     seq (acquire (Lk_sleep l) s) (\<lambda>_ s.
     let s = upd_sleep l (\<lambda>k. k\<lparr>sl_locked := False\<rparr>) s;
         s = upd_sleep l (\<lambda>k. k\<lparr>sl_pid := 0\<rparr>) s in
     seq (wakeup (Some (Ch_sleep l)) s) (\<lambda>_ s. release (Lk_sleep l) s))"

definition holdingsleep :: "sleeplk_id \<Rightarrow> 'x ksleep_scheme \<Rightarrow> (bool, 'x ksleep_scheme) outcome" where
  "holdingsleep l s =
     seq (acquire (Lk_sleep l) s) (\<lambda>_ s.
     seq (if sl_locked (sleeplocks s l)
          then seq (curproc s) (\<lambda>p s. Ret (sl_pid (sleeplocks s l) = pid (procs s p)) s)
          else Ret False s) (\<lambda>r s.
     seq (release (Lk_sleep l) s) (\<lambda>_ s. Ret r s)))"

subsection \<open>Behaviour in a steady state\<close>

lemma upd_sleep_sel [simp]:
  "mach (upd_sleep l f s) = mach s" "procs (upd_sleep l f s) = procs s"
  "sleeplocks (upd_sleep l f s) = (sleeplocks s)(l := f (sleeplocks s l))"
  "set_mach m (upd_sleep l f s) = upd_sleep l f (set_mach m s)"
  "upd_sleep l f (upd_sleep l g s) = upd_sleep l (\<lambda>k. f (g k)) s"
  by (simp_all add: upd_sleep_def)

text \<open>
  A quiet state: the processor holds nothing, process \<open>p\<close> runs on it, and no spin lock is taken.
\<close>

definition quiet :: "machine \<Rightarrow> nat \<Rightarrow> bool" where
  "quiet m p \<longleftrightarrow> runs m p \<and> (\<forall>l. lock_free l m)"

lemma quietD:
  assumes "quiet m p"
  shows "steady m" "running m = Some p" "lock_free l m" "runs m p"
  using assms by (simp_all add: quiet_def runs_def)

lemma quiet_user [simp]: "quiet user_machine 0"
  by (simp add: quiet_def)

lemma mach_initlock [simp]: "mach (initlock l nm s) = initlock l nm (mach s)"
  by (rule machine.equality) (simp_all add: initlock_def upd_lock_def)

lemma quiet_initlock [simp]: "quiet m p \<Longrightarrow> quiet (initlock l nm m) p"
  by (auto simp: quiet_def runs_def initlock_def upd_lock_def steady_def this_cpu_def running_def lock_free_def
      cpu_index_def split: option.splits)

definition taken :: "int \<Rightarrow> sleeplock \<Rightarrow> sleeplock" where
  "taken n k = k\<lparr>sl_locked := True, sl_pid := n\<rparr>"

definition dropped :: "sleeplock \<Rightarrow> sleeplock" where
  "dropped k = k\<lparr>sl_locked := False, sl_pid := 0\<rparr>"

definition sleep_mine :: "sleeplk_id \<Rightarrow> nat \<Rightarrow> 'x ksleep_scheme \<Rightarrow> bool" where
  "sleep_mine l p s \<longleftrightarrow> sl_locked (sleeplocks s l) \<and> sl_pid (sleeplocks s l) = pid (procs s p)"

lemma acquiresleep_free:
  assumes "quiet (mach s) p" "\<not> sl_locked (sleeplocks s l)"
  shows "acquiresleep l s = Ret () (upd_sleep l (taken (pid (procs s p))) s)"
proof -
  note q = quietD [OF assms(1)]
  have "(\<lambda>k. k\<lparr>sl_locked := True, sl_pid := n\<rparr>) = taken n" for n
    by (simp add: taken_def fun_eq_iff)
  then show ?thesis
    using assms(2) q
    by (simp add: acquiresleep_def acquiresleep_loop_def acquire_steady curproc_steady release_section
        Let_def)
qed

lemma acquiresleep_taken:
  assumes "quiet (mach s) p" "sl_locked (sleeplocks s l)"
  shows "acquiresleep l s = Switch (slept p (Some (Ch_sleep l)) (mach s) s)"
proof -
  note q = quietD [OF assms(1)]
  let ?s = "set_mach (enter (Lk_sleep l) (mach s)) s"
  have "sleep (Some (Ch_sleep l)) (Some (Lk_sleep l)) ?s = Switch (slept p (Some (Ch_sleep l)) (mach s) ?s)"
    using q by (intro sleep_switch) simp_all
  then show ?thesis
    using assms(2) q by (simp add: acquiresleep_def acquiresleep_loop_def acquire_steady slept_def)
qed

lemma releasesleep_eq:
  assumes "quiet (mach s) p"
  shows "releasesleep l s = Ret () (wakeup1 (Some (Ch_sleep l)) (upd_sleep l dropped s))"
proof -
  note q = quietD [OF assms(1)]
  have d: "(\<lambda>k. k\<lparr>sl_locked := False, sl_pid := 0\<rparr>) = dropped"
    by (simp add: dropped_def fun_eq_iff)
  let ?s = "upd_sleep l dropped (set_mach (enter (Lk_sleep l) (mach s)) s)"
  have "wakeup (Some (Ch_sleep l)) ?s = Ret () (wakeup1 (Some (Ch_sleep l)) ?s)"
    using q by (intro wakeup_eq) simp_all
  then show ?thesis
    using q by (simp add: releasesleep_def acquire_steady release_section Let_def d wakeup1_eq
        cong: if_cong)
qed

lemma holdingsleep_eq:
  assumes "quiet (mach s) p"
  shows "holdingsleep l s = Ret (sleep_mine l p s) s"
  using quietD [OF assms]
  by (simp add: holdingsleep_def acquire_steady curproc_steady release_section sleep_mine_def)

end
