(* ===== verification/Bytes.thy ===== *)
theory Bytes
  imports Prelude
begin

section \<open>Integers in byte strings\<close>

text \<open>
  Disk blocks and the structures stored in them are lists of bytes; C reads and writes their fields
  through casts. These are the little-endian accesses of two and four bytes at an offset, with the facts
  that reading returns what was written and that disjoint fields do not disturb each other.
\<close>

definition get32 :: "u8 list \<Rightarrow> nat \<Rightarrow> u32" where
  "get32 d k =
     ucast (d ! k) OR push_bit 8 (ucast (d ! (k + 1))) OR push_bit 16 (ucast (d ! (k + 2)))
       OR push_bit 24 (ucast (d ! (k + 3)))"

definition put32 :: "u8 list \<Rightarrow> nat \<Rightarrow> u32 \<Rightarrow> u8 list" where
  "put32 d k v =
     d[k := ucast v, k + 1 := ucast (drop_bit 8 v), k + 2 := ucast (drop_bit 16 v),
       k + 3 := ucast (drop_bit 24 v)]"

definition get16 :: "u8 list \<Rightarrow> nat \<Rightarrow> u16" where
  "get16 d k = ucast (d ! k) OR push_bit 8 (ucast (d ! (k + 1)))"

definition put16 :: "u8 list \<Rightarrow> nat \<Rightarrow> u16 \<Rightarrow> u8 list" where
  "put16 d k v = d[k := ucast v, k + 1 := ucast (drop_bit 8 v)]"

text \<open>\<open>splice d k xs\<close> is \<open>d\<close> with \<open>xs\<close> copied over it from position \<open>k\<close>.\<close>

definition splice :: "u8 list \<Rightarrow> nat \<Rightarrow> u8 list \<Rightarrow> u8 list" where
  "splice d k xs = take k d @ xs @ drop (k + length xs) d"

definition slice :: "u8 list \<Rightarrow> nat \<Rightarrow> nat \<Rightarrow> u8 list" where
  "slice d k n = take n (drop k d)"

lemma length_put [simp]: "length (put32 d k v) = length d" "length (put16 d k w) = length d"
  by (simp_all add: put32_def put16_def)

lemma length_splice [simp]: "k + length xs \<le> length d \<Longrightarrow> length (splice d k xs) = length d"
  by (simp add: splice_def)

lemma length_slice [simp]: "k + n \<le> length d \<Longrightarrow> length (slice d k n) = n"
  by (simp add: slice_def)

lemma slice_splice [simp]: "k + length xs \<le> length d \<Longrightarrow> slice (splice d k xs) k (length xs) = xs"
  by (simp add: slice_def splice_def)

lemma nth_splice:
  "k + length xs \<le> length d \<Longrightarrow> i < length d \<Longrightarrow>
     splice d k xs ! i = (if k \<le> i \<and> i < k + length xs then xs ! (i - k) else d ! i)"
  by (auto simp: splice_def nth_append min_def)

lemma get32_put32_same [simp]: "k + 3 < length d \<Longrightarrow> get32 (put32 d k v) k = v"
proof (rule bit_word_eqI)
  fix n
  assume "k + 3 < length d" "n < LENGTH(32)"
  then show "bit (get32 (put32 d k v) k) n \<longleftrightarrow> bit v n"
    by (cases "24 \<le> n"; cases "16 \<le> n") (auto simp: get32_def put32_def bit_simps nth_list_update)
qed

lemma get16_put16_same [simp]: "k + 1 < length d \<Longrightarrow> get16 (put16 d k v) k = v"
proof (rule bit_word_eqI)
  fix n
  assume "k + 1 < length d" "n < LENGTH(16)"
  then show "bit (get16 (put16 d k v) k) n \<longleftrightarrow> bit v n"
    by (auto simp: get16_def put16_def bit_simps nth_list_update)
qed

lemma nth_put32_other: "i < k \<or> k + 3 < i \<Longrightarrow> put32 d k v ! i = d ! i"
  by (auto simp: put32_def nth_list_update)

lemma nth_put16_other: "i < k \<or> k + 1 < i \<Longrightarrow> put16 d k v ! i = d ! i"
  by (auto simp: put16_def nth_list_update)

lemma get_put_other [simp]:
  "j + 3 < k \<or> k + 3 < j \<Longrightarrow> get32 (put32 d k v) j = get32 d j"
  "j + 3 < k \<or> k + 1 < j \<Longrightarrow> get32 (put16 d k w) j = get32 d j"
  "j + 1 < k \<or> k + 3 < j \<Longrightarrow> get16 (put32 d k v) j = get16 d j"
  "j + 1 < k \<or> k + 1 < j \<Longrightarrow> get16 (put16 d k w) j = get16 d j"
  by (auto simp: get32_def get16_def nth_put32_other nth_put16_other)

end
