(* ===== verification/Bio.thy ===== *)
theory Bio
  imports Sleeplock Bytes
begin

section \<open>Disk and buffer cache (memide.c, bio.c, buf.h)\<close>

text \<open>
  The disk is the one of memide.c, a sequence of blocks in memory that \<^verbatim>\<open>iderw\<close> copies to and from at once.
  \<open>dwrites\<close> records every block written, oldest first: it is not read by the code, and lets the state of the
  disk at any moment of the past be recovered. The buffers form the circular doubly linked list of bio.c, most
  recently used first; a buffer is named by its index in \<^verbatim>\<open>bcache.buf\<close>, and \<^verbatim>\<open>bcache.head\<close> by \<open>NBUF\<close>.
\<close>

abbreviation (input) BSIZE :: nat where "BSIZE \<equiv> 512"
abbreviation (input) B_VALID :: u32 where "B_VALID \<equiv> 2"
abbreviation (input) B_DIRTY :: u32 where "B_DIRTY \<equiv> 4"

record buf =
  b_flags :: u32
  b_dev :: u32
  b_blockno :: u32
  b_refcnt :: u32
  b_prev :: nat
  b_next :: nat
  b_data :: "u8 list"

record kbio = ksleep +
  bufs :: "nat \<Rightarrow> buf"
  disk :: "nat \<Rightarrow> u8 list"
  disksize :: nat
  dwrites :: "(nat \<times> u8 list) list"

lemma kbio_mach [simp]:
  "mach (s\<lparr>bufs := x0\<rparr>) = mach s" "mach (s\<lparr>disk := x1\<rparr>) = mach s"
  "mach (s\<lparr>dwrites := x2\<rparr>) = mach s"
  by (rule machine.equality; simp)+

lemma kbio_set_mach [simp]:
  "bufs (set_mach m s) = bufs s" "disk (set_mach m s) = disk s"
  "dwrites (set_mach m s) = dwrites s" "disksize (set_mach m s) = disksize s"
  "set_mach m (s\<lparr>bufs := x0\<rparr>) = (set_mach m s)\<lparr>bufs := x0\<rparr>"
  "set_mach m (s\<lparr>disk := x1\<rparr>) = (set_mach m s)\<lparr>disk := x1\<rparr>"
  "set_mach m (s\<lparr>dwrites := x2\<rparr>) = (set_mach m s)\<lparr>dwrites := x2\<rparr>"
  by (cases s; cases m; simp add: set_mach_def machine.defs)+

definition upd_buf :: "nat \<Rightarrow> (buf \<Rightarrow> buf) \<Rightarrow> 'x kbio_scheme \<Rightarrow> 'x kbio_scheme" where
  "upd_buf b f s = s\<lparr>bufs := (bufs s)(b := f (bufs s b))\<rparr>"

subsection \<open>The disk\<close>

text \<open>\<open>fs_img\<close> is the file-system image linked into the kernel, as blocks.\<close>

definition ideinit :: "(nat \<Rightarrow> u8 list) \<Rightarrow> nat \<Rightarrow> 'x kbio_scheme \<Rightarrow> 'x kbio_scheme" where
  "ideinit fs_img fs_img_size s = s\<lparr>disk := fs_img, disksize := fs_img_size div BSIZE\<rparr>"

definition iderw :: "nat \<Rightarrow> 'x kbio_scheme \<Rightarrow> (unit, 'x kbio_scheme) outcome" where
  "iderw b s =
     seq (holdingsleep (SL_buf b) s) (\<lambda>h s.
     if \<not> h then Panic ''iderw: buf not locked''
     else if b_flags (bufs s b) AND (B_VALID OR B_DIRTY) = B_VALID then Panic ''iderw: nothing to do''
     else if b_dev (bufs s b) \<noteq> 1 then Panic ''iderw: request not for disk 1''
     else if unat (b_blockno (bufs s b)) \<ge> disksize s then Panic ''iderw: block out of range''
     else let p = unat (b_blockno (bufs s b));
              s = (if b_flags (bufs s b) AND B_DIRTY \<noteq> 0
                   then let s = upd_buf b (\<lambda>x. x\<lparr>b_flags := b_flags x AND NOT B_DIRTY\<rparr>) s in
                        s\<lparr>disk := (disk s)(p := b_data (bufs s b)),
                          dwrites := dwrites s @ [(p, b_data (bufs s b))]\<rparr>
                   else upd_buf b (\<lambda>x. x\<lparr>b_data := disk s p\<rparr>) s)
          in Ret () (upd_buf b (\<lambda>x. x\<lparr>b_flags := b_flags x OR B_VALID\<rparr>) s))"

subsection \<open>The list of buffers\<close>

text \<open>The four assignments that put \<open>b\<close> behind the head, and the two that take it out of the list.\<close>

definition blist_insert :: "nat \<Rightarrow> 'x kbio_scheme \<Rightarrow> 'x kbio_scheme" where
  "blist_insert b s =
     (let s = upd_buf b (\<lambda>x. x\<lparr>b_next := b_next (bufs s NBUF)\<rparr>) s;
          s = upd_buf b (\<lambda>x. x\<lparr>b_prev := NBUF\<rparr>) s;
          s = upd_buf (b_next (bufs s NBUF)) (\<lambda>x. x\<lparr>b_prev := b\<rparr>) s
      in upd_buf NBUF (\<lambda>x. x\<lparr>b_next := b\<rparr>) s)"

definition blist_remove :: "nat \<Rightarrow> 'x kbio_scheme \<Rightarrow> 'x kbio_scheme" where
  "blist_remove b s =
     (let s = upd_buf (b_next (bufs s b)) (\<lambda>x. x\<lparr>b_prev := b_prev (bufs s b)\<rparr>) s
      in upd_buf (b_prev (bufs s b)) (\<lambda>x. x\<lparr>b_next := b_next (bufs s b)\<rparr>) s)"

text \<open>
  A scan of the list along \<open>step\<close> until the head or a buffer that satisfies \<open>P\<close>. There are only
  \<open>NBUF + 1\<close> nodes, so a scan that has not ended after that many steps goes round a cycle for ever:
  the outer \<open>None\<close>.
\<close>

fun blist_find :: "nat \<Rightarrow> (nat \<Rightarrow> nat) \<Rightarrow> (nat \<Rightarrow> bool) \<Rightarrow> nat \<Rightarrow> nat option option" where
  "blist_find 0 step P b = None"
| "blist_find (Suc n) step P b =
     (if b = NBUF then Some None
      else if P b then Some (Some b)
      else blist_find n step P (step b))"

definition binit_buf :: "nat \<Rightarrow> 'x kbio_scheme \<Rightarrow> 'x kbio_scheme" where
  "binit_buf b s =
     (let s = upd_buf b (\<lambda>x. x\<lparr>b_next := b_next (bufs s NBUF)\<rparr>) s;
          s = upd_buf b (\<lambda>x. x\<lparr>b_prev := NBUF\<rparr>) s;
          s = initsleeplock (SL_buf b) ''buffer'' s;
          s = upd_buf (b_next (bufs s NBUF)) (\<lambda>x. x\<lparr>b_prev := b\<rparr>) s
      in upd_buf NBUF (\<lambda>x. x\<lparr>b_next := b\<rparr>) s)"

definition binit :: "'x kbio_scheme \<Rightarrow> 'x kbio_scheme" where
  "binit s =
     (let s = initlock Lk_bcache ''bcache'' s;
          s = upd_buf NBUF (\<lambda>x. x\<lparr>b_prev := NBUF\<rparr>) s;
          s = upd_buf NBUF (\<lambda>x. x\<lparr>b_next := NBUF\<rparr>) s
      in fold binit_buf [0..<NBUF] s)"

definition bget :: "u32 \<Rightarrow> u32 \<Rightarrow> 'x kbio_scheme \<Rightarrow> (nat, 'x kbio_scheme) outcome" where
  "bget dev blockno s =
     seq (acquire Lk_bcache s) (\<lambda>_ s.
     case blist_find (NBUF + 1) (\<lambda>b. b_next (bufs s b))
            (\<lambda>b. b_dev (bufs s b) = dev \<and> b_blockno (bufs s b) = blockno) (b_next (bufs s NBUF)) of
       None \<Rightarrow> Diverge
     | Some (Some b) \<Rightarrow>
         let s = upd_buf b (\<lambda>x. x\<lparr>b_refcnt := b_refcnt x + 1\<rparr>) s in
         seq (release Lk_bcache s) (\<lambda>_ s.
         seq (acquiresleep (SL_buf b) s) (\<lambda>_ s. Ret b s))
     | Some None \<Rightarrow>
         (case blist_find (NBUF + 1) (\<lambda>b. b_prev (bufs s b))
                 (\<lambda>b. b_refcnt (bufs s b) = 0 \<and> b_flags (bufs s b) AND B_DIRTY = 0) (b_prev (bufs s NBUF)) of
            None \<Rightarrow> Diverge
          | Some (Some b) \<Rightarrow>
              let s = upd_buf b (\<lambda>x. x\<lparr>b_dev := dev, b_blockno := blockno, b_flags := 0, b_refcnt := 1\<rparr>) s in
              seq (release Lk_bcache s) (\<lambda>_ s.
              seq (acquiresleep (SL_buf b) s) (\<lambda>_ s. Ret b s))
          | Some None \<Rightarrow> Panic ''bget: no buffers''))"

definition bread :: "u32 \<Rightarrow> u32 \<Rightarrow> 'x kbio_scheme \<Rightarrow> (nat, 'x kbio_scheme) outcome" where
  "bread dev blockno s =
     seq (bget dev blockno s) (\<lambda>b s.
     seq (whenb (b_flags (bufs s b) AND B_VALID = 0) (iderw b) s) (\<lambda>_ s. Ret b s))"

definition bwrite :: "nat \<Rightarrow> 'x kbio_scheme \<Rightarrow> (unit, 'x kbio_scheme) outcome" where
  "bwrite b s =
     seq (holdingsleep (SL_buf b) s) (\<lambda>h s.
     if \<not> h then Panic ''bwrite''
     else iderw b (upd_buf b (\<lambda>x. x\<lparr>b_flags := b_flags x OR B_DIRTY\<rparr>) s))"

definition brelse :: "nat \<Rightarrow> 'x kbio_scheme \<Rightarrow> (unit, 'x kbio_scheme) outcome" where
  "brelse b s =
     seq (holdingsleep (SL_buf b) s) (\<lambda>h s.
     if \<not> h then Panic ''brelse''
     else seq (releasesleep (SL_buf b) s) (\<lambda>_ s.
     seq (acquire Lk_bcache s) (\<lambda>_ s.
     let s = upd_buf b (\<lambda>x. x\<lparr>b_refcnt := b_refcnt x - 1\<rparr>) s;
         s = (if b_refcnt (bufs s b) = 0 then blist_insert b (blist_remove b s) else s)
     in release Lk_bcache s)))"

subsection \<open>The circular list\<close>

text \<open>\<open>seg f a xs b\<close>: following \<^verbatim>\<open>next\<close> from \<open>a\<close> visits \<open>xs\<close> and then \<open>b\<close>, and \<^verbatim>\<open>prev\<close> goes back.\<close>

fun seg :: "(nat \<Rightarrow> buf) \<Rightarrow> nat \<Rightarrow> nat list \<Rightarrow> nat \<Rightarrow> bool" where
  "seg f a [] b \<longleftrightarrow> b_next (f a) = b \<and> b_prev (f b) = a"
| "seg f a (x # xs) b \<longleftrightarrow> b_next (f a) = x \<and> b_prev (f x) = a \<and> seg f x xs b"

definition blist :: "(nat \<Rightarrow> buf) \<Rightarrow> nat list \<Rightarrow> bool" where
  "blist f xs \<longleftrightarrow> seg f NBUF xs NBUF \<and> distinct xs \<and> set xs = {..<NBUF}"

lemma seg_append: "seg f a (us @ x # vs) b \<longleftrightarrow> seg f a us x \<and> seg f x vs b"
  by (induction us arbitrary: a) auto

lemma seg_cong:
  assumes "\<And>y. y \<in> set (a # xs) \<Longrightarrow> b_next (f y) = b_next (g y)"
    and "\<And>y. y \<in> set (xs @ [b]) \<Longrightarrow> b_prev (f y) = b_prev (g y)"
  shows "seg f a xs b = seg g a xs b"
  using assms by (induction xs arbitrary: a) auto

lemma blist_links:
  assumes "\<And>y. b_next (f y) = b_next (g y)" "\<And>y. b_prev (f y) = b_prev (g y)"
  shows "blist f xs = blist g xs"
  using seg_cong [of NBUF xs f g NBUF] assms by (simp add: blist_def)

lemma seg_next:
  assumes "seg f a xs NBUF" "NBUF \<notin> set xs" "length xs < n"
  shows "blist_find n (\<lambda>b. b_next (f b)) P (b_next (f a)) = Some (find P xs)"
  using assms
proof (induction xs arbitrary: a n)
  case Nil
  then show ?case by (cases n) auto
next
  case (Cons x xs)
  then show ?case by (cases n) auto
qed

lemma seg_prev:
  assumes "seg f NBUF xs b" "NBUF \<notin> set xs" "length xs < n"
  shows "blist_find n (\<lambda>b. b_prev (f b)) P (b_prev (f b)) = Some (find P (rev xs))"
  using assms
proof (induction xs arbitrary: b n rule: rev_induct)
  case Nil
  then show ?case by (cases n) auto
next
  case (snoc x xs)
  then show ?case by (cases n) (auto simp: seg_append)
qed

lemma blist_length: "blist f xs \<Longrightarrow> length xs = NBUF"
  using distinct_card [of xs] by (simp add: blist_def)

lemma blist_find_next:
  "blist f xs \<Longrightarrow> blist_find (NBUF + 1) (\<lambda>b. b_next (f b)) P (b_next (f NBUF)) = Some (find P xs)"
  using seg_next [of f NBUF xs "NBUF + 1" P] blist_length [of f xs] by (auto simp: blist_def)

lemma blist_find_prev:
  "blist f xs \<Longrightarrow> blist_find (NBUF + 1) (\<lambda>b. b_prev (f b)) P (b_prev (f NBUF)) = Some (find P (rev xs))"
  using seg_prev [of f xs NBUF "NBUF + 1" P] blist_length [of f xs] by (auto simp: blist_def)

text \<open>The list operations as changes of the buffers.\<close>

definition set_next :: "nat \<Rightarrow> nat \<Rightarrow> (nat \<Rightarrow> buf) \<Rightarrow> nat \<Rightarrow> buf" where
  "set_next a b f = f(a := (f a)\<lparr>b_next := b\<rparr>)"

definition set_prev :: "nat \<Rightarrow> nat \<Rightarrow> (nat \<Rightarrow> buf) \<Rightarrow> nat \<Rightarrow> buf" where
  "set_prev a b f = f(a := (f a)\<lparr>b_prev := b\<rparr>)"

lemma set_link_sel [simp]:
  "b_next (set_next a b f y) = (if y = a then b else b_next (f y))"
  "b_prev (set_next a b f y) = b_prev (f y)"
  "b_prev (set_prev a b f y) = (if y = a then b else b_prev (f y))"
  "b_next (set_prev a b f y) = b_next (f y)"
  by (simp_all add: set_next_def set_prev_def)

lemma seg_unlink:
  assumes "seg f a us x" "seg f x vs b" "distinct (a # us @ vs)" "b \<notin> set (us @ vs)"
    and "x \<notin> set (a # us @ vs)" "x \<noteq> b"
  shows "seg (set_next (b_prev (f x)) (b_next (f x)) (set_prev (b_next (f x)) (b_prev (f x)) f)) a (us @ vs) b"
  using assms
proof (induction us arbitrary: a)
  case Nil
  show ?case
  proof (cases vs)
    case Nil
    then show ?thesis
      using Nil.prems by simp
  next
    case (Cons v vs')
    let ?g = "set_next a v (set_prev v a f)"
    have "seg ?g v vs' b = seg f v vs' b"
      using Nil.prems Cons by (intro seg_cong) auto
    then show ?thesis
      using Nil.prems Cons by simp
  qed
next
  case (Cons u us)
  have "b_prev (f x) \<in> set (u # us)"
    using Cons.prems(1) by (induction us arbitrary: u a) auto
  then have n: "b_prev (f x) \<noteq> a"
    using Cons.prems(3) by auto
  have "b_next (f x) \<in> set vs \<or> b_next (f x) = b"
    using Cons.prems(2) by (cases vs) auto
  then have p: "b_next (f x) \<noteq> u"
    using Cons.prems(3,4) by auto
  show ?case
    using Cons.IH [of u] Cons.prems n p by auto
qed

lemma seg_link:
  assumes "seg f NBUF xs NBUF" "b \<noteq> NBUF" "b \<notin> set xs" "NBUF \<notin> set xs" "distinct xs"
    and "b_next (f b) = b_next (f NBUF)" "b_prev (f b) = NBUF"
  shows "seg (set_next NBUF b (set_prev (b_next (f NBUF)) b f)) NBUF (b # xs) NBUF"
proof (cases xs)
  case Nil
  then show ?thesis
    using assms by simp
next
  case (Cons x ys)
  let ?g = "set_next NBUF b (set_prev x b f)"
  have "seg ?g x ys NBUF = seg f x ys NBUF"
    using assms Cons by (intro seg_cong) auto
  then show ?thesis
    using assms Cons by auto
qed

text \<open>What moving a buffer to the front does to the buffers.\<close>

definition touch :: "nat \<Rightarrow> (nat \<Rightarrow> buf) \<Rightarrow> nat \<Rightarrow> buf" where
  "touch b f =
     (let f = set_prev (b_next (f b)) (b_prev (f b)) f;
          f = set_next (b_prev (f b)) (b_next (f b)) f;
          f = set_next b (b_next (f NBUF)) f;
          f = set_prev b NBUF f;
          f = set_prev (b_next (f NBUF)) b f
      in set_next NBUF b f)"

lemma upd_link:
  "upd_buf a (\<lambda>x. x\<lparr>b_prev := v\<rparr>) s = s\<lparr>bufs := set_prev a v (bufs s)\<rparr>"
  "upd_buf a (\<lambda>x. x\<lparr>b_next := v\<rparr>) s = s\<lparr>bufs := set_next a v (bufs s)\<rparr>"
  by (simp_all add: upd_buf_def set_next_def set_prev_def)

lemma bufs_upd_bufs: "bufs (s\<lparr>bufs := f\<rparr>) = f" "s\<lparr>bufs := f\<rparr>\<lparr>bufs := g\<rparr> = s\<lparr>bufs := g\<rparr>"
  by simp_all

lemma blist_move: "blist_insert b (blist_remove b s) = s\<lparr>bufs := touch b (bufs s)\<rparr>"
  by (simp only: blist_insert_def blist_remove_def touch_def upd_link Let_def bufs_upd_bufs)

definition same_meta :: "(nat \<Rightarrow> buf) \<Rightarrow> (nat \<Rightarrow> buf) \<Rightarrow> bool" where
  "same_meta f g \<longleftrightarrow> (\<forall>y. b_flags (f y) = b_flags (g y) \<and> b_dev (f y) = b_dev (g y)
     \<and> b_blockno (f y) = b_blockno (g y) \<and> b_refcnt (f y) = b_refcnt (g y) \<and> b_data (f y) = b_data (g y))"

lemma same_meta_link [simp]: "same_meta (set_next a b f) g = same_meta f g"
    "same_meta (set_prev a b f) g = same_meta f g"
  by (auto simp: same_meta_def set_next_def set_prev_def)

lemma same_meta_touch: "same_meta (touch b f) f"
  by (simp add: touch_def Let_def) (simp add: same_meta_def)

lemma blist_touch:
  assumes "blist f xs" "b < NBUF"
  shows "blist (touch b f) (b # remove1 b xs)"
proof -
  obtain us vs where xs: "xs = us @ b # vs" "b \<notin> set us"
    using assms split_list_first [of b xs] by (auto simp: blist_def)
  have d: "distinct (us @ vs)" "b \<notin> set vs" "NBUF \<notin> set us" "NBUF \<notin> set vs"
    using assms(1) xs by (auto simp: blist_def)
  have r: "remove1 b xs = us @ vs"
    using xs by (simp add: remove1_append)
  have s: "seg f NBUF us b" "seg f b vs NBUF"
    using assms(1) xs by (simp_all add: blist_def seg_append)
  have p: "b_prev (f b) \<noteq> b" "b_next (f b) \<noteq> b"
    using s xs(2) d assms(2) by (cases us rule: rev_cases; auto simp: seg_append)
      (cases vs; use s xs(2) d assms(2) in auto)
  define g where "g = set_next (b_prev (f b)) (b_next (f b)) (set_prev (b_next (f b)) (b_prev (f b)) f)"
  have g: "seg g NBUF (us @ vs) NBUF"
    unfolding g_def using s d xs(2) assms(2) by (intro seg_unlink) auto
  define h where "h = set_prev b NBUF (set_next b (b_next (g NBUF)) g)"
  have h: "seg h NBUF (us @ vs) NBUF"
    using g xs(2) d assms(2) unfolding h_def by (subst seg_cong [of _ _ _ g]) auto
  have "touch b f = set_next NBUF b (set_prev (b_next (h NBUF)) b h)"
    using p assms(2) by (simp add: touch_def Let_def h_def g_def)
  moreover have "seg (set_next NBUF b (set_prev (b_next (h NBUF)) b h)) NBUF (b # us @ vs) NBUF"
    using h xs(2) d assms(2) by (intro seg_link) (auto simp: h_def)
  moreover have "set (b # us @ vs) = {..<NBUF}"
    using assms(1) xs by (auto simp: blist_def)
  ultimately show ?thesis
    using r xs(2) d by (simp add: blist_def)
qed

subsection \<open>Flags\<close>

definition bvalid :: "buf \<Rightarrow> bool" where
  "bvalid x = bit (b_flags x) 1"

definition bdirty :: "buf \<Rightarrow> bool" where
  "bdirty x = bit (b_flags x) 2"

lemma and_exp: "(w :: u32) AND 2 ^ n = (if bit w n then 2 ^ n else 0)"
  by (rule bit_word_eqI) (auto simp: bit_and_iff bit_exp_iff)

lemma flag_tests:
  "(b_flags x AND 2 = 0) = (\<not> bvalid x)"
  "(b_flags x AND 4 = 0) = (\<not> bdirty x)"
  "(b_flags x AND 6 = 2) = (bvalid x \<and> \<not> bdirty x)"
proof -
  have 2: "b_flags x AND 2 = (if bvalid x then 2 else 0)"
    using and_exp [of "b_flags x" 1] by (simp add: bvalid_def)
  have 4: "b_flags x AND 4 = (if bdirty x then 4 else 0)"
    using and_exp [of "b_flags x" 2] by (simp add: bdirty_def)
  have "b_flags x AND 6 = b_flags x AND (2 OR 4)"
    by simp
  also have "\<dots> = (b_flags x AND 2) OR (b_flags x AND 4)"
    by (simp only: bit.conj_disj_distrib)
  finally have 6: "b_flags x AND 6 = (b_flags x AND 2) OR (b_flags x AND 4)" .
  show "(b_flags x AND 2 = 0) = (\<not> bvalid x)" "(b_flags x AND 4 = 0) = (\<not> bdirty x)"
    by (simp_all add: 2 4)
  show "(b_flags x AND 6 = 2) = (bvalid x \<and> \<not> bdirty x)"
    unfolding 6 2 4 by simp
qed

lemma flag_updates [simp]:
  "bvalid (x\<lparr>b_flags := b_flags x OR B_VALID\<rparr>)" "bdirty (x\<lparr>b_flags := b_flags x OR B_VALID\<rparr>) = bdirty x"
  "bvalid (x\<lparr>b_flags := b_flags x OR B_DIRTY\<rparr>) = bvalid x" "bdirty (x\<lparr>b_flags := b_flags x OR B_DIRTY\<rparr>)"
  "bvalid (x\<lparr>b_flags := b_flags x AND NOT B_DIRTY\<rparr>) = bvalid x"
  "\<not> bdirty (x\<lparr>b_flags := b_flags x AND NOT B_DIRTY\<rparr>)"
  "bvalid (x\<lparr>b_data := d\<rparr>) = bvalid x" "bdirty (x\<lparr>b_data := d\<rparr>) = bdirty x"
  by (simp_all add: bvalid_def bdirty_def bit_or_iff bit_and_iff bit_not_iff)

subsection \<open>The operations in a quiet state\<close>

lemma upd_buf_sel [simp]:
  "mach (upd_buf b f s) = mach s" "procs (upd_buf b f s) = procs s"
  "bufs (upd_buf b f s) = (bufs s)(b := f (bufs s b))" "sleeplocks (upd_buf b f s) = sleeplocks s"
  "disk (upd_buf b f s) = disk s" "dwrites (upd_buf b f s) = dwrites s" "disksize (upd_buf b f s) = disksize s"
  "set_mach m (upd_buf b f s) = upd_buf b f (set_mach m s)"
  by (simp_all add: upd_buf_def)

lemma upd_sleep_bio [simp]:
  "bufs (upd_sleep l f s) = bufs s" "disk (upd_sleep l f s) = disk s" "dwrites (upd_sleep l f s) = dwrites s"
  "disksize (upd_sleep l f s) = disksize s"
  by (simp_all add: upd_sleep_def)

lemma wakeup1_bio [simp]:
  "bufs (wakeup1 ch s) = bufs s" "disk (wakeup1 ch s) = disk s" "dwrites (wakeup1 ch s) = dwrites s"
  "disksize (wakeup1 ch s) = disksize s" "mach (wakeup1 ch s) = mach s"
  "sleeplocks (wakeup1 ch s) = sleeplocks s" "set_mach m (wakeup1 ch s) = wakeup1 ch (set_mach m s)"
  by (simp_all add: wakeup1_eq cong: if_cong)

lemma pid_wakeup1 [simp]: "pid (procs (wakeup1 ch s) q) = pid (procs s q)"
  by (simp add: wakeup1_eq wake_one_def)

lemma bget_eq:
  assumes "quiet (mach s) p" "blist (bufs s) xs"
  shows "bget dev blockno s =
    (case find (\<lambda>b. b_dev (bufs s b) = dev \<and> b_blockno (bufs s b) = blockno) xs of
       Some b \<Rightarrow>
         seq (acquiresleep (SL_buf b) (upd_buf b (\<lambda>x. x\<lparr>b_refcnt := b_refcnt x + 1\<rparr>) s)) (\<lambda>_ s. Ret b s)
     | None \<Rightarrow>
         (case find (\<lambda>b. b_refcnt (bufs s b) = 0 \<and> \<not> bdirty (bufs s b)) (rev xs) of
            Some b \<Rightarrow>
              seq (acquiresleep (SL_buf b) (upd_buf b (\<lambda>x. x\<lparr>b_dev := dev, b_blockno := blockno,
                b_flags := 0, b_refcnt := 1\<rparr>) s)) (\<lambda>_ s. Ret b s)
          | None \<Rightarrow> Panic ''bget: no buffers''))"
  using quietD [OF assms(1)] blist_find_next [OF assms(2)] blist_find_prev [OF assms(2)]
  by (simp add: bget_def acquire_steady release_section flag_tests split: option.splits)

lemma iderw_dirty:
  assumes "quiet (mach s) p" "sleep_mine (SL_buf b) p s" "bdirty (bufs s b)" "b_dev (bufs s b) = 1"
    and "unat (b_blockno (bufs s b)) < disksize s"
  shows "iderw b s =
    Ret () ((upd_buf b (\<lambda>x. x\<lparr>b_flags := b_flags x AND NOT B_DIRTY OR B_VALID\<rparr>) s)
      \<lparr>disk := (disk s)(unat (b_blockno (bufs s b)) := b_data (bufs s b)),
       dwrites := dwrites s @ [(unat (b_blockno (bufs s b)), b_data (bufs s b))]\<rparr>)"
  using assms(2-)
  by (simp add: iderw_def holdingsleep_eq [OF assms(1)] flag_tests Let_def upd_buf_def)

lemma iderw_read:
  assumes "quiet (mach s) p" "sleep_mine (SL_buf b) p s" "\<not> bvalid (bufs s b)" "\<not> bdirty (bufs s b)"
    and "b_dev (bufs s b) = 1" "unat (b_blockno (bufs s b)) < disksize s"
  shows "iderw b s =
    Ret () (upd_buf b (\<lambda>x. x\<lparr>b_data := disk s (unat (b_blockno x)), b_flags := b_flags x OR B_VALID\<rparr>) s)"
  using assms(2-)
  by (simp add: iderw_def holdingsleep_eq [OF assms(1)] flag_tests Let_def upd_buf_def)

lemma brelse_eq:
  assumes "quiet (mach s) p" "sleep_mine (SL_buf b) p s"
  shows "brelse b s = Ret ()
    (let t = upd_buf b (\<lambda>x. x\<lparr>b_refcnt := b_refcnt x - 1\<rparr>)
               (wakeup1 (Some (Ch_sleep (SL_buf b))) (upd_sleep (SL_buf b) dropped s))
     in if b_refcnt (bufs t b) = 0 then t\<lparr>bufs := touch b (bufs t)\<rparr> else t)"
proof -
  note q = quietD [OF assms(1)]
  let ?u = "wakeup1 (Some (Ch_sleep (SL_buf b))) (upd_sleep (SL_buf b) dropped s)"
  have "quiet (mach ?u) p"
    using assms(1) by simp
  then show ?thesis
    using assms q
    by (simp add: brelse_def holdingsleep_eq releasesleep_eq acquire_steady release_section Let_def
        blist_move)
qed

subsection \<open>What the block operations leave alone\<close>

definition same_procs :: "(nat \<Rightarrow> proc) \<Rightarrow> (nat \<Rightarrow> proc) \<Rightarrow> bool" where
  "same_procs f g \<longleftrightarrow> (\<forall>q. (f q)\<lparr>pstate := UNUSED\<rparr> = (g q)\<lparr>pstate := UNUSED\<rparr>)"

definition bio_frame :: "'x kbio_scheme \<Rightarrow> 'x kbio_scheme \<Rightarrow> bool" where
  "bio_frame s t \<longleftrightarrow>
     t = s\<lparr>procs := procs t, sleeplocks := sleeplocks t, bufs := bufs t, disk := disk t, dwrites := dwrites t\<rparr>
     \<and> same_procs (procs t) (procs s)"

lemma same_procs_refl [simp]: "same_procs f f"
  by (simp add: same_procs_def)

lemma same_procs_trans: "same_procs f g \<Longrightarrow> same_procs g h \<Longrightarrow> same_procs f h"
  by (simp add: same_procs_def)

lemma same_procsD:
  assumes "same_procs f g"
  shows "pid (f q) = pid (g q)" "cwd (f q) = cwd (g q)" "ofile (f q) = ofile (g q)"
    "pgdir (f q) = pgdir (g q)" "sz (f q) = sz (g q)" "tf (f q) = tf (g q)" "killed (f q) = killed (g q)"
proof -
  have e: "(f q)\<lparr>pstate := UNUSED\<rparr> = (g q)\<lparr>pstate := UNUSED\<rparr>"
    using assms by (simp add: same_procs_def)
  show "pid (f q) = pid (g q)" "cwd (f q) = cwd (g q)" "ofile (f q) = ofile (g q)"
      "pgdir (f q) = pgdir (g q)" "sz (f q) = sz (g q)" "tf (f q) = tf (g q)" "killed (f q) = killed (g q)"
    using arg_cong [OF e, of pid] arg_cong [OF e, of cwd] arg_cong [OF e, of ofile]
      arg_cong [OF e, of pgdir] arg_cong [OF e, of sz] arg_cong [OF e, of tf] arg_cong [OF e, of killed]
    by simp_all
qed

lemma same_procs_wakeup1 [simp]: "same_procs (procs (wakeup1 ch s)) (procs s)"
  by (auto simp: same_procs_def wakeup1_eq wake_one_def)

lemma bio_frame_refl [simp]: "bio_frame s s"
  by (simp add: bio_frame_def)

lemma bio_frame_trans:
  assumes "bio_frame s t" "bio_frame t u"
  shows "bio_frame s u"
proof -
  have t: "t = s\<lparr>procs := procs t, sleeplocks := sleeplocks t, bufs := bufs t, disk := disk t, dwrites := dwrites t\<rparr>"
    and u: "u = t\<lparr>procs := procs u, sleeplocks := sleeplocks u, bufs := bufs u, disk := disk u, dwrites := dwrites u\<rparr>"
    using assms by (simp_all add: bio_frame_def)
  have "u = s\<lparr>procs := procs u, sleeplocks := sleeplocks u, bufs := bufs u, disk := disk u, dwrites := dwrites u\<rparr>"
    by (subst u, subst t) simp
  then show ?thesis
    using assms same_procs_trans unfolding bio_frame_def by blast
qed

lemma bio_frameD:
  assumes "bio_frame s t"
  shows "mach t = mach s" "kbio.more t = kbio.more s" "disksize t = disksize s" "ram t = ram s"
    "same_procs (procs t) (procs s)"
proof -
  have t: "t = s\<lparr>procs := procs t, sleeplocks := sleeplocks t, bufs := bufs t, disk := disk t, dwrites := dwrites t\<rparr>"
    and "same_procs (procs t) (procs s)"
    using assms by (simp_all add: bio_frame_def)
  then show "same_procs (procs t) (procs s)"
    by simp
  show "mach t = mach s" "kbio.more t = kbio.more s" "disksize t = disksize s" "ram t = ram s"
    by (subst t, simp)+
qed

lemma bio_frame_step:
  "bio_frame t (upd_buf b f t)" "bio_frame t (upd_sleep l g t)" "bio_frame t (t\<lparr>bufs := B\<rparr>)"
  "bio_frame t (t\<lparr>disk := D, dwrites := W\<rparr>)" "bio_frame t (wakeup1 ch t)"
proof -
  show "bio_frame t (wakeup1 ch t)"
    using same_procs_wakeup1 [of ch t] by (simp add: bio_frame_def wakeup1_eq cong: if_cong)
qed (simp_all add: bio_frame_def upd_buf_def upd_sleep_def)

lemma bio_frame_ops [simp]:
  "bio_frame s t \<Longrightarrow> bio_frame s (upd_buf b f t)" "bio_frame s t \<Longrightarrow> bio_frame s (upd_sleep l g t)"
  "bio_frame s t \<Longrightarrow> bio_frame s (t\<lparr>bufs := B\<rparr>)"
  "bio_frame s t \<Longrightarrow> bio_frame s (t\<lparr>disk := D, dwrites := W\<rparr>)"
  "bio_frame s t \<Longrightarrow> bio_frame s (wakeup1 ch t)"
  using bio_frame_trans bio_frame_step by blast+

subsection \<open>The cache invariant\<close>

text \<open>
  \<open>buf_ok n h D N x l\<close>: what holds of one buffer \<open>x\<close> and its sleep lock \<open>l\<close>, for a thread with process number
  \<open>n\<close> that holds it (\<open>h\<close>) or not, above a disk \<open>D\<close> of \<open>N\<close> blocks. A buffer that nobody holds and that is not
  dirty agrees with the disk.
\<close>

definition buf_ok :: "int \<Rightarrow> bool \<Rightarrow> (nat \<Rightarrow> u8 list) \<Rightarrow> nat \<Rightarrow> buf \<Rightarrow> sleeplock \<Rightarrow> bool" where
  "buf_ok n h D N x l \<longleftrightarrow>
     (b_dev x = 1 \<longrightarrow> bvalid x \<and> unat (b_blockno x) < N
        \<and> (\<not> h \<and> \<not> bdirty x \<longrightarrow> b_data x = D (unat (b_blockno x))))
     \<and> (bdirty x \<longrightarrow> b_dev x = 1)
     \<and> sl_locked l = h \<and> (h \<longrightarrow> b_dev x = 1 \<and> sl_pid l = n)
     \<and> b_refcnt x = (if h then 1 else 0)"

definition caches :: "nat \<Rightarrow> u32 \<Rightarrow> 'x kbio_scheme \<Rightarrow> bool" where
  "caches b k s \<longleftrightarrow> b < NBUF \<and> b_dev (bufs s b) = 1 \<and> b_blockno (bufs s b) = k"

text \<open>
  \<open>bcache_ok p H s\<close>: process \<open>p\<close> runs and holds exactly the buffers \<open>H\<close>, the buffers form one circular list,
  and no block has two buffers.
\<close>

definition bcache_ok :: "nat \<Rightarrow> nat set \<Rightarrow> 'x kbio_scheme \<Rightarrow> bool" where
  "bcache_ok p H s \<longleftrightarrow>
     quiet (mach s) p \<and> (\<exists>xs. blist (bufs s) xs) \<and> H \<subseteq> {..<NBUF}
     \<and> (\<forall>b c k. caches b k s \<and> caches c k s \<longrightarrow> b = c)
     \<and> (\<forall>b < NBUF. buf_ok (pid (procs s p)) (b \<in> H) (disk s) (disksize s) (bufs s b) (sleeplocks s (SL_buf b)))"

text \<open>The contents of a block as the file system sees it: what the cache holds, or else the disk.\<close>

definition content :: "'x kbio_scheme \<Rightarrow> u32 \<Rightarrow> u8 list" where
  "content s k =
     (case find (\<lambda>b. b_dev (bufs s b) = 1 \<and> b_blockno (bufs s b) = k) [0..<NBUF] of
        Some b \<Rightarrow> b_data (bufs s b)
      | None \<Rightarrow> disk s (unat k))"

definition dirty :: "'x kbio_scheme \<Rightarrow> u32 set" where
  "dirty s = {k. \<exists>b. caches b k s \<and> bdirty (bufs s b)}"

text \<open>The predicates depend on the cache's own variables only.\<close>

lemma cache_cong:
  assumes "bufs t = bufs s"
  shows "caches b k t = caches b k s" "dirty t = dirty s" "disk t = disk s \<Longrightarrow> content t = content s"
  by (auto simp: caches_def dirty_def content_def assms intro!: ext cong: option.case_cong)

lemma bcache_ok_cong:
  assumes "bufs t = bufs s" "sleeplocks t = sleeplocks s" "disk t = disk s" "disksize t = disksize s"
    and "pid (procs t p) = pid (procs s p)" "quiet (mach t) p = quiet (mach s) p"
  shows "bcache_ok p H t = bcache_ok p H s"
  by (simp add: bcache_ok_def caches_def assms)

lemma finite_dirty: "finite (dirty s)"
proof -
  have "dirty s \<subseteq> (\<lambda>b. b_blockno (bufs s b)) ` {..<NBUF}"
    by (auto simp: dirty_def caches_def)
  then show ?thesis
    by (rule finite_subset) simp
qed

lemma content_cached:
  assumes "bcache_ok p H s" "caches b k s"
  shows "content s k = b_data (bufs s b)"
proof -
  have "find (\<lambda>b. b_dev (bufs s b) = 1 \<and> b_blockno (bufs s b) = k) [0..<NBUF] \<noteq> None"
    using assms(2) by (auto simp: caches_def find_None_iff)
  then obtain c where c: "find (\<lambda>b. b_dev (bufs s b) = 1 \<and> b_blockno (bufs s b) = k) [0..<NBUF] = Some c"
    by auto
  then have "caches c k s"
    by (auto simp: find_Some_iff caches_def)
  then have "c = b"
    using assms unfolding bcache_ok_def by blast
  then show ?thesis
    using c by (simp add: content_def)
qed

lemma content_uncached: "(\<And>b. \<not> caches b k s) \<Longrightarrow> content s k = disk s (unat k)"
  by (auto simp: content_def caches_def find_Some_iff split: option.splits) blast

lemma bcache_okD:
  assumes "bcache_ok p H s"
  shows "quiet (mach s) p" "b \<in> H \<Longrightarrow> b < NBUF" "caches b k s \<Longrightarrow> caches c k s \<Longrightarrow> b = c"
    "b < NBUF \<Longrightarrow> buf_ok (pid (procs s p)) (b \<in> H) (disk s) (disksize s) (bufs s b) (sleeplocks s (SL_buf b))"
  using assms unfolding bcache_ok_def by blast+

lemma bcache_held:
  assumes "bcache_ok p H s" "b \<in> H"
  shows "sleep_mine (SL_buf b) p s" "b < NBUF" "b_dev (bufs s b) = 1" "bvalid (bufs s b)"
    "unat (b_blockno (bufs s b)) < disksize s" "b_refcnt (bufs s b) = 1" "caches b (b_blockno (bufs s b)) s"
  using bcache_okD(2,4) [OF assms(1), of b] assms(2) by (auto simp: buf_ok_def sleep_mine_def caches_def)

lemma bcache_free:
  assumes "bcache_ok p H s" "b < NBUF" "b \<notin> H"
  shows "\<not> sl_locked (sleeplocks s (SL_buf b))" "b_refcnt (bufs s b) = 0"
    "b_dev (bufs s b) = 1 \<Longrightarrow> bvalid (bufs s b)"
    "b_dev (bufs s b) = 1 \<Longrightarrow> \<not> bdirty (bufs s b) \<Longrightarrow> b_data (bufs s b) = disk s (unat (b_blockno (bufs s b)))"
  using bcache_okD(4) [OF assms(1), of b] assms(2,3) by (auto simp: buf_ok_def)

lemma content_held: "bcache_ok p H s \<Longrightarrow> b \<in> H \<Longrightarrow> content s (b_blockno (bufs s b)) = b_data (bufs s b)"
  using content_cached bcache_held(7) by blast

text \<open>
  A change of one buffer \<open>b\<close>: the list links stay, and the other buffers, the disk outside the buffer's block
  and the processes' numbers are as before. It keeps the invariant if the new buffer is right.
\<close>

lemma bcache_change:
  assumes ok: "bcache_ok p H s" and t: "mach t = mach s" "disksize t = disksize s" "pid (procs t p) = pid (procs s p)"
    and b: "b < NBUF"
    and links: "\<And>y. b_next (bufs t y) = b_next (bufs s y)" "\<And>y. b_prev (bufs t y) = b_prev (bufs s y)"
    and same: "\<And>c. c \<noteq> b \<Longrightarrow> c < NBUF \<Longrightarrow> bufs t c = bufs s c \<and> sleeplocks t (SL_buf c) = sleeplocks s (SL_buf c)"
    and H': "H' \<subseteq> insert b H" "H \<subseteq> insert b H'"
    and fresh: "\<And>c. c \<noteq> b \<Longrightarrow> c < NBUF \<Longrightarrow> b_dev (bufs t b) = 1 \<Longrightarrow> b_dev (bufs s c) = 1 \<Longrightarrow>
      b_blockno (bufs s c) \<noteq> b_blockno (bufs t b)"
    and dsk: "\<And>k. k \<noteq> unat (b_blockno (bufs t b)) \<or> b_dev (bufs t b) \<noteq> 1 \<Longrightarrow> disk t k = disk s k"
    and new: "buf_ok (pid (procs s p)) (b \<in> H') (disk t) (disksize s) (bufs t b) (sleeplocks t (SL_buf b))"
  shows "bcache_ok p H' t"
proof -
  have "buf_ok (pid (procs t p)) (c \<in> H') (disk t) (disksize t) (bufs t c) (sleeplocks t (SL_buf c))"
    if c: "c < NBUF" "c \<noteq> b" for c
  proof -
    have "disk t (unat (b_blockno (bufs s c))) = disk s (unat (b_blockno (bufs s c)))" if "b_dev (bufs s c) = 1"
      using fresh [OF c(2,1)] dsk that by (metis word_unat_eq_iff)
    moreover have "c \<in> H' \<longleftrightarrow> c \<in> H"
      using H' c(2) by auto
    ultimately show ?thesis
      using bcache_okD(4) [OF ok c(1)] same [OF c(2,1)] t unfolding buf_ok_def by auto
  qed
  then have all: "\<forall>c < NBUF. buf_ok (pid (procs t p)) (c \<in> H') (disk t) (disksize t) (bufs t c) (sleeplocks t (SL_buf c))"
    using new t by metis
  have other: "caches c k t \<longleftrightarrow> caches c k s" if "c \<noteq> b" for c k
    using that same unfolding caches_def by auto
  have "c = d" if "caches c k t" "caches d k t" for c d k
    using that other bcache_okD(3) [OF ok, of c k d] fresh same by (cases "c = b"; cases "d = b") (auto simp: caches_def)
  then show ?thesis
    using all ok t b H' links blist_links [of "bufs t" "bufs s"] unfolding bcache_ok_def by auto
qed

lemma bcache_uniq:
  assumes "bcache_ok p H s" "b < NBUF" "b_dev (bufs s b) = 1" "c \<noteq> b" "c < NBUF" "b_dev (bufs s c) = 1"
  shows "b_blockno (bufs s c) \<noteq> b_blockno (bufs s b)"
  using bcache_okD(3) [OF assms(1), of b "b_blockno (bufs s b)" c] assms(2-) by (auto simp: caches_def)

lemma content_eqI:
  assumes "bcache_ok p H t" "\<And>b. caches b k t \<Longrightarrow> b_data (bufs t b) = v"
    and "(\<And>b. \<not> caches b k t) \<Longrightarrow> disk t (unat k) = v"
  shows "content t k = v"
  using assms content_cached [OF assms(1)] content_uncached [of k t] by (cases "\<exists>b. caches b k t") auto

lemma dirty_eqI:
  assumes "\<And>c k. caches c k t \<and> bdirty (bufs t c) \<longleftrightarrow> caches c k s \<and> bdirty (bufs s c)"
  shows "dirty t = dirty s"
  using assms by (simp add: dirty_def)

subsection \<open>What the operations do to the cache\<close>

text \<open>
  \<open>cache_step s t\<close>: from \<open>s\<close> to \<open>t\<close> the blocks keep their contents, the same ones are dirty, nothing was
  written and nothing outside the cache changed.
\<close>

definition cache_step :: "'x kbio_scheme \<Rightarrow> 'x kbio_scheme \<Rightarrow> bool" where
  "cache_step s t \<longleftrightarrow> bio_frame s t \<and> content t = content s \<and> dirty t = dirty s
     \<and> disk t = disk s \<and> dwrites t = dwrites s"

lemma cache_step_refl [simp]: "cache_step s s"
  by (simp add: cache_step_def)

lemma cache_step_trans: "cache_step s t \<Longrightarrow> cache_step t u \<Longrightarrow> cache_step s u"
  using bio_frame_trans by (auto simp: cache_step_def)

lemma bread_hit:
  assumes ok: "bcache_ok p H s" and c: "caches b k s" and h: "b \<notin> H"
  shows "returns (bread 1 k s) (\<lambda>r t. r = b \<and> bcache_ok p (insert b H) t \<and> caches b k t
    \<and> (\<forall>c \<in> H. bufs t c = bufs s c) \<and> cache_step s t)"
proof -
  obtain xs where xs: "blist (bufs s) xs"
    using ok by (auto simp: bcache_ok_def)
  have b: "b < NBUF" and bd: "b_dev (bufs s b) = 1"
    using c by (simp_all add: caches_def)
  note f = bcache_free [OF ok b h] and q = bcache_okD(1) [OF ok]
  have "find (\<lambda>b. b_dev (bufs s b) = 1 \<and> b_blockno (bufs s b) = k) xs \<noteq> None"
    using c xs by (auto simp: find_None_iff blist_def caches_def)
  then obtain b' where b': "find (\<lambda>b. b_dev (bufs s b) = 1 \<and> b_blockno (bufs s b) = k) xs = Some b'"
    by auto
  then have "b' = b"
    using bcache_okD(3) [OF ok, of b' k b] c xs by (auto simp: find_Some_iff caches_def blist_def set_conv_nth)
  let ?t = "upd_sleep (SL_buf b) (taken (pid (procs s p))) (upd_buf b (\<lambda>x. x\<lparr>b_refcnt := b_refcnt x + 1\<rparr>) s)"
  have "bread 1 k s = Ret b ?t"
    using q f bd unfolding bread_def bget_eq [OF q xs] b' \<open>b' = b\<close>
    by (simp add: acquiresleep_free [of _ p] flag_tests bvalid_def)
  moreover have t: "bcache_ok p (insert b H) ?t"
    using bcache_okD(4) [OF ok b] bd f b bcache_uniq [OF ok b bd]
    by (intro bcache_change [OF ok]) (auto simp: buf_ok_def taken_def caches_def bvalid_def bdirty_def)
  moreover have ca: "caches c k' ?t \<longleftrightarrow> caches c k' s" for c k'
    by (simp add: caches_def)
  moreover have "content ?t k' = content s k'" for k'
    using ca content_cached [OF ok] content_uncached [of k' s] by (intro content_eqI [OF t]) auto
  moreover have "dirty ?t = dirty s"
    using ca by (intro dirty_eqI) (simp add: bdirty_def)
  ultimately show ?thesis
    using c h by (auto simp: cache_step_def)
qed


lemma bread_miss:
  assumes ok: "bcache_ok p H s" and c: "\<And>b. \<not> caches b k s" and k: "unat k < disksize s"
    and room: "b0 < NBUF" "b0 \<notin> H" "\<not> bdirty (bufs s b0)"
  shows "returns (bread 1 k s) (\<lambda>b t. b \<notin> H \<and> bcache_ok p (insert b H) t \<and> caches b k t
    \<and> (\<forall>c \<in> H. bufs t c = bufs s c) \<and> cache_step s t)"
proof -
  obtain xs where xs: "blist (bufs s) xs"
    using ok by (auto simp: bcache_ok_def)
  note q = bcache_okD(1) [OF ok]
  have n: "find (\<lambda>b. b_dev (bufs s b) = 1 \<and> b_blockno (bufs s b) = k) xs = None"
    using c xs by (auto simp: find_None_iff blist_def caches_def)
  have "find (\<lambda>b. b_refcnt (bufs s b) = 0 \<and> \<not> bdirty (bufs s b)) (rev xs) \<noteq> None"
    using xs room bcache_free(2) [OF ok room(1,2)] by (auto simp: find_None_iff blist_def)
  then obtain b where b: "find (\<lambda>b. b_refcnt (bufs s b) = 0 \<and> \<not> bdirty (bufs s b)) (rev xs) = Some b"
    by auto
  then have bn: "b < NBUF" "b_refcnt (bufs s b) = 0" and bd: "\<not> bdirty (bufs s b)"
    using xs nth_mem [of _ "rev xs"] by (auto simp: find_Some_iff blist_def)
  have h: "b \<notin> H"
    using bcache_held(6) [OF ok, of b] bn(2) by auto
  note f = bcache_free [OF ok bn(1) h]
  let ?g = "\<lambda>x. x\<lparr>b_dev := 1, b_blockno := k, b_flags := 0, b_refcnt := 1, b_data := disk s (unat k), b_flags := 2\<rparr>"
  let ?u = "upd_sleep (SL_buf b) (taken (pid (procs s p)))
    (upd_buf b (\<lambda>x. x\<lparr>b_dev := 1, b_blockno := k, b_flags := 0, b_refcnt := 1\<rparr>) s)"
  let ?t = "upd_sleep (SL_buf b) (taken (pid (procs s p))) (upd_buf b ?g s)"
  have "iderw b ?u = Ret () ?t"
    using k q by (subst iderw_read [of _ p])
      (simp_all add: sleep_mine_def taken_def bvalid_def bdirty_def upd_buf_def upd_sleep_def)
  then have "bread 1 k s = Ret b ?t"
    using q f unfolding bread_def bget_eq [OF q xs] n b by (simp add: acquiresleep_free [of _ p])
  moreover have t: "bcache_ok p (insert b H) ?t"
    using bn f k c
    by (intro bcache_change [OF ok, of _ b]) (auto simp: buf_ok_def taken_def caches_def bvalid_def bdirty_def)
  moreover have ca: "caches c k' ?t \<longleftrightarrow> (if c = b then k' = k else caches c k' s)" for c k'
    using bn by (auto simp: caches_def)
  moreover have "content ?t k' = content s k'" for k'
  proof (intro content_eqI [OF t])
    show "b_data (bufs ?t b') = content s k'" if "caches b' k' ?t" for b'
      using that ca [of b' k'] c content_uncached [of k s] content_cached [OF ok, of b' k']
      by (auto split: if_splits)
    show "disk ?t (unat k') = content s k'" if no: "\<And>b'. \<not> caches b' k' ?t"
    proof (rule content_eqI [OF ok, symmetric])
      fix b' assume a: "caches b' k' s"
      then have "b' = b"
        using no [of b'] ca [of b' k'] by (auto split: if_splits)
      then show "b_data (bufs s b') = disk ?t (unat k')"
        using a f(4) bd by (simp add: caches_def)
    qed simp
  qed
  moreover have "dirty ?t = dirty s"
    using ca bd by (intro dirty_eqI) (auto simp: bdirty_def)
  ultimately show ?thesis
    using h by (auto simp: cache_step_def)
qed

text \<open>There is a buffer to evict when the held and the dirty ones together are fewer than \<open>NBUF\<close>.\<close>

lemma bcache_room:
  assumes ok: "bcache_ok p H s" and n: "card H + card (dirty s) < NBUF"
  obtains b where "b < NBUF" "b \<notin> H" "\<not> bdirty (bufs s b)"
proof -
  let ?D = "{b. b < NBUF \<and> bdirty (bufs s b)}"
  have c: "caches b (b_blockno (bufs s b)) s" if "b \<in> ?D" for b
    using that bcache_okD(4) [OF ok, of b] by (simp add: buf_ok_def caches_def)
  have fin: "finite ?D" "finite H"
    using ok by (auto simp: bcache_ok_def intro: finite_subset)
  have d: "dirty s = (\<lambda>b. b_blockno (bufs s b)) ` ?D"
    using c by (auto simp: dirty_def caches_def)
  have "inj_on (\<lambda>b. b_blockno (bufs s b)) ?D"
    using bcache_okD(3) [OF ok] c by (metis (no_types, lifting) inj_onI)
  then have "card (dirty s) = card ?D"
    unfolding d by (rule card_image)
  then have "card (H \<union> ?D) < NBUF"
    using n card_Un_le [of H ?D] by simp
  then have "\<not> {..<NBUF} \<subseteq> H \<union> ?D"
    using fin card_mono [of "H \<union> ?D" "{..<NBUF}"] by auto
  then show ?thesis
    using that by auto
qed

lemma bread_law:
  assumes ok: "bcache_ok p H s" and h: "\<And>b. b \<in> H \<Longrightarrow> b_blockno (bufs s b) \<noteq> k"
    and k: "unat k < disksize s" and room: "k \<in> dirty s \<or> card H + card (dirty s) < NBUF"
  shows "returns (bread 1 k s) (\<lambda>b t. b \<notin> H \<and> bcache_ok p (insert b H) t \<and> caches b k t
    \<and> (\<forall>c \<in> H. bufs t c = bufs s c) \<and> cache_step s t)"
proof (cases "\<exists>b. caches b k s")
  case True
  then obtain b where b: "caches b k s"
    by auto
  then have "b \<notin> H"
    using h by (auto simp: caches_def)
  then show ?thesis
    using bread_hit [OF ok b] by (auto elim: returns_mono)
next
  case False
  then have "card H + card (dirty s) < NBUF"
    using room by (auto simp: dirty_def)
  then obtain b where "b < NBUF" "b \<notin> H" "\<not> bdirty (bufs s b)"
    using bcache_room [OF ok] by auto
  then show ?thesis
    using bread_miss [OF ok _ k] False by auto
qed

text \<open>Changing the data of a held buffer, and pinning it by setting its dirty flag.\<close>

definition set_data :: "nat \<Rightarrow> u8 list \<Rightarrow> 'x kbio_scheme \<Rightarrow> 'x kbio_scheme" where
  "set_data b d s = upd_buf b (\<lambda>x. x\<lparr>b_data := d\<rparr>) s"

definition pin :: "nat \<Rightarrow> 'x kbio_scheme \<Rightarrow> 'x kbio_scheme" where
  "pin b s = upd_buf b (\<lambda>x. x\<lparr>b_flags := b_flags x OR B_DIRTY\<rparr>) s"

lemma held_change:
  assumes ok: "bcache_ok p H s" and b: "b \<in> H"
    and f: "\<And>x. b_blockno (f x) = b_blockno x" "\<And>x. b_dev (f x) = b_dev x" "\<And>x. b_refcnt (f x) = b_refcnt x"
      "\<And>x. b_next (f x) = b_next x" "\<And>x. b_prev (f x) = b_prev x" "\<And>x. bvalid x \<Longrightarrow> bvalid (f x)"
  shows "bcache_ok p H (upd_buf b f s)" "caches c k (upd_buf b f s) = caches c k s"
    "content (upd_buf b f s) = (content s)(b_blockno (bufs s b) := b_data (f (bufs s b)))"
proof -
  note h = bcache_held [OF ok b]
  show t: "bcache_ok p H (upd_buf b f s)"
    using bcache_okD(4) [OF ok h(2)] h b bcache_uniq [OF ok h(2,3)] f
    by (intro bcache_change [OF ok]) (auto simp: buf_ok_def)
  show ca: "caches c k (upd_buf b f s) = caches c k s" for c k
    by (simp add: caches_def f)
  show "content (upd_buf b f s) = (content s)(b_blockno (bufs s b) := b_data (f (bufs s b)))"
  proof (rule ext, rule content_eqI [OF t])
    fix k c
    assume c: "caches c k (upd_buf b f s)"
    then show "b_data (bufs (upd_buf b f s) c) = ((content s)(b_blockno (bufs s b) := b_data (f (bufs s b)))) k"
      using ca content_cached [OF ok, of c k] bcache_okD(3) [OF ok, of b k c] h(7) by (auto simp: caches_def)
  next
    fix k
    assume n: "\<And>c. \<not> caches c k (upd_buf b f s)"
    then have "k \<noteq> b_blockno (bufs s b)"
      using ca h(7) by auto
    then show "disk (upd_buf b f s) (unat k) = ((content s)(b_blockno (bufs s b) := b_data (f (bufs s b)))) k"
      using n ca content_uncached [of k s] by auto
  qed
qed

lemma set_data_law:
  assumes "bcache_ok p H s" "b \<in> H"
  shows "bcache_ok p H (set_data b d s)" "caches c k (set_data b d s) = caches c k s"
    "content (set_data b d s) = (content s)(b_blockno (bufs s b) := d)" "dirty (set_data b d s) = dirty s"
    "disk (set_data b d s) = disk s" "dwrites (set_data b d s) = dwrites s" "bio_frame s (set_data b d s)"
    "b_data (bufs (set_data b d s) b) = d" "c \<noteq> b \<Longrightarrow> bufs (set_data b d s) c = bufs s c"
proof -
  show "bcache_ok p H (set_data b d s)" "caches c k (set_data b d s) = caches c k s"
    "content (set_data b d s) = (content s)(b_blockno (bufs s b) := d)"
    unfolding set_data_def using held_change [OF assms, of "\<lambda>x. x\<lparr>b_data := d\<rparr>"] by simp_all
  have "caches c k (set_data b d s) = caches c k s" for c k
    unfolding set_data_def using held_change(2) [OF assms, of "\<lambda>x. x\<lparr>b_data := d\<rparr>"] by simp
  then show "dirty (set_data b d s) = dirty s"
    by (intro dirty_eqI) (simp add: set_data_def)
qed (simp_all add: set_data_def)

lemma pin_law:
  assumes "bcache_ok p H s" "b \<in> H"
  shows "bcache_ok p H (pin b s)" "caches c k (pin b s) = caches c k s"
    "content (pin b s) = content s" "dirty (pin b s) = insert (b_blockno (bufs s b)) (dirty s)"
    "disk (pin b s) = disk s" "dwrites (pin b s) = dwrites s" "bio_frame s (pin b s)"
    "b_data (bufs (pin b s) c) = b_data (bufs s c)" "b_blockno (bufs (pin b s) c) = b_blockno (bufs s c)"
    "bdirty (bufs (pin b s) b)"
proof -
  let ?f = "\<lambda>x. x\<lparr>b_flags := b_flags x OR B_DIRTY\<rparr> :: buf"
  note l = held_change [OF assms, of ?f]
  show "bcache_ok p H (pin b s)" "caches c k (pin b s) = caches c k s"
    unfolding pin_def using l by simp_all
  show "content (pin b s) = content s"
    unfolding pin_def using l(3) content_held [OF assms] by auto
  have ca: "caches c k (pin b s) = caches c k s" for c k
    unfolding pin_def using l(2) by simp
  have "k \<in> dirty (pin b s) \<longleftrightarrow> k \<in> insert (b_blockno (bufs s b)) (dirty s)" for k
  proof -
    have "k \<in> dirty (pin b s) \<longleftrightarrow> (\<exists>c. caches c k s \<and> (c = b \<or> bdirty (bufs s c)))"
      unfolding dirty_def mem_Collect_eq ca by (auto simp: pin_def)
    then show ?thesis
      using bcache_held(7) [OF assms] by (auto simp: dirty_def caches_def)
  qed
  then show "dirty (pin b s) = insert (b_blockno (bufs s b)) (dirty s)"
    by blast
qed (simp_all add: pin_def)

definition written :: "nat \<Rightarrow> 'x kbio_scheme \<Rightarrow> 'x kbio_scheme" where
  "written b s =
     (upd_buf b (\<lambda>x. x\<lparr>b_flags := (b_flags x OR B_DIRTY) AND NOT B_DIRTY OR B_VALID\<rparr>) s)
       \<lparr>disk := (disk s)(unat (b_blockno (bufs s b)) := b_data (bufs s b)),
        dwrites := dwrites s @ [(unat (b_blockno (bufs s b)), b_data (bufs s b))]\<rparr>"

lemma bwrite_eq:
  assumes ok: "bcache_ok p H s" and b: "b \<in> H"
  shows "bwrite b s = Ret () (written b s)"
proof -
  note h = bcache_held [OF ok b] and q = bcache_okD(1) [OF ok]
  let ?u = "upd_buf b (\<lambda>x. x\<lparr>b_flags := b_flags x OR B_DIRTY\<rparr>) s"
  have "iderw b ?u = Ret () (written b s)"
    using h q by (subst iderw_dirty [of _ p]) (simp_all add: sleep_mine_def written_def upd_buf_def)
  then show ?thesis
    using h(1) by (simp add: bwrite_def holdingsleep_eq [OF q])
qed

lemma written_flags [simp]: "bvalid (x\<lparr>b_flags := w OR 2\<rparr>)" "\<not> bdirty (x\<lparr>b_flags := w AND - 5 OR 2\<rparr>)"
proof -
  have "bit (w AND NOT 4 OR 2 :: u32) 2 = False"
    by (simp only: bit_or_iff bit_and_iff bit_not_iff) simp
  then show "\<not> bdirty (x\<lparr>b_flags := w AND - 5 OR 2\<rparr>)"
    by (simp add: bdirty_def)
qed (simp add: bvalid_def bit_or_iff)

lemma written_sel [simp]:
  "bufs (written b s) c = (if c = b
     then (bufs s b)\<lparr>b_flags := (b_flags (bufs s b) OR B_DIRTY) AND NOT B_DIRTY OR B_VALID\<rparr> else bufs s c)"
  "mach (written b s) = mach s" "disksize (written b s) = disksize s" "procs (written b s) = procs s"
  "sleeplocks (written b s) = sleeplocks s"
  "disk (written b s) = (disk s)(unat (b_blockno (bufs s b)) := b_data (bufs s b))"
  "dwrites (written b s) = dwrites s @ [(unat (b_blockno (bufs s b)), b_data (bufs s b))]"
  by (simp_all add: written_def)

lemma bwrite_law:
  assumes ok: "bcache_ok p H s" and b: "b \<in> H"
  shows "bcache_ok p H (written b s)" "caches c k (written b s) = caches c k s"
    "content (written b s) = content s" "dirty (written b s) = dirty s - {b_blockno (bufs s b)}"
    "bio_frame s (written b s)"
    "b_data (bufs (written b s) c) = b_data (bufs s c)" "b_blockno (bufs (written b s) c) = b_blockno (bufs s c)"
proof -
  note h = bcache_held [OF ok b]
  show t: "bcache_ok p H (written b s)"
    using bcache_okD(4) [OF ok h(2)] h b bcache_uniq [OF ok h(2,3)]
    by (intro bcache_change [OF ok, of _ b]) (auto simp: buf_ok_def sleep_mine_def)
  show ca: "caches c k (written b s) = caches c k s" for c k
    by (simp add: caches_def)
  show "content (written b s) = content s"
  proof (rule ext, rule content_eqI [OF t])
    fix k
    assume n: "\<And>c. \<not> caches c k (written b s)"
    then have "k \<noteq> b_blockno (bufs s b)"
      using ca [of b k] h(7) by auto
    then have "unat k \<noteq> unat (b_blockno (bufs s b))"
      by (simp add: word_unat_eq_iff)
    then show "disk (written b s) (unat k) = content s k"
      using n ca content_uncached [of k s] by auto
  qed (use ca content_cached [OF ok] in auto)
  have "k \<in> dirty (written b s) \<longleftrightarrow> k \<in> dirty s \<and> k \<noteq> b_blockno (bufs s b)" for k
  proof -
    have "k \<in> dirty (written b s) \<longleftrightarrow> (\<exists>c. caches c k s \<and> c \<noteq> b \<and> bdirty (bufs s c))"
      unfolding dirty_def mem_Collect_eq ca by auto
    also have "\<dots> \<longleftrightarrow> (\<exists>c. caches c k s \<and> bdirty (bufs s c)) \<and> k \<noteq> b_blockno (bufs s b)"
      using h(7) bcache_okD(3) [OF ok, of b k] by (metis caches_def)
    finally show ?thesis
      by (simp add: dirty_def)
  qed
  then show "dirty (written b s) = dirty s - {b_blockno (bufs s b)}"
    by blast
qed (simp_all add: written_def)

lemma brelse_law:
  assumes ok: "bcache_ok p H s" and b: "b \<in> H"
    and clean: "b_blockno (bufs s b) \<in> dirty s \<or> b_data (bufs s b) = disk s (unat (b_blockno (bufs s b)))"
  shows "returns (brelse b s) (\<lambda>_ t. bcache_ok p (H - {b}) t \<and> cache_step s t
    \<and> (\<forall>c. b_blockno (bufs t c) = b_blockno (bufs s c) \<and> b_data (bufs t c) = b_data (bufs s c)) \<and> (\<forall>c k. caches c k t = caches c k s))"
proof -
  note h = bcache_held [OF ok b] and q = bcache_okD(1) [OF ok]
  obtain xs where xs: "blist (bufs s) xs"
    using ok by (auto simp: bcache_ok_def)
  let ?u = "upd_buf b (\<lambda>x. x\<lparr>b_refcnt := b_refcnt x - 1\<rparr>)
    (wakeup1 (Some (Ch_sleep (SL_buf b))) (upd_sleep (SL_buf b) dropped s))"
  let ?t = "?u\<lparr>bufs := touch b (bufs ?u)\<rparr>"
  have eq: "brelse b s = Ret () ?t"
    using h(6) by (simp only: brelse_eq [OF q h(1)] Let_def) simp
  have bd: "bdirty (bufs s b)" if "b_blockno (bufs s b) \<in> dirty s"
    using that bcache_okD(3) [OF ok, of b "b_blockno (bufs s b)"] h(7) by (auto simp: dirty_def)
  have u: "bcache_ok p (H - {b}) ?u"
    using bcache_okD(4) [OF ok h(2)] h b clean bd bcache_uniq [OF ok h(2,3)]
    by (intro bcache_change [OF ok, of _ b])
      (auto simp: buf_ok_def sleep_mine_def dropped_def bvalid_def bdirty_def same_procsD)
  have m: "same_meta (bufs ?t) (bufs ?u)"
    by (simp add: same_meta_touch)
  have ca: "caches c k ?t = caches c k ?u" "bdirty (bufs ?t c) = bdirty (bufs ?u c)"
      "bvalid (bufs ?t c) = bvalid (bufs ?u c)" for c k
    using m by (simp_all only: same_meta_def caches_def bdirty_def bvalid_def)
  obtain ys where "blist (bufs ?u) ys"
    using u by (auto simp: bcache_ok_def)
  then have "\<exists>xs. blist (bufs ?t) xs"
    using blist_touch [of "bufs ?u" ys b] h(2) by auto
  then have t: "bcache_ok p (H - {b}) ?t"
    using u m ca by (simp add: bcache_ok_def buf_ok_def same_meta_def del: fun_upd_apply)
  have cas: "caches c k ?u = caches c k s" "bdirty (bufs ?u c) = bdirty (bufs s c)" for c k
    by (simp_all add: caches_def bdirty_def)
  have "b_data (bufs ?t c) = b_data (bufs s c)" for c
    using m by (simp add: same_meta_def)
  then have "content ?t = content s"
    using ca cas content_cached [OF ok] content_uncached [of _ s] by (intro ext content_eqI [OF t]) auto
  moreover have "dirty ?t = dirty s"
    by (intro dirty_eqI) (simp only: ca cas)
  ultimately show ?thesis
    unfolding eq using t ca cas m by (simp add: cache_step_def same_meta_def)
qed

subsection \<open>The cache after boot\<close>

lemma upd_lock_bio [simp]:
  "bufs (initlock l nm s) = bufs s" "disk (initlock l nm s) = disk s" "disksize (initlock l nm s) = disksize s"
  "procs (initlock l nm s) = procs s" "sleeplocks (initlock l nm s) = sleeplocks s"
  "dwrites (initlock l nm s) = dwrites s"
  by (simp_all add: initlock_def upd_lock_def)

lemma binit_buf_sel:
  "bufs (binit_buf b s) =
     (let h = set_prev b NBUF (set_next b (b_next (bufs s NBUF)) (bufs s))
      in set_next NBUF b (set_prev (b_next (h NBUF)) b h))"
  "disk (binit_buf b s) = disk s" "disksize (binit_buf b s) = disksize s" "procs (binit_buf b s) = procs s"
  "dwrites (binit_buf b s) = dwrites s" "quiet (mach s) p \<Longrightarrow> quiet (mach (binit_buf b s)) p"
  "sleeplocks (binit_buf b s) = (sleeplocks s)(SL_buf b := (sleeplocks s (SL_buf b))
     \<lparr>sl_name := ''buffer'', sl_locked := False, sl_pid := 0\<rparr>)"
  by (simp_all add: binit_buf_def initsleeplock_def Let_def set_next_def set_prev_def)

definition bcache_fresh :: "nat \<Rightarrow> nat \<Rightarrow> 'x kbio_scheme \<Rightarrow> 'x kbio_scheme \<Rightarrow> bool" where
  "bcache_fresh p n s t \<longleftrightarrow> quiet (mach t) p \<and> seg (bufs t) NBUF (rev [0..<n]) NBUF \<and> same_meta (bufs t) (bufs s)
     \<and> (\<forall>b < n. \<not> sl_locked (sleeplocks t (SL_buf b))) \<and> disk t = disk s \<and> procs t = procs s
     \<and> disksize t = disksize s \<and> dwrites t = dwrites s"

lemma binit_buf_fresh:
  assumes "bcache_fresh p b s t" "b < NBUF"
  shows "bcache_fresh p (Suc b) s (binit_buf b t)"
proof -
  define h where "h = set_prev b NBUF (set_next b (b_next (bufs t NBUF)) (bufs t))"
  have "seg h NBUF (rev [0..<b]) NBUF"
    using assms unfolding h_def by (subst seg_cong [of _ _ _ "bufs t"]) (auto simp: bcache_fresh_def)
  then have "seg (set_next NBUF b (set_prev (b_next (h NBUF)) b h)) NBUF (b # rev [0..<b]) NBUF"
    using assms(2) by (intro seg_link) (auto simp: h_def)
  then have "seg (bufs (binit_buf b t)) NBUF (rev [0..<Suc b]) NBUF"
    by (simp add: binit_buf_sel(1) h_def Let_def)
  moreover have "same_meta (bufs (binit_buf b t)) (bufs s)"
    using assms(1) by (simp add: binit_buf_sel(1) Let_def bcache_fresh_def)
  ultimately show ?thesis
    using assms(1) by (auto simp: bcache_fresh_def binit_buf_sel(2-) less_Suc_eq)
qed

lemma binit_fresh:
  assumes "quiet (mach s) p"
  shows "bcache_fresh p NBUF s (binit s)"
proof -
  let ?s = "upd_buf NBUF (\<lambda>x. x\<lparr>b_next := NBUF\<rparr>) (upd_buf NBUF (\<lambda>x. x\<lparr>b_prev := NBUF\<rparr>) (initlock Lk_bcache ''bcache'' s))"
  have "bcache_fresh p n s (fold binit_buf [0..<n] ?s)" if "n \<le> NBUF" for n
    using that
  proof (induction n)
    case 0
    then show ?case
      using assms by (simp add: bcache_fresh_def same_meta_def)
  next
    case (Suc n)
    then show ?case
      using binit_buf_fresh [of p n s] by simp
  qed
  then show ?thesis
    by (simp add: binit_def Let_def)
qed

lemma binit_ok:
  assumes q: "quiet (mach s) p" and z: "\<And>b. b < NBUF \<Longrightarrow> b_flags (bufs s b) = 0 \<and> b_dev (bufs s b) = 0 \<and> b_refcnt (bufs s b) = 0"
  shows "bcache_ok p {} (binit s)" "blist (bufs (binit s)) (rev [0..<NBUF])" "content (binit s) k = disk s (unat k)"
    "dirty (binit s) = {}" "disk (binit s) = disk s" "disksize (binit s) = disksize s" "dwrites (binit s) = dwrites s"
proof -
  have f: "bcache_fresh p NBUF s (binit s)"
    using binit_fresh [OF q] .
  then show l: "blist (bufs (binit s)) (rev [0..<NBUF])"
    by (auto simp: blist_def bcache_fresh_def)
  have z': "b_flags (bufs (binit s) b) = 0 \<and> b_dev (bufs (binit s) b) = 0 \<and> b_refcnt (bufs (binit s) b) = 0" if "b < NBUF" for b
    using f z [OF that] by (simp add: bcache_fresh_def same_meta_def)
  then have "buf_ok n False D N (bufs (binit s) b) (sleeplocks (binit s) (SL_buf b))" if "b < NBUF" for b n D N
    using that f by (simp add: buf_ok_def bdirty_def bcache_fresh_def)
  moreover have c: "\<not> caches b k (binit s)" for b k
    using z' by (auto simp: caches_def)
  ultimately show "bcache_ok p {} (binit s)"
    using f l by (auto simp: bcache_ok_def bcache_fresh_def)
  show "content (binit s) k = disk s (unat k)" "dirty (binit s) = {}" "disk (binit s) = disk s"
      "disksize (binit s) = disksize s" "dwrites (binit s) = dwrites s"
    using c content_uncached [of k "binit s"] f by (auto simp: dirty_def bcache_fresh_def)
qed

subsection \<open>A concrete cache\<close>

text \<open>Process 0 runs, the buffers are zero as the loader left them, and the disk has 1000 blocks of zeros.\<close>

definition no_buf :: buf where
  "no_buf = \<lparr>b_flags = 0, b_dev = 0, b_blockno = 0, b_refcnt = 0, b_prev = 0, b_next = 0, b_data = replicate BSIZE 0\<rparr>"

definition bio0 :: kbio where
  "bio0 = ksleep.extend (kproc.extend proc0 (ksleep.fields (\<lambda>_. \<lparr>sl_locked = False, sl_name = [], sl_pid = 0\<rparr>)))
     (kbio.fields (\<lambda>_. no_buf) (\<lambda>_. replicate BSIZE 0) 1000 [])"

lemma mach_bio0 [simp]: "mach bio0 = user_machine"
  by (rule machine.equality)
    (simp_all add: bio0_def ksleep.defs kproc.defs kbio.defs proc0_def machine.defs user_machine_def)

lemma bio0_sel [simp]:
  "bufs bio0 = (\<lambda>_. no_buf)" "disk bio0 = (\<lambda>_. replicate BSIZE 0)" "disksize bio0 = 1000" "dwrites bio0 = []"
  "procs bio0 = procs proc0"
  by (simp_all add: bio0_def ksleep.defs kproc.defs kbio.defs)

lemma bio0_ok: "bcache_ok 0 {} (binit bio0)" "disksize (binit bio0) = 1000" "dirty (binit bio0) = {}"
    "disk (binit bio0) k = replicate BSIZE 0"
  using binit_ok [of bio0 0] by (simp_all add: no_buf_def)

subsection \<open>The contract of the cache\<close>

text \<open>
  What the layers above rely on. A thread holds a set of buffers; \<open>cont\<close> is the contents of a block as the
  thread sees it, \<open>drt\<close> the blocks whose contents are not yet on the disk, \<open>dsk\<close> the disk and \<open>hist\<close> the
  writes to it, and \<open>frame\<close> relates states that agree on everything that is not the cache's.
\<close>

locale block_cache =
  fixes ok :: "'b set \<Rightarrow> 's \<Rightarrow> bool"
    and rd :: "u32 \<Rightarrow> 's \<Rightarrow> ('b, 's) outcome"
    and wr :: "'b \<Rightarrow> 's \<Rightarrow> (unit, 's) outcome"
    and rl :: "'b \<Rightarrow> 's \<Rightarrow> (unit, 's) outcome"
    and put :: "'b \<Rightarrow> u8 list \<Rightarrow> 's \<Rightarrow> 's"
    and data :: "'s \<Rightarrow> 'b \<Rightarrow> u8 list"
    and blk :: "'s \<Rightarrow> 'b \<Rightarrow> u32"
    and cont :: "'s \<Rightarrow> u32 \<Rightarrow> u8 list"
    and drt :: "'s \<Rightarrow> u32 set"
    and dsk :: "'s \<Rightarrow> nat \<Rightarrow> u8 list"
    and hist :: "'s \<Rightarrow> (nat \<times> u8 list) list"
    and frame :: "'s \<Rightarrow> 's \<Rightarrow> bool"
    and blocks :: "'s \<Rightarrow> nat"
    and nbufs :: nat
  assumes held: "ok H s \<Longrightarrow> b \<in> H \<Longrightarrow> data s b = cont s (blk s b)"
    and clean: "ok {} s \<Longrightarrow> k \<notin> drt s \<Longrightarrow> cont s k = dsk s (unat k)"
    and rd: "ok H s \<Longrightarrow> (\<And>b. b \<in> H \<Longrightarrow> blk s b \<noteq> k) \<Longrightarrow> unat k < blocks s \<Longrightarrow>
      k \<in> drt s \<or> card H + card (drt s) < nbufs \<Longrightarrow>
      returns (rd k s) (\<lambda>b t. b \<notin> H \<and> ok (insert b H) t \<and> blk t b = k \<and> (\<forall>c \<in> H. blk t c = blk s c)
        \<and> cont t = cont s \<and> drt t = drt s \<and> dsk t = dsk s \<and> hist t = hist s \<and> frame s t)"
    and put: "ok H s \<Longrightarrow> b \<in> H \<Longrightarrow> ok H (put b d s) \<and> blk (put b d s) = blk s
        \<and> cont (put b d s) = (cont s)(blk s b := d) \<and> drt (put b d s) = drt s \<and> dsk (put b d s) = dsk s
        \<and> hist (put b d s) = hist s \<and> frame s (put b d s)"
    and wr: "ok H s \<Longrightarrow> b \<in> H \<Longrightarrow>
      returns (wr b s) (\<lambda>_ t. ok H t \<and> blk t = blk s \<and> cont t = cont s \<and> drt t = drt s - {blk s b}
        \<and> dsk t = (dsk s)(unat (blk s b) := cont s (blk s b))
        \<and> hist t = hist s @ [(unat (blk s b), cont s (blk s b))] \<and> frame s t)"
    and rl: "ok H s \<Longrightarrow> b \<in> H \<Longrightarrow> blk s b \<in> drt s \<or> cont s (blk s b) = dsk s (unat (blk s b)) \<Longrightarrow>
      returns (rl b s) (\<lambda>_ t. ok (H - {b}) t \<and> blk t = blk s \<and> cont t = cont s \<and> drt t = drt s
        \<and> dsk t = dsk s \<and> hist t = hist s \<and> frame s t)"
    and frame_refl: "frame s s"
    and frame_trans: "frame s t \<Longrightarrow> frame t u \<Longrightarrow> frame s u"
    and frame_blocks: "frame s t \<Longrightarrow> blocks t = blocks s"
begin

text \<open>Two blocks held at once: the first read leaves the second readable.\<close>

lemma read_two:
  assumes ok: "ok {} s" and ne: "a \<noteq> c" and N: "unat a < blocks s" "unat c < blocks s"
    and room: "a \<in> drt s \<or> card (drt s) < nbufs" "c \<in> drt s \<or> Suc (card (drt s)) < nbufs"
  shows "returns (rd a s) (\<lambda>x t. returns (rd c t) (\<lambda>y u. x \<noteq> y \<and> ok {x, y} u \<and> blk u x = a \<and> blk u y = c
    \<and> cont u = cont s \<and> drt u = drt s \<and> dsk u = dsk s \<and> hist u = hist s \<and> frame s u))"
proof -
  have "returns (rd a s) (\<lambda>x t. ok {x} t \<and> blk t x = a
      \<and> cont t = cont s \<and> drt t = drt s \<and> dsk t = dsk s \<and> hist t = hist s \<and> frame s t)"
    using rd [OF ok _ N(1)] room(1) by (auto elim: returns_mono)
  then show ?thesis
  proof (rule returns_mono)
    fix x t
    assume t: "ok {x} t \<and> blk t x = a \<and> cont t = cont s \<and> drt t = drt s \<and> dsk t = dsk s \<and> hist t = hist s \<and> frame s t"
    then have "returns (rd c t) (\<lambda>y u. y \<notin> {x} \<and> ok (insert y {x}) u \<and> blk u y = c \<and> (\<forall>b \<in> {x}. blk u b = blk t b)
        \<and> cont u = cont t \<and> drt u = drt t \<and> dsk u = dsk t \<and> hist u = hist t \<and> frame t u)"
      using ne N(2) room(2) frame_blocks [of s t] by (intro rd) auto
    then show "returns (rd c t) (\<lambda>y u. x \<noteq> y \<and> ok {x, y} u \<and> blk u x = a \<and> blk u y = c
        \<and> cont u = cont s \<and> drt u = drt s \<and> dsk u = dsk s \<and> hist u = hist s \<and> frame s u)"
      using t frame_trans by (auto elim!: returns_mono simp: insert_commute)
  qed
qed

text \<open>Both released again, the target after the source.\<close>

lemma write_and_release:
  assumes ok: "ok {x, y} s" and xy: "x \<noteq> y" "blk s x \<noteq> blk s y"
    and src: "blk s y \<in> drt s \<or> cont s (blk s y) = dsk s (unat (blk s y))"
  shows "returns (seq (wr x (put x (data s y) s)) (\<lambda>_ t. seq (rl y t) (\<lambda>_ t. rl x t))) (\<lambda>_ t. ok {} t \<and> frame s t
    \<and> cont t = (cont s)(blk s x := cont s (blk s y)) \<and> drt t = drt s - {blk s x}
    \<and> dsk t = (dsk s)(unat (blk s x) := cont s (blk s y)) \<and> hist t = hist s @ [(unat (blk s x), cont s (blk s y))])"
proof -
  let ?a = "blk s x" and ?d = "cont s (blk s y)" and ?u = "put x (data s y) s"
  have d: "data s y = ?d"
    using held [OF ok] by simp
  have ne: "unat (blk s y) \<noteq> unat ?a"
    using xy(2) by (simp add: word_unat_eq_iff)
  have u: "ok {x, y} ?u" "blk ?u = blk s" "cont ?u = (cont s)(?a := ?d)" "drt ?u = drt s" "dsk ?u = dsk s"
      "hist ?u = hist s" "frame s ?u"
    using put [OF ok, of x "data s y"] d by auto
  obtain v where v: "wr x ?u = Ret () v" "ok {x, y} v" "blk v = blk s" "cont v = (cont s)(?a := ?d)"
      "drt v = drt s - {?a}" "dsk v = (dsk s)(unat ?a := ?d)" "hist v = hist s @ [(unat ?a, ?d)]" "frame ?u v"
    using wr [OF u(1), of x] u by (auto elim!: returnsE)
  obtain w where w: "rl y v = Ret () w" "ok {x} w" "blk w = blk v" "cont w = cont v" "drt w = drt v"
      "dsk w = dsk v" "hist w = hist v" "frame v w"
  proof -
    have "blk v y \<in> drt v \<or> cont v (blk v y) = dsk v (unat (blk v y))"
      using v(3-6) src xy ne by auto
    then have "returns (rl y v) (\<lambda>_ t. ok ({x, y} - {y}) t \<and> blk t = blk v \<and> cont t = cont v \<and> drt t = drt v
        \<and> dsk t = dsk v \<and> hist t = hist v \<and> frame v t)"
      by (intro rl [OF v(2)]) auto
    then show thesis
      using that xy(1) by (auto elim!: returnsE simp: insert_Diff_if)
  qed
  have "returns (rl x w) (\<lambda>_ t. ok {} t \<and> blk t = blk w \<and> cont t = cont w \<and> drt t = drt w \<and> dsk t = dsk w
      \<and> hist t = hist w \<and> frame w t)"
    using rl [OF w(2), of x] v w by auto
  moreover have "frame s w"
    using u(7) v(8) w(8) frame_trans by blast
  ultimately show ?thesis
    unfolding v(1) w(1) seq.simps using v w frame_trans by (auto elim!: returns_mono)
qed

lemma copy_block:
  assumes ok: "ok {} s" and ne: "a \<noteq> c" and N: "unat a < blocks s" "unat c < blocks s"
    and room: "a \<in> drt s \<or> card (drt s) < nbufs" "c \<in> drt s \<or> Suc (card (drt s)) < nbufs"
  shows copy_to_first: "returns (seq (rd a s) (\<lambda>x s. seq (rd c s) (\<lambda>y s.
      let s = put x (data s y) s in seq (wr x s) (\<lambda>_ s. seq (rl y s) (\<lambda>_ s. rl x s)))))
     (\<lambda>_ t. ok {} t \<and> frame s t \<and> cont t = (cont s)(a := cont s c) \<and> drt t = drt s - {a}
       \<and> dsk t = (dsk s)(unat a := cont s c) \<and> hist t = hist s @ [(unat a, cont s c)])"
    and copy_to_second: "returns (seq (rd a s) (\<lambda>x s. seq (rd c s) (\<lambda>y s.
      let s = put y (data s x) s in seq (wr y s) (\<lambda>_ s. seq (rl x s) (\<lambda>_ s. rl y s)))))
     (\<lambda>_ t. ok {} t \<and> frame s t \<and> cont t = (cont s)(c := cont s a) \<and> drt t = drt s - {c}
       \<and> dsk t = (dsk s)(unat c := cont s a) \<and> hist t = hist s @ [(unat c, cont s a)])"
proof -
  have src: "k \<in> drt s \<or> cont s k = dsk s (unat k)" for k
    using clean [OF ok, of k] by blast
  note two = read_two [OF ok ne N room]
  show "returns (seq (rd a s) (\<lambda>x s. seq (rd c s) (\<lambda>y s.
      let s = put x (data s y) s in seq (wr x s) (\<lambda>_ s. seq (rl y s) (\<lambda>_ s. rl x s)))))
     (\<lambda>_ t. ok {} t \<and> frame s t \<and> cont t = (cont s)(a := cont s c) \<and> drt t = drt s - {a}
       \<and> dsk t = (dsk s)(unat a := cont s c) \<and> hist t = hist s @ [(unat a, cont s c)])"
    unfolding returns_seq [of "rd a s"] returns_seq [of "rd c _"]
  proof (rule returns_mono [OF two], erule returns_mono, goal_cases)
    case (1 x t y u)
    then show ?case
      using write_and_release [of x y u] src [of c] ne frame_trans [of s u]
      by (auto simp: Let_def elim!: returns_mono)
  qed
  show "returns (seq (rd a s) (\<lambda>x s. seq (rd c s) (\<lambda>y s.
      let s = put y (data s x) s in seq (wr y s) (\<lambda>_ s. seq (rl x s) (\<lambda>_ s. rl y s)))))
     (\<lambda>_ t. ok {} t \<and> frame s t \<and> cont t = (cont s)(c := cont s a) \<and> drt t = drt s - {c}
       \<and> dsk t = (dsk s)(unat c := cont s a) \<and> hist t = hist s @ [(unat c, cont s a)])"
    unfolding returns_seq [of "rd a s"] returns_seq [of "rd c _"]
  proof (rule returns_mono [OF two], erule returns_mono, goal_cases)
    case (1 x t y u)
    then show ?case
      using write_and_release [of y x u] src [of a] ne frame_trans [of s u]
      by (auto simp: Let_def insert_commute elim!: returns_mono)
  qed
qed

end

interpretation bc: block_cache "bcache_ok p" "bread 1" bwrite brelse set_data "\<lambda>s b. b_data (bufs s b)"
    "\<lambda>s b. b_blockno (bufs s b)" content dirty disk dwrites bio_frame disksize NBUF for p
proof unfold_locales
  fix H :: "nat set" and s :: "'a kbio_scheme" and b k d
  assume ok: "bcache_ok p H s"
  show "b_data (bufs s b) = content s (b_blockno (bufs s b))" if "b \<in> H"
    using content_held [OF ok that] by simp
  show "returns (bread 1 k s) (\<lambda>b t. b \<notin> H \<and> bcache_ok p (insert b H) t \<and> b_blockno (bufs t b) = k
      \<and> (\<forall>c \<in> H. b_blockno (bufs t c) = b_blockno (bufs s c)) \<and> content t = content s \<and> dirty t = dirty s
      \<and> disk t = disk s \<and> dwrites t = dwrites s \<and> bio_frame s t)"
    if "\<And>b. b \<in> H \<Longrightarrow> b_blockno (bufs s b) \<noteq> k" "unat k < disksize s" "k \<in> dirty s \<or> card H + card (dirty s) < NBUF"
    using bread_law [OF ok that] by (auto simp: cache_step_def caches_def elim!: returns_mono)
  show "bcache_ok p H (set_data b d s) \<and> (\<lambda>c. b_blockno (bufs (set_data b d s) c)) = (\<lambda>c. b_blockno (bufs s c))
      \<and> content (set_data b d s) = (content s)(b_blockno (bufs s b) := d) \<and> dirty (set_data b d s) = dirty s
      \<and> disk (set_data b d s) = disk s \<and> dwrites (set_data b d s) = dwrites s \<and> bio_frame s (set_data b d s)"
    if "b \<in> H"
    using set_data_law [OF ok that] by (auto simp: set_data_def)
  show "returns (bwrite b s) (\<lambda>_ t. bcache_ok p H t \<and> (\<lambda>c. b_blockno (bufs t c)) = (\<lambda>c. b_blockno (bufs s c))
      \<and> content t = content s \<and> dirty t = dirty s - {b_blockno (bufs s b)}
      \<and> disk t = (disk s)(unat (b_blockno (bufs s b)) := content s (b_blockno (bufs s b)))
      \<and> dwrites t = dwrites s @ [(unat (b_blockno (bufs s b)), content s (b_blockno (bufs s b)))] \<and> bio_frame s t)"
    if "b \<in> H"
    using bwrite_law [OF ok that] content_held [OF ok that] by (auto simp: bwrite_eq [OF ok that])
  show "returns (brelse b s) (\<lambda>_ t. bcache_ok p (H - {b}) t \<and> (\<lambda>c. b_blockno (bufs t c)) = (\<lambda>c. b_blockno (bufs s c))
      \<and> content t = content s \<and> dirty t = dirty s \<and> disk t = disk s \<and> dwrites t = dwrites s \<and> bio_frame s t)"
    if "b \<in> H" "b_blockno (bufs s b) \<in> dirty s
      \<or> content s (b_blockno (bufs s b)) = disk s (unat (b_blockno (bufs s b)))"
    using brelse_law [OF ok that(1)] that(2) content_held [OF ok that(1)]
    by (auto simp: cache_step_def elim!: returns_mono)
next
  fix s :: "'a kbio_scheme" and k
  assume ok: "bcache_ok p {} s" and k: "k \<notin> dirty s"
  show "content s k = disk s (unat k)"
    using bcache_free(4) [OF ok] k by (intro content_eqI [OF ok]) (auto simp: dirty_def caches_def)
qed (auto intro: bio_frame_trans dest: bio_frameD)

subsection \<open>One block at a time\<close>

text \<open>\<open>wrote ws s t\<close>: between \<open>s\<close> and \<open>t\<close> the disk writes were \<open>ws\<close>, and nothing outside the cache changed.\<close>

definition wrote :: "(u32 \<times> u8 list) list \<Rightarrow> 'x kbio_scheme \<Rightarrow> 'x kbio_scheme \<Rightarrow> bool" where
  "wrote ws s t \<longleftrightarrow> bio_frame s t \<and> content t = upds ws (content s) \<and> dirty t = dirty s - fst ` set ws
     \<and> disk t = upds (map (apfst unat) ws) (disk s) \<and> dwrites t = dwrites s @ map (apfst unat) ws"

lemma wrote_nil [simp]: "wrote [] s s"
  by (simp add: wrote_def)

lemma wrote_snoc:
  assumes "wrote ws s t" "bio_frame t u" "content u = (content t)(k := d)" "dirty u = dirty t - {k}"
    and "disk u = (disk t)(unat k := d)" "dwrites u = dwrites t @ [(unat k, d)]"
  shows "wrote (ws @ [(k, d)]) s u"
  using assms bio_frame_trans [of s t u] by (auto simp: wrote_def)

text \<open>\<open>editing p b k d s t\<close>: since \<open>s\<close> the thread has read block \<open>k\<close> into buffer \<open>b\<close>, which it holds with data \<open>d\<close>.\<close>

definition editing :: "nat \<Rightarrow> nat \<Rightarrow> u32 \<Rightarrow> u8 list \<Rightarrow> 'x kbio_scheme \<Rightarrow> 'x kbio_scheme \<Rightarrow> bool" where
  "editing p b k d s t \<longleftrightarrow> bcache_ok p {b} t \<and> b_blockno (bufs t b) = k \<and> b_data (bufs t b) = d \<and> bio_frame s t
     \<and> content t = (content s)(k := d) \<and> dirty t = dirty s \<and> disk t = disk s \<and> dwrites t = dwrites s"

lemma editing_set_data:
  assumes "editing p b k d s t"
  shows "editing p b k d' s (set_data b d' t)"
proof -
  have ok: "bcache_ok p {b} t" "b \<in> {b}"
    using assms by (simp_all add: editing_def)
  show ?thesis
    using set_data_law [OF ok] assms bio_frame_trans [of s t]
    by (auto simp: editing_def set_data_def)
qed

lemma editing_start:
  assumes "bcache_ok p {} s" "unat k < disksize s" "k \<in> dirty s \<or> card (dirty s) < NBUF"
  shows "returns (bread 1 k s) (\<lambda>b t. editing p b k (content s k) s t)"
proof -
  have "returns (bread 1 k s) (\<lambda>b t. bcache_ok p {b} t \<and> caches b k t \<and> cache_step s t)"
    using bread_law [OF assms(1) _ assms(2)] assms(3) by (auto elim!: returns_mono)
  then show ?thesis
  proof (rule returns_mono)
    fix b t
    assume t: "bcache_ok p {b} t \<and> caches b k t \<and> cache_step s t"
    then have "content t k = b_data (bufs t b)"
      using content_cached by blast
    then show "editing p b k (content s k) s t"
      using t by (auto simp: editing_def cache_step_def caches_def)
  qed
qed

lemma editing_write:
  assumes "editing p b k d s t"
  shows "returns (seq (bwrite b t) (\<lambda>_ u. brelse b u)) (\<lambda>_ u. bcache_ok p {} u \<and> wrote [(k, d)] s u)"
proof -
  have ok: "bcache_ok p {b} t" "b \<in> {b}" and k: "b_blockno (bufs t b) = k"
    using assms by (simp_all add: editing_def)
  note w = bwrite_law [OF ok]
  have c: "content t k = d"
    using assms by (simp add: editing_def)
  have "returns (brelse b (written b t)) (\<lambda>_ u. bcache_ok p ({b} - {b}) u \<and> cache_step (written b t) u)"
    using brelse_law [OF w(1) ok(2)] k by (auto elim!: returns_mono)
  then show ?thesis
  proof (simp add: bwrite_eq [OF ok], elim returns_mono, goal_cases)
    case (1 r u)
    then show ?case
      using w assms c k bio_frame_trans [of s t "written b t"] bio_frame_trans [of s "written b t" u]
      by (auto simp: wrote_def cache_step_def editing_def)
  qed
qed

lemma editing_drop:
  assumes "editing p b k d s t" "d = content s k" "k \<in> dirty s \<or> d = disk s (unat k)"
  shows "returns (brelse b t) (\<lambda>_ u. bcache_ok p {} u \<and> cache_step s u)"
proof -
  have ok: "bcache_ok p {b} t" "b \<in> {b}"
    using assms(1) by (simp_all add: editing_def)
  have "returns (brelse b t) (\<lambda>_ u. bcache_ok p ({b} - {b}) u \<and> cache_step t u)"
    using brelse_law [OF ok] assms by (auto simp: editing_def elim!: returns_mono)
  moreover have "cache_step s t"
    using assms by (simp add: editing_def cache_step_def)
  ultimately show ?thesis
    using cache_step_trans by (auto elim!: returns_mono)
qed

subsection \<open>Properties\<close>

text \<open>C22 (bio.c \<^verbatim>\<open>bread\<close>, \<^verbatim>\<open>bget\<close>): reading a block gives its contents. When the thread does not hold the block yet and the
  held and dirty buffers leave room, \<^verbatim>\<open>bread\<close> returns a locked buffer with the block's contents, the only one for that
  block; no block changes its contents, none is written, and the buffers already held stay as they are.\<close>

theorem bread_returns_contents:
  assumes "bcache_ok p H s" "\<And>b. b \<in> H \<Longrightarrow> b_blockno (bufs s b) \<noteq> k" "unat k < disksize s"
    and "k \<in> dirty s \<or> card H + card (dirty s) < NBUF"
  shows "returns (bread 1 k s) (\<lambda>b t. b \<notin> H \<and> bcache_ok p (insert b H) t \<and> caches b k t
    \<and> b_data (bufs t b) = content s k \<and> (\<forall>c \<in> H. bufs t c = bufs s c)
    \<and> content t = content s \<and> dirty t = dirty s \<and> disk t = disk s)"
proof (rule returns_mono [OF bread_law [OF assms]])
  fix b t
  assume t: "b \<notin> H \<and> bcache_ok p (insert b H) t \<and> caches b k t \<and> (\<forall>c \<in> H. bufs t c = bufs s c) \<and> cache_step s t"
  then have "content t k = b_data (bufs t b)"
    using content_cached [of p "insert b H" t b k] by simp
  then show "b \<notin> H \<and> bcache_ok p (insert b H) t \<and> caches b k t \<and> b_data (bufs t b) = content s k
      \<and> (\<forall>c \<in> H. bufs t c = bufs s c) \<and> content t = content s \<and> dirty t = dirty s \<and> disk t = disk s"
    using t by (simp add: cache_step_def)
qed

theorem bread_returns_contents_witness:
  "returns (bread 1 7 (binit bio0)) (\<lambda>b t. caches b 7 t \<and> b_data (bufs t b) = replicate BSIZE 0 \<and> bcache_ok 0 {b} t)"
  using bread_returns_contents [OF bio0_ok(1), of 7] bio0_ok(2-) bc.clean [OF bio0_ok(1), of 7]
  by (auto elim!: returnsE)

text \<open>C4 (bio.c \<^verbatim>\<open>bread\<close>, \<^verbatim>\<open>bwrite\<close>, \<^verbatim>\<open>brelse\<close>): what is written is read back. A block that is read, overwritten, written and
  released is on the disk; the next \<^verbatim>\<open>bread\<close> of it, from the cache or from the disk, gives the new contents, and every
  other block gives its old ones.\<close>

theorem write_then_read_back:
  assumes "bcache_ok p {} s" "unat k < disksize s" "card (dirty s) < NBUF"
  shows "returns (seq (bread 1 k s) (\<lambda>b s. seq (bwrite b (set_data b d s)) (\<lambda>_ s. brelse b s)))
    (\<lambda>_ t. disk t = (disk s)(unat k := d) \<and> content t = (content s)(k := d)
      \<and> (\<forall>j. unat j < disksize s \<longrightarrow>
          returns (bread 1 j t) (\<lambda>b u. b_data (bufs u b) = (if j = k then d else content s j))))"
proof -
  obtain b t where t: "bread 1 k s = Ret b t" "editing p b k (content s k) s t"
    using editing_start [OF assms(1,2)] assms(3) by (auto elim!: returnsE)
  obtain u where u: "seq (bwrite b (set_data b d t)) (\<lambda>_ s. brelse b s) = Ret () u" "bcache_ok p {} u" "wrote [(k, d)] s u"
    using editing_write [OF editing_set_data [OF t(2)]] by (auto elim!: returns_unitE)
  have "returns (bread 1 j u) (\<lambda>b v. b_data (bufs v b) = (if j = k then d else content s j))" if j: "unat j < disksize s" for j
  proof -
    have "bio_frame s u"
      using u(3) by (simp add: wrote_def)
    then have "unat j < disksize u"
      using j by (simp add: bio_frameD(3))
    moreover have "card (dirty u) \<le> card (dirty s)"
      using u(3) finite_dirty [of s] by (simp add: wrote_def card_mono)
    ultimately have "returns (bread 1 j u) (\<lambda>b v. editing p b j (content u j) u v)"
      using assms(3) by (intro editing_start [OF u(2)]) auto
    then show ?thesis
      using u(3) by (elim returns_mono) (simp add: editing_def wrote_def)
  qed
  then show ?thesis
    using t(1) u by (simp add: wrote_def)
qed

theorem write_then_read_back_witness:
  "returns (seq (bread 1 7 (binit bio0)) (\<lambda>b s. seq (bwrite b (set_data b (replicate BSIZE 9) s)) (\<lambda>_ s. brelse b s)))
    (\<lambda>_ t. disk t 7 = replicate BSIZE 9 \<and> returns (bread 1 8 t) (\<lambda>b u. b_data (bufs u b) = replicate BSIZE 0))"
  using write_then_read_back [OF bio0_ok(1), of 7 "replicate BSIZE 9"] bio0_ok(2-) bc.clean [OF bio0_ok(1), of 8]
  by (auto elim!: returnsE dest: spec [of _ 8])

text \<open>C23 (bio.c \<^verbatim>\<open>bget\<close>, \<^verbatim>\<open>brelse\<close>): buffers are recycled in least-recently-used order. A block that is not cached takes the last
  buffer of the list that is unreferenced and not dirty, and a released buffer goes to the front of the list; if every buffer
  is referenced or dirty, \<^verbatim>\<open>bget\<close> panics.\<close>

theorem buffers_recycled_lru:
  assumes "quiet (mach s) p" "blist (bufs s) xs" "\<And>b. b < NBUF \<Longrightarrow> \<not> (b_dev (bufs s b) = dev \<and> b_blockno (bufs s b) = k)"
  shows "(\<forall>us b vs. xs = us @ b # vs \<and> b_refcnt (bufs s b) = 0 \<and> \<not> bdirty (bufs s b) \<and> \<not> sl_locked (sleeplocks s (SL_buf b))
        \<and> (\<forall>c \<in> set vs. b_refcnt (bufs s c) \<noteq> 0 \<or> bdirty (bufs s c)) \<longrightarrow>
      returns (bget dev k s) (\<lambda>r t. r = b \<and> b_dev (bufs t b) = dev \<and> b_blockno (bufs t b) = k \<and> b_refcnt (bufs t b) = 1))
    \<and> ((\<forall>b < NBUF. b_refcnt (bufs s b) \<noteq> 0 \<or> bdirty (bufs s b)) \<longrightarrow> bget dev k s = Panic ''bget: no buffers'')
    \<and> (\<forall>b < NBUF. sleep_mine (SL_buf b) p s \<and> b_refcnt (bufs s b) = 1 \<longrightarrow>
        returns (brelse b s) (\<lambda>_ t. blist (bufs t) (b # remove1 b xs)))"
proof (intro conjI allI impI)
  have none: "find (\<lambda>b. b_dev (bufs s b) = dev \<and> b_blockno (bufs s b) = k) xs = None"
    using assms(2,3) by (auto simp: find_None_iff blist_def)
  {
    fix us b vs
    assume b: "xs = us @ b # vs \<and> b_refcnt (bufs s b) = 0 \<and> \<not> bdirty (bufs s b) \<and> \<not> sl_locked (sleeplocks s (SL_buf b))
        \<and> (\<forall>c \<in> set vs. b_refcnt (bufs s c) \<noteq> 0 \<or> bdirty (bufs s c))"
    then have "find (\<lambda>b. b_refcnt (bufs s b) = 0 \<and> \<not> bdirty (bufs s b)) (rev vs) = None"
      by (auto simp: find_None_iff)
    then have "find (\<lambda>b. b_refcnt (bufs s b) = 0 \<and> \<not> bdirty (bufs s b)) (rev xs) = Some b"
      using b by (simp add: find_append)
    then show "returns (bget dev k s) (\<lambda>r t. r = b \<and> b_dev (bufs t b) = dev \<and> b_blockno (bufs t b) = k \<and> b_refcnt (bufs t b) = 1)"
      using b none assms(1) by (simp add: bget_eq [OF assms(1,2)] acquiresleep_free [of _ p])
  }
  assume "\<forall>b < NBUF. b_refcnt (bufs s b) \<noteq> 0 \<or> bdirty (bufs s b)"
  then have "find (\<lambda>b. b_refcnt (bufs s b) = 0 \<and> \<not> bdirty (bufs s b)) (rev xs) = None"
    using assms(2) by (auto simp: find_None_iff blist_def)
  then show "bget dev k s = Panic ''bget: no buffers''"
    using none by (simp add: bget_eq [OF assms(1,2)])
next
  fix b
  assume b: "b < NBUF" "sleep_mine (SL_buf b) p s \<and> b_refcnt (bufs s b) = 1"
  let ?f = "(bufs s)(b := (bufs s b)\<lparr>b_refcnt := b_refcnt (bufs s b) - 1\<rparr>)"
  have "blist ?f xs"
    using assms(2) by (subst blist_links [of _ "bufs s"]) auto
  then have "blist (touch b ?f) (b # remove1 b xs)"
    using b(1) by (rule blist_touch)
  then show "returns (brelse b s) (\<lambda>_ t. blist (bufs t) (b # remove1 b xs))"
    using b(2) by (simp add: brelse_eq [OF assms(1)] Let_def)
qed

theorem buffers_recycled_lru_witness:
  "returns (bget 1 7 (binit bio0)) (\<lambda>r t. r = 0 \<and> b_blockno (bufs t 0) = 7)"
proof -
  have b: "blist (bufs (binit bio0)) (rev [0..<NBUF])" and f: "bcache_fresh 0 NBUF bio0 (binit bio0)"
    using binit_ok(2) [of bio0 0] binit_fresh [of bio0 0] by (simp_all add: no_buf_def)
  then have m: "b_dev (bufs (binit bio0) c) = 0" "b_refcnt (bufs (binit bio0) c) = 0" "b_flags (bufs (binit bio0) c) = 0" for c
    by (simp_all add: bcache_fresh_def same_meta_def no_buf_def)
  have "rev [0..<NBUF] = rev [1..<NBUF] @ 0 # []"
    by (simp add: upt_conv_Cons)
  then show ?thesis
    using buffers_recycled_lru [OF _ b, of 0 1 7, THEN conjunct1, rule_format, of "rev [1..<NBUF]" 0 "[]"] f m
    by (auto simp: bcache_fresh_def bdirty_def elim!: returns_mono)
qed

end
