(* ===== verification/Log.thy ===== *)
theory Log
  imports Bio
begin

section \<open>The write-ahead log (log.c)\<close>

text \<open>
  File-system calls bracket their updates with \<^verbatim>\<open>begin_op\<close> and \<^verbatim>\<open>end_op\<close>; blocks they change are recorded by
  \<^verbatim>\<open>log_write\<close> and stay in the cache until the last call ends and \<^verbatim>\<open>commit\<close> writes them to the log, then the
  header, then to their places. The theorems here follow the sequence of disk writes: after a crash between any
  two of them, \<^verbatim>\<open>recover_from_log\<close> leaves on the disk all of the transaction or nothing of it.
\<close>

abbreviation (input) LOGSIZE :: nat where "LOGSIZE \<equiv> 30"
abbreviation (input) MAXOPBLOCKS :: int where "MAXOPBLOCKS \<equiv> 10"

record superblock =
  sb_size :: u32
  sb_nblocks :: u32
  sb_ninodes :: u32
  sb_nlog :: u32
  sb_logstart :: u32
  sb_inodestart :: u32
  sb_bmapstart :: u32

text \<open>\<open>lh_n\<close> and \<open>lh_block\<close> are the header \<^verbatim>\<open>log.lh\<close> in memory.\<close>

record kjournal = kbio +
  log_start :: u32
  log_size :: int
  log_outstanding :: int
  log_committing :: bool
  log_dev :: u32
  lh_n :: int
  lh_block :: "nat \<Rightarrow> u32"

lemma kjournal_mach [simp]:
  "mach (s\<lparr>log_start := x0\<rparr>) = mach s"
  "mach (s\<lparr>log_size := x1\<rparr>) = mach s"
  "mach (s\<lparr>log_outstanding := x2\<rparr>) = mach s"
  "mach (s\<lparr>log_committing := x3\<rparr>) = mach s"
  "mach (s\<lparr>log_dev := x4\<rparr>) = mach s" "mach (s\<lparr>lh_n := x5\<rparr>) = mach s"
  "mach (s\<lparr>lh_block := x6\<rparr>) = mach s"
  by (rule machine.equality; simp)+

lemma kjournal_set_mach [simp]:
  "log_start (set_mach m s) = log_start s" "log_size (set_mach m s) = log_size s"
  "log_outstanding (set_mach m s) = log_outstanding s"
  "log_committing (set_mach m s) = log_committing s" "log_dev (set_mach m s) = log_dev s"
  "lh_n (set_mach m s) = lh_n s" "lh_block (set_mach m s) = lh_block s"
  "set_mach m (s\<lparr>log_start := x0\<rparr>) = (set_mach m s)\<lparr>log_start := x0\<rparr>"
  "set_mach m (s\<lparr>log_size := x1\<rparr>) = (set_mach m s)\<lparr>log_size := x1\<rparr>"
  "set_mach m (s\<lparr>log_outstanding := x2\<rparr>) = (set_mach m s)\<lparr>log_outstanding := x2\<rparr>"
  "set_mach m (s\<lparr>log_committing := x3\<rparr>) = (set_mach m s)\<lparr>log_committing := x3\<rparr>"
  "set_mach m (s\<lparr>log_dev := x4\<rparr>) = (set_mach m s)\<lparr>log_dev := x4\<rparr>"
  "set_mach m (s\<lparr>lh_n := x5\<rparr>) = (set_mach m s)\<lparr>lh_n := x5\<rparr>"
  "set_mach m (s\<lparr>lh_block := x6\<rparr>) = (set_mach m s)\<lparr>lh_block := x6\<rparr>"
  by (cases s; cases m; simp add: set_mach_def machine.defs)+


definition superblock_of :: "u8 list \<Rightarrow> superblock" where
  "superblock_of d =
     \<lparr>sb_size = get32 d 0, sb_nblocks = get32 d 4, sb_ninodes = get32 d 8, sb_nlog = get32 d 12,
      sb_logstart = get32 d 16, sb_inodestart = get32 d 20, sb_bmapstart = get32 d 24\<rparr>"

definition readsb :: "u32 \<Rightarrow> 'x kbio_scheme \<Rightarrow> (superblock, 'x kbio_scheme) outcome" where
  "readsb dev s =
     seq (bread dev 1 s) (\<lambda>bp s.
     let sb = superblock_of (b_data (bufs s bp)) in
     seq (brelse bp s) (\<lambda>_ s. Ret sb s))"

text \<open>The data of a buffer is an array of \<open>BSIZE\<close> bytes, so a move of \<open>BSIZE\<close> bytes replaces it.\<close>

definition install_trans :: "'x kjournal_scheme \<Rightarrow> (unit, 'x kjournal_scheme) outcome" where
  "install_trans s =
     for_each [0..<nat (lh_n s)] (\<lambda>tail s.
       seq (bread (log_dev s) (log_start s + word_of_nat tail + 1) s) (\<lambda>lbuf s.
       seq (bread (log_dev s) (lh_block s tail) s) (\<lambda>dbuf s.
       let s = set_data dbuf (b_data (bufs s lbuf)) s in
       seq (bwrite dbuf s) (\<lambda>_ s.
       seq (brelse lbuf s) (\<lambda>_ s. brelse dbuf s))))) s"

definition read_head :: "'x kjournal_scheme \<Rightarrow> (unit, 'x kjournal_scheme) outcome" where
  "read_head s =
     seq (bread (log_dev s) (log_start s) s) (\<lambda>buf s.
     let lh = b_data (bufs s buf); s = s\<lparr>lh_n := sint (get32 lh 0)\<rparr> in
     seq (for_each [0..<nat (lh_n s)] (\<lambda>i s.
            if i \<ge> LOGSIZE then Fault ''log.lh.block[i]''
            else Ret () (s\<lparr>lh_block := (lh_block s)(i := get32 lh (4 + 4 * i))\<rparr>)) s) (\<lambda>_ s.
     brelse buf s))"

definition write_head :: "'x kjournal_scheme \<Rightarrow> (unit, 'x kjournal_scheme) outcome" where
  "write_head s =
     seq (bread (log_dev s) (log_start s) s) (\<lambda>buf s.
     let s = set_data buf (put32 (b_data (bufs s buf)) 0 (word_of_int (lh_n s))) s in
     seq (for_each [0..<nat (lh_n s)] (\<lambda>i s.
            if i \<ge> LOGSIZE then Fault ''hb->block[i]''
            else Ret () (set_data buf (put32 (b_data (bufs s buf)) (4 + 4 * i) (lh_block s i)) s)) s) (\<lambda>_ s.
     seq (bwrite buf s) (\<lambda>_ s. brelse buf s)))"

definition recover_from_log :: "'x kjournal_scheme \<Rightarrow> (unit, 'x kjournal_scheme) outcome" where
  "recover_from_log s =
     seq (read_head s) (\<lambda>_ s.
     seq (install_trans s) (\<lambda>_ s.
     write_head (s\<lparr>lh_n := 0\<rparr>)))"

text \<open>The header takes \<open>4 * (LOGSIZE + 1)\<close> bytes.\<close>

definition initlog :: "u32 \<Rightarrow> 'x kjournal_scheme \<Rightarrow> (unit, 'x kjournal_scheme) outcome" where
  "initlog dev s =
     (if 4 * (LOGSIZE + 1) \<ge> BSIZE then Panic ''initlog: too big logheader''
      else let s = initlock Lk_log ''log'' s in
           seq (readsb dev s) (\<lambda>sb s.
           let s = s\<lparr>log_start := sb_logstart sb\<rparr>;
               s = s\<lparr>log_size := sint (sb_nlog sb)\<rparr>;
               s = s\<lparr>log_dev := dev\<rparr>
           in recover_from_log s))"

definition begin_op_loop :: "'x kjournal_scheme \<Rightarrow> (unit, 'x kjournal_scheme) outcome" where
  "begin_op_loop s =
     (if log_committing s then sleep (Some Ch_log) (Some Lk_log) s
      else if lh_n s + (log_outstanding s + 1) * MAXOPBLOCKS > int LOGSIZE
      then sleep (Some Ch_log) (Some Lk_log) s
      else release Lk_log (s\<lparr>log_outstanding := log_outstanding s + 1\<rparr>))"

definition begin_op :: "'x kjournal_scheme \<Rightarrow> (unit, 'x kjournal_scheme) outcome" where
  "begin_op s = seq (acquire Lk_log s) (\<lambda>_ s. begin_op_loop s)"

definition begin_op_resume :: "nat \<Rightarrow> 'x kjournal_scheme \<Rightarrow> (unit, 'x kjournal_scheme) outcome" where
  "begin_op_resume p s = seq (sleep_resume p Lk_log s) (\<lambda>_ s. begin_op_loop s)"

definition write_log :: "'x kjournal_scheme \<Rightarrow> (unit, 'x kjournal_scheme) outcome" where
  "write_log s =
     for_each [0..<nat (lh_n s)] (\<lambda>tail s.
       seq (bread (log_dev s) (log_start s + word_of_nat tail + 1) s) (\<lambda>to s.
       seq (bread (log_dev s) (lh_block s tail) s) (\<lambda>from s.
       let s = set_data to (b_data (bufs s from)) s in
       seq (bwrite to s) (\<lambda>_ s.
       seq (brelse from s) (\<lambda>_ s. brelse to s))))) s"

definition commit :: "'x kjournal_scheme \<Rightarrow> (unit, 'x kjournal_scheme) outcome" where
  "commit s =
     (if lh_n s > 0
      then seq (write_log s) (\<lambda>_ s.
           seq (write_head s) (\<lambda>_ s.
           seq (install_trans s) (\<lambda>_ s.
           write_head (s\<lparr>lh_n := 0\<rparr>))))
      else Ret () s)"

definition end_op :: "'x kjournal_scheme \<Rightarrow> (unit, 'x kjournal_scheme) outcome" where
  "end_op s =
     seq (acquire Lk_log s) (\<lambda>_ s.
     let s = s\<lparr>log_outstanding := log_outstanding s - 1\<rparr> in
     if log_committing s then Panic ''log.committing''
     else let do_commit = (log_outstanding s = 0) in
          seq (if do_commit then Ret () (s\<lparr>log_committing := True\<rparr>) else wakeup (Some Ch_log) s) (\<lambda>_ s.
          seq (release Lk_log s) (\<lambda>_ s.
          if do_commit
          then seq (commit s) (\<lambda>_ s.
               seq (acquire Lk_log s) (\<lambda>_ s.
               seq (wakeup (Some Ch_log) (s\<lparr>log_committing := False\<rparr>)) (\<lambda>_ s.
               release Lk_log s)))
          else Ret () s)))"

text \<open>The position at which a block is recorded: its own if it is there, else the next free one.\<close>

fun log_slot :: "nat \<Rightarrow> nat \<Rightarrow> (nat \<Rightarrow> u32) \<Rightarrow> u32 \<Rightarrow> nat" where
  "log_slot 0 i blocks b = i"
| "log_slot (Suc n) i blocks b = (if blocks i = b then i else log_slot n (Suc i) blocks b)"

definition log_write :: "nat \<Rightarrow> 'x kjournal_scheme \<Rightarrow> (unit, 'x kjournal_scheme) outcome" where
  "log_write b s =
     (if lh_n s \<ge> int LOGSIZE \<or> lh_n s \<ge> log_size s - 1 then Panic ''too big a transaction''
      else if log_outstanding s < 1 then Panic ''log_write outside of trans''
      else seq (acquire Lk_log s) (\<lambda>_ s.
           let i = log_slot (nat (lh_n s)) 0 (lh_block s) (b_blockno (bufs s b));
               s = s\<lparr>lh_block := (lh_block s)(i := b_blockno (bufs s b))\<rparr>;
               s = (if int i = lh_n s then s\<lparr>lh_n := lh_n s + 1\<rparr> else s);
               s = pin b s
           in release Lk_log s))"

subsection \<open>The log area\<close>

text \<open>The blocks of the log: block \<open>i\<close> behind the header, and the whole area.\<close>

definition log_blk :: "'x kjournal_scheme \<Rightarrow> nat \<Rightarrow> u32" where
  "log_blk s i = log_start s + word_of_nat i + 1"

definition log_area :: "'x kjournal_scheme \<Rightarrow> nat set" where
  "log_area s = {unat (log_start s) ..< unat (log_start s) + nat (log_size s)}"

text \<open>
  The header in memory is well formed: the log fits on the disk, and the recorded blocks are distinct blocks
  of the disk outside the log, fewer than the log has room for.
\<close>

definition log_shape :: "'x kjournal_scheme \<Rightarrow> bool" where
  "log_shape s \<longleftrightarrow> log_dev s = 1 \<and> 0 \<le> lh_n s \<and> lh_n s < log_size s \<and> log_size s \<le> int LOGSIZE
     \<and> unat (log_start s) + nat (log_size s) \<le> disksize s \<and> disksize s \<le> 4294967296
     \<and> inj_on (lh_block s) {..<nat (lh_n s)}
     \<and> (\<forall>i < nat (lh_n s). unat (lh_block s i) < disksize s \<and> unat (lh_block s i) \<notin> log_area s)"

lemma bio_frame_journal:
  assumes "bio_frame s t"
  shows "log_start t = log_start s" "log_size t = log_size s" "log_outstanding t = log_outstanding s"
    "log_committing t = log_committing s" "log_dev t = log_dev s" "lh_n t = lh_n s" "lh_block t = lh_block s"
proof -
  have t: "t = s\<lparr>procs := procs t, sleeplocks := sleeplocks t, bufs := bufs t, disk := disk t, dwrites := dwrites t\<rparr>"
    using assms by (simp add: bio_frame_def)
  show "log_start t = log_start s" "log_size t = log_size s" "log_outstanding t = log_outstanding s"
    "log_committing t = log_committing s" "log_dev t = log_dev s" "lh_n t = lh_n s" "lh_block t = lh_block s"
    by (subst t, simp)+
qed

lemma bio_frame_shape: "bio_frame s t \<Longrightarrow> log_shape t = log_shape s"
  using bio_frame_journal [of s t] bio_frameD(3) [of s t] by (simp add: log_shape_def log_area_def)

lemma unat_log_blk:
  assumes "log_shape s" "i < nat (lh_n s)"
  shows "unat (log_blk s i) = unat (log_start s) + i + 1" "unat (log_blk s i) \<in> log_area s"
    "unat (log_blk s i) < disksize s"
proof -
  have "i + 1 < nat (log_size s)"
    using assms unfolding log_shape_def by linarith
  then have b: "unat (log_start s) + (i + 1) < unat (log_start s) + nat (log_size s)"
    by simp
  then have "unat (log_start s) + (i + 1) < 4294967296"
    using assms by (simp add: log_shape_def)
  then have "unat (log_start s + word_of_nat (i + 1)) = unat (log_start s) + (i + 1)"
    by (rule unat_add_of_nat)
  then show u: "unat (log_blk s i) = unat (log_start s) + i + 1"
    by (simp add: log_blk_def algebra_simps)
  show "unat (log_blk s i) \<in> log_area s" "unat (log_blk s i) < disksize s"
    using u b assms by (auto simp: log_area_def log_shape_def)
qed

lemma log_blk_ne:
  assumes "log_shape s" "i < nat (lh_n s)" "j < nat (lh_n s)"
  shows "log_blk s i \<noteq> lh_block s j" "log_blk s i \<noteq> log_start s" "lh_block s j \<noteq> log_start s"
proof -
  show "log_blk s i \<noteq> lh_block s j"
    using unat_log_blk(2) [OF assms(1,2)] assms(1,3) by (auto simp: log_shape_def)
  show "log_blk s i \<noteq> log_start s"
    using unat_log_blk(1) [OF assms(1,2)] by auto
  have "unat (log_start s) \<in> log_area s"
    using assms by (simp add: log_area_def log_shape_def)
  then show "lh_block s j \<noteq> log_start s"
    using assms by (auto simp: log_shape_def)
qed

lemma log_blk_sets:
  assumes "log_shape s" "i < nat (lh_n s)" "k \<le> nat (lh_n s)"
  shows "log_blk s i \<notin> lh_block s ` {..<k}" "lh_block s i \<notin> log_blk s ` {..<k}"
proof -
  show "log_blk s i \<notin> lh_block s ` {..<k}"
    using log_blk_ne(1) [OF assms(1,2)] assms(3) by (metis imageE lessThan_iff less_le_trans)
  show "lh_block s i \<notin> log_blk s ` {..<k}"
    using log_blk_ne(1) [OF assms(1) _ assms(2)] assms(3) by (metis imageE lessThan_iff less_le_trans)
qed

text \<open>Copying from the log to the home locations, and from the cache to the log.\<close>

definition installs :: "'x kjournal_scheme \<Rightarrow> (u32 \<times> u8 list) list" where
  "installs s = map (\<lambda>i. (lh_block s i, content s (log_blk s i))) [0..<nat (lh_n s)]"

definition logged :: "'x kjournal_scheme \<Rightarrow> (u32 \<times> u8 list) list" where
  "logged s = map (\<lambda>i. (log_blk s i, content s (lh_block s i))) [0..<nat (lh_n s)]"

lemma take_Suc_map: "k < n \<Longrightarrow> take (Suc k) (map f [0..<n]) = take k (map f [0..<n]) @ [f k]"
  by (simp add: take_Suc_conv_app_nth)

text \<open>The first of two reads leaves the log's own state alone, so the second is of the block it names.\<close>

lemma read_two_log:
  assumes ok: "bcache_ok p {} t" and d: "log_dev t = 1" and a: "unat a < disksize t" "card (dirty t) < NBUF"
  shows "seq (bread (log_dev t) a t) (\<lambda>x s. seq (bread (log_dev s) (lh_block s k) s) (g x)) =
    seq (bread 1 a t) (\<lambda>x s. seq (bread 1 (lh_block t k) s) (g x))"
proof -
  obtain b u where "bread 1 a t = Ret b u" "bio_frame t u"
    using bread_law [OF ok _ a(1)] a(2) by (auto simp: cache_step_def elim!: returnsE)
  then show ?thesis
    using d bio_frame_journal [of t u] by simp
qed

lemma copy_step:
  assumes sh: "log_shape s" and w: "wrote ws s t" and ok: "bcache_ok p {} t" and k: "k < nat (lh_n s)"
    and room: "card (dirty s) < NBUF"
  shows "log_dev t = 1" "lh_block t k = lh_block s k" "log_start t + word_of_nat k + 1 = log_blk s k"
    "log_blk s k \<noteq> lh_block s k" "unat (log_blk s k) < disksize t" "unat (lh_block s k) < disksize t"
    "card (dirty t) \<le> card (dirty s)" "card (dirty t) < NBUF"
proof -
  have f: "bio_frame s t" and d: "dirty t = dirty s - fst ` set ws"
    using w by (simp_all add: wrote_def)
  note j = bio_frame_journal [OF f] bio_frameD(3) [OF f]
  show "log_dev t = 1" "lh_block t k = lh_block s k" "log_start t + word_of_nat k + 1 = log_blk s k"
    "log_blk s k \<noteq> lh_block s k" "unat (log_blk s k) < disksize t" "unat (lh_block s k) < disksize t"
    using j sh k unat_log_blk [OF sh k] log_blk_ne [OF sh k k] by (simp_all add: log_shape_def log_blk_def)
  show le: "card (dirty t) \<le> card (dirty s)"
    using d room finite_dirty by (simp add: card_mono)
  show "card (dirty t) < NBUF"
    using le room by simp
qed

lemma install_step:
  assumes sh: "log_shape s" and k: "k < nat (lh_n s)"
    and t: "bcache_ok p {} t \<and> wrote (take k (installs s)) s t"
    and room: "card (dirty s) < NBUF" "lh_block s k \<in> dirty s \<or> Suc (card (dirty s)) < NBUF"
  shows "returns
    (seq (bread (log_dev t) (log_start t + word_of_nat k + 1) t) (\<lambda>lbuf s.
     seq (bread (log_dev s) (lh_block s k) s) (\<lambda>dbuf s.
     let s = set_data dbuf (b_data (bufs s lbuf)) s in
     seq (bwrite dbuf s) (\<lambda>_ s. seq (brelse lbuf s) (\<lambda>_ s. brelse dbuf s)))))
    (\<lambda>_ u. bcache_ok p {} u \<and> wrote (take (Suc k) (installs s)) s u)"
proof -
  have ok: "bcache_ok p {} t" and w: "wrote (take k (installs s)) s t"
    using t by auto
  note c = copy_step [OF sh w ok k room(1)]
  have "fst ` set (take k (installs s)) = lh_block s ` {..<k}"
    using k by (simp add: installs_def take_map image_image lessThan_atLeast0)
  then have d: "dirty t = dirty s - lh_block s ` {..<k}" and b: "log_blk s k \<notin> fst ` set (take k (installs s))"
    using w log_blk_sets(1) [OF sh k] k by (simp_all add: wrote_def)
  have "lh_block s k \<notin> lh_block s ` {..<k}"
    using sh k inj_on_image_mem_iff [of "lh_block s" "{..<nat (lh_n s)}" k "{..<k}"] by (auto simp: log_shape_def)
  then have r: "lh_block s k \<in> dirty t \<or> Suc (card (dirty t)) < NBUF"
    using room(2) c(7) d by auto
  have "content t (log_blk s k) = content s (log_blk s k)"
    using w upds_other [OF b] by (simp add: wrote_def)
  then show ?thesis
    unfolding c(3) unfolding read_two_log [OF ok c(1) c(5) c(8)] c(2)
    using bc.copy_to_second [OF ok c(4-6) disjI2 [OF c(8)] r] w
    by (auto simp: take_Suc_map [OF k] installs_def elim!: returns_mono intro!: wrote_snoc)
qed

lemma install_trans_writes:
  assumes "bcache_ok p {} s" "log_shape s" "card (dirty s) < NBUF"
    and "\<And>k. k < nat (lh_n s) \<Longrightarrow> lh_block s k \<in> dirty s \<or> Suc (card (dirty s)) < NBUF"
  shows "returns (install_trans s) (\<lambda>_ t. bcache_ok p {} t \<and> wrote (installs s) s t)"
proof -
  have "returns (install_trans s) (\<lambda>_ t. bcache_ok p {} t \<and> wrote (take (length [0..<nat (lh_n s)]) (installs s)) s t)"
    unfolding install_trans_def
  proof (rule for_each_returns [where P = "\<lambda>k t. bcache_ok p {} t \<and> wrote (take k (installs s)) s t"], goal_cases)
    case (2 k t)
    then show ?case
      using install_step [OF assms(2), of k p t] assms by simp
  qed (use assms in simp)
  then show ?thesis
    by (simp add: installs_def)
qed

lemma log_step:
  assumes sh: "log_shape s" and k: "k < nat (lh_n s)"
    and t: "bcache_ok p {} t \<and> wrote (take k (logged s)) s t"
    and room: "card (dirty s) < NBUF" "lh_block s k \<in> dirty s"
  shows "returns
    (seq (bread (log_dev t) (log_start t + word_of_nat k + 1) t) (\<lambda>to s.
     seq (bread (log_dev s) (lh_block s k) s) (\<lambda>from s.
     let s = set_data to (b_data (bufs s from)) s in
     seq (bwrite to s) (\<lambda>_ s. seq (brelse from s) (\<lambda>_ s. brelse to s)))))
    (\<lambda>_ u. bcache_ok p {} u \<and> wrote (take (Suc k) (logged s)) s u)"
proof -
  have ok: "bcache_ok p {} t" and w: "wrote (take k (logged s)) s t"
    using t by auto
  note c = copy_step [OF sh w ok k room(1)]
  have "fst ` set (take k (logged s)) = log_blk s ` {..<k}"
    using k by (simp add: logged_def take_map image_image lessThan_atLeast0)
  then have b: "lh_block s k \<notin> fst ` set (take k (logged s))"
    using log_blk_sets(2) [OF sh k] k by simp
  then have r: "lh_block s k \<in> dirty t"
    using w room(2) by (simp add: wrote_def)
  have "content t (lh_block s k) = content s (lh_block s k)"
    using w upds_other [OF b] by (simp add: wrote_def)
  then show ?thesis
    unfolding c(3) unfolding read_two_log [OF ok c(1) c(5) c(8)] c(2)
    using bc.copy_to_first [OF ok c(4-6) disjI2 [OF c(8)] disjI1 [OF r]] w
    by (auto simp: take_Suc_map [OF k] logged_def elim!: returns_mono intro!: wrote_snoc)
qed

lemma write_log_writes:
  assumes "bcache_ok p {} s" "log_shape s" "card (dirty s) < NBUF" "\<And>k. k < nat (lh_n s) \<Longrightarrow> lh_block s k \<in> dirty s"
  shows "returns (write_log s) (\<lambda>_ t. bcache_ok p {} t \<and> wrote (logged s) s t)"
proof -
  have "returns (write_log s) (\<lambda>_ t. bcache_ok p {} t \<and> wrote (take (length [0..<nat (lh_n s)]) (logged s)) s t)"
    unfolding write_log_def
  proof (rule for_each_returns [where P = "\<lambda>k t. bcache_ok p {} t \<and> wrote (take k (logged s)) s t"], goal_cases)
    case (2 k t)
    then show ?case
      using log_step [OF assms(2), of k p t] assms by simp
  qed (use assms in simp)
  then show ?thesis
    by (simp add: logged_def)
qed

subsection \<open>The header block\<close>

definition hdr_upto :: "nat \<Rightarrow> int \<Rightarrow> (nat \<Rightarrow> u32) \<Rightarrow> u8 list \<Rightarrow> u8 list" where
  "hdr_upto k n blocks d = fold (\<lambda>i d. put32 d (4 + 4 * i) (blocks i)) [0..<k] (put32 d 0 (word_of_int n))"

definition hdr :: "int \<Rightarrow> (nat \<Rightarrow> u32) \<Rightarrow> u8 list \<Rightarrow> u8 list" where
  "hdr n blocks d = hdr_upto (nat n) n blocks d"

lemma hdr_upto_get:
  assumes "length d = BSIZE" "k \<le> LOGSIZE"
  shows "length (hdr_upto k n blocks d) = BSIZE \<and> get32 (hdr_upto k n blocks d) 0 = word_of_int n
    \<and> (\<forall>i < k. get32 (hdr_upto k n blocks d) (4 + 4 * i) = blocks i)"
  using assms
proof (induction k)
  case (Suc k)
  have "get32 (put32 e (4 + 4 * k) v) 0 = get32 e 0" for e v
    by (rule get_put_other(1)) arith
  then show ?case
    using Suc by (auto simp: hdr_upto_def less_Suc_eq)
qed (simp add: hdr_upto_def)

lemma hdr_get:
  assumes "length d = BSIZE" "0 \<le> n" "n \<le> int LOGSIZE"
  shows "length (hdr n blocks d) = BSIZE" "sint (get32 (hdr n blocks d) 0) = n"
    "i < nat n \<Longrightarrow> get32 (hdr n blocks d) (4 + 4 * i) = blocks i"
proof -
  have h: "length (hdr n blocks d) = BSIZE \<and> get32 (hdr n blocks d) 0 = word_of_int n
      \<and> (\<forall>i < nat n. get32 (hdr n blocks d) (4 + 4 * i) = blocks i)"
    unfolding hdr_def using hdr_upto_get [OF assms(1), of "nat n"] assms by simp
  then show "length (hdr n blocks d) = BSIZE" "i < nat n \<Longrightarrow> get32 (hdr n blocks d) (4 + 4 * i) = blocks i"
    by simp_all
  have "sint (word_of_int n :: u32) = n"
    using assms by (simp add: sint_sbintrunc' signed_take_bit_int_eq_self_iff)
  then show "sint (get32 (hdr n blocks d) 0) = n"
    using h by simp
qed

lemma write_head_writes:
  assumes ok: "bcache_ok p {} s" and d: "log_dev s = 1" and n: "0 \<le> lh_n s" "lh_n s \<le> int LOGSIZE"
    and start: "unat (log_start s) < disksize s" and room: "card (dirty s) < NBUF"
  shows "returns (write_head s) (\<lambda>_ t. bcache_ok p {} t
    \<and> wrote [(log_start s, hdr (lh_n s) (lh_block s) (content s (log_start s)))] s t)"
proof -
  let ?k = "log_start s" and ?c = "content s (log_start s)" and ?H = "\<lambda>i. hdr_upto i (lh_n s) (lh_block s) (content s (log_start s))"
  obtain b t where t: "bread 1 ?k s = Ret b t" "editing p b ?k ?c s t"
    using editing_start [OF ok start] room by (auto elim!: returnsE)
  have e: "b_data (bufs u b) = d'" "lh_n u = lh_n s" "lh_block u = lh_block s" if "editing p b ?k d' s u" for u d'
    using that bio_frame_journal [of s u] by (simp_all add: editing_def)
  let ?t = "set_data b (put32 (b_data (bufs t b)) 0 (word_of_int (lh_n t))) t"
  have t': "editing p b ?k (?H 0) s ?t"
    using editing_set_data [OF t(2)] e [OF t(2)] by (simp add: hdr_upto_def)
  have "returns (for_each [0..<nat (lh_n ?t)] (\<lambda>i s.
      if i \<ge> LOGSIZE then Fault ''hb->block[i]''
      else Ret () (set_data b (put32 (b_data (bufs s b)) (4 + 4 * i) (lh_block s i)) s)) ?t)
      (\<lambda>_ u. editing p b ?k (?H (length [0..<nat (lh_n ?t)])) s u)"
  proof (rule for_each_returns [where P = "\<lambda>i u. editing p b ?k (?H i) s u"], goal_cases)
    case (2 i u)
    then have i: "i < LOGSIZE"
      using n e [OF t'] by simp
    have "editing p b ?k (?H (Suc i)) s (set_data b (put32 (b_data (bufs u b)) (4 + 4 * i) (lh_block u i)) u)"
      using editing_set_data [OF 2(2)] e [OF 2(2)] by (simp add: hdr_upto_def)
    then show ?case
      using i 2(1) by simp
  qed (use t' in simp)
  then obtain u where u: "for_each [0..<nat (lh_n ?t)] (\<lambda>i s.
      if i \<ge> LOGSIZE then Fault ''hb->block[i]''
      else Ret () (set_data b (put32 (b_data (bufs s b)) (4 + 4 * i) (lh_block s i)) s)) ?t = Ret () u"
      "editing p b ?k (hdr (lh_n s) (lh_block s) ?c) s u"
    using e(2) [OF t'] by (auto simp: hdr_def elim!: returnsE)
  show ?thesis
    using editing_write [OF u(2)] d t(1) u(1) by (simp add: write_head_def Let_def)
qed

subsection \<open>The log's own variables are not the cache's\<close>

lemma log_start_upd_cache [simp]:
  "bcache_ok p H (s\<lparr>log_start := x\<rparr>) = bcache_ok p H s" "content (s\<lparr>log_start := x\<rparr>) = content s" "dirty (s\<lparr>log_start := x\<rparr>) = dirty s"
  by (rule bcache_ok_cong cache_cong; simp)+

lemma log_size_upd_cache [simp]:
  "bcache_ok p H (s\<lparr>log_size := x\<rparr>) = bcache_ok p H s" "content (s\<lparr>log_size := x\<rparr>) = content s" "dirty (s\<lparr>log_size := x\<rparr>) = dirty s"
  by (rule bcache_ok_cong cache_cong; simp)+

lemma log_outstanding_upd_cache [simp]:
  "bcache_ok p H (s\<lparr>log_outstanding := x\<rparr>) = bcache_ok p H s" "content (s\<lparr>log_outstanding := x\<rparr>) = content s" "dirty (s\<lparr>log_outstanding := x\<rparr>) = dirty s"
  by (rule bcache_ok_cong cache_cong; simp)+

lemma log_committing_upd_cache [simp]:
  "bcache_ok p H (s\<lparr>log_committing := x\<rparr>) = bcache_ok p H s" "content (s\<lparr>log_committing := x\<rparr>) = content s" "dirty (s\<lparr>log_committing := x\<rparr>) = dirty s"
  by (rule bcache_ok_cong cache_cong; simp)+

lemma log_dev_upd_cache [simp]:
  "bcache_ok p H (s\<lparr>log_dev := x\<rparr>) = bcache_ok p H s" "content (s\<lparr>log_dev := x\<rparr>) = content s" "dirty (s\<lparr>log_dev := x\<rparr>) = dirty s"
  by (rule bcache_ok_cong cache_cong; simp)+

lemma lh_n_upd_cache [simp]:
  "bcache_ok p H (s\<lparr>lh_n := x\<rparr>) = bcache_ok p H s" "content (s\<lparr>lh_n := x\<rparr>) = content s" "dirty (s\<lparr>lh_n := x\<rparr>) = dirty s"
  by (rule bcache_ok_cong cache_cong; simp)+

lemma lh_block_upd_cache [simp]:
  "bcache_ok p H (s\<lparr>lh_block := x\<rparr>) = bcache_ok p H s" "content (s\<lparr>lh_block := x\<rparr>) = content s" "dirty (s\<lparr>lh_block := x\<rparr>) = dirty s"
  by (rule bcache_ok_cong cache_cong; simp)+

lemma initlock_cache [simp]:
  "content (initlock l nm s) = content s" "dirty (initlock l nm s) = dirty s"
  "bcache_ok p H s \<Longrightarrow> bcache_ok p H (initlock l nm s)"
  by ((rule cache_cong; simp)+) (simp add: bcache_ok_def caches_def)

lemma initlock_journal [simp]:
  "log_start (initlock l nm s) = log_start s" "log_size (initlock l nm s) = log_size s"
  "log_dev (initlock l nm s) = log_dev s" "lh_n (initlock l nm s) = lh_n s" "lh_block (initlock l nm s) = lh_block s"
  by (simp_all add: initlock_def upd_lock_def)

text \<open>\<open>same_blocks s t\<close>: the two states have the same cache contents, disk and log place.\<close>

definition same_blocks :: "'x kjournal_scheme \<Rightarrow> 'x kjournal_scheme \<Rightarrow> bool" where
  "same_blocks s t \<longleftrightarrow> content t = content s \<and> dirty t = dirty s \<and> disk t = disk s \<and> dwrites t = dwrites s
     \<and> disksize t = disksize s \<and> log_dev t = log_dev s \<and> log_start t = log_start s \<and> log_size t = log_size s"

lemma cache_step_same: "cache_step s t \<Longrightarrow> same_blocks s t"
  using bio_frame_journal [of s t] bio_frameD(3) [of s t] by (simp add: cache_step_def same_blocks_def)

lemma bio_frame_upd_journal:
  assumes "bio_frame s t"
  shows "bio_frame (s\<lparr>lh_n := x, lh_block := y\<rparr>) (t\<lparr>lh_n := x, lh_block := y\<rparr>)"
proof -
  have t: "t = s\<lparr>procs := procs t, sleeplocks := sleeplocks t, bufs := bufs t, disk := disk t, dwrites := dwrites t\<rparr>"
    using assms by (simp add: bio_frame_def)
  have "same_procs (procs t) (procs s)"
    using assms by (simp add: bio_frame_def)
  then show ?thesis
    unfolding bio_frame_def by (subst t) simp
qed

lemma read_head_reads:
  assumes ok: "bcache_ok p {} s" and d: "log_dev s = 1" and start: "unat (log_start s) < disksize s"
    and room: "card (dirty s) < NBUF"
    and n: "n = sint (get32 (content s (log_start s)) 0)" "n \<le> int LOGSIZE"
  shows "returns (read_head s) (\<lambda>_ t. bcache_ok p {} t \<and> same_blocks s t \<and> lh_n t = n
    \<and> (\<forall>i < nat n. lh_block t i = get32 (content s (log_start s)) (4 + 4 * i)))"
proof -
  let ?k = "log_start s" and ?c = "content s (log_start s)"
  obtain b t where t: "bread 1 ?k s = Ret b t" "editing p b ?k ?c s t"
    using editing_start [OF ok start] room by (auto elim!: returnsE)
  let ?B = "\<lambda>j i. if i < j then get32 ?c (4 + 4 * i) else lh_block t i"
  have c: "b_data (bufs t b) = ?c" "cache_step s t"
    using t(2) by (simp_all add: editing_def cache_step_def)
  have "returns (for_each [0..<nat n] (\<lambda>i s. if i \<ge> LOGSIZE then Fault ''log.lh.block[i]''
      else Ret () (s\<lparr>lh_block := (lh_block s)(i := get32 ?c (4 + 4 * i))\<rparr>)) (t\<lparr>lh_n := n\<rparr>))
      (\<lambda>_ u. u = t\<lparr>lh_n := n, lh_block := ?B (length [0..<nat n])\<rparr>)"
  proof (rule for_each_returns [where P = "\<lambda>j u. u = t\<lparr>lh_n := n, lh_block := ?B j\<rparr>"], goal_cases)
    case (2 k s)
    then show ?case
      using n(2) by (auto intro!: arg_cong [where f = "\<lambda>x. t\<lparr>lh_n := n, lh_block := x\<rparr>"])
  qed simp
  then have l: "read_head s = brelse b (t\<lparr>lh_n := n, lh_block := ?B (nat n)\<rparr>)"
    using d t(1) c(1) n(1) by (auto simp: read_head_def Let_def elim!: returnsE cong: if_cong)
  have "editing p b ?k ?c (s\<lparr>lh_n := n, lh_block := ?B (nat n)\<rparr>) (t\<lparr>lh_n := n, lh_block := ?B (nat n)\<rparr>)"
    using t(2) bio_frame_upd_journal [of s t] by (simp add: editing_def)
  moreover have "?k \<in> dirty s \<or> ?c = disk s (unat ?k)"
    using bc.clean [OF ok] by blast
  ultimately have "returns (read_head s) (\<lambda>_ u. bcache_ok p {} u \<and> cache_step (s\<lparr>lh_n := n, lh_block := ?B (nat n)\<rparr>) u)"
    unfolding l by (intro editing_drop) simp_all
  then show ?thesis
  proof (rule returns_mono, goal_cases)
    case (1 r u)
    then show ?case
      using cache_step_same [of "s\<lparr>lh_n := n, lh_block := ?B (nat n)\<rparr>" u]
        bio_frame_journal [of "s\<lparr>lh_n := n, lh_block := ?B (nat n)\<rparr>" u]
      by (auto simp: same_blocks_def cache_step_def)
  qed
qed

subsection \<open>Recovery\<close>

definition log_geom :: "'x kjournal_scheme \<Rightarrow> bool" where
  "log_geom s \<longleftrightarrow> log_dev s = 1 \<and> 0 < log_size s \<and> log_size s \<le> int LOGSIZE
     \<and> unat (log_start s) + nat (log_size s) \<le> disksize s \<and> disksize s \<le> 4294967296"

text \<open>What a header block \<open>c\<close> says: how many blocks the log holds and where they belong.\<close>

definition head_n :: "u8 list \<Rightarrow> int" where
  "head_n c = sint (get32 c 0)"

definition head_block :: "u8 list \<Rightarrow> nat \<Rightarrow> u32" where
  "head_block c i = get32 c (4 + 4 * i)"

definition head_ok :: "'x kjournal_scheme \<Rightarrow> u8 list \<Rightarrow> bool" where
  "head_ok s c \<longleftrightarrow> 0 \<le> head_n c \<and> head_n c < log_size s \<and> inj_on (head_block c) {..<nat (head_n c)}
     \<and> (\<forall>i < nat (head_n c). unat (head_block c i) < disksize s \<and> unat (head_block c i) \<notin> log_area s)"

definition replay :: "'x kjournal_scheme \<Rightarrow> u8 list \<Rightarrow> (u32 \<times> u8 list) list" where
  "replay s c = map (\<lambda>i. (head_block c i, content s (log_blk s i))) [0..<nat (head_n c)]"

lemma same_blocks_log:
  assumes "same_blocks s t"
  shows "log_blk t = log_blk s" "log_area t = log_area s" "log_geom t = log_geom s"
  using assms by (simp_all add: same_blocks_def log_blk_def log_area_def log_geom_def fun_eq_iff)

lemma recover_from_log_replays:
  assumes ok: "bcache_ok p {} s" "dirty s = {}" and g: "log_geom s" and c: "c = content s (log_start s)"
    and h: "head_ok s c"
  shows "returns (recover_from_log s) (\<lambda>_ t. bcache_ok p {} t \<and> dirty t = {} \<and> lh_n t = 0 \<and> disksize t = disksize s
    \<and> log_dev t = 1 \<and> log_start t = log_start s \<and> log_size t = log_size s
    \<and> content t = upds (replay s c @ [(log_start s, put32 c 0 0)]) (content s))"
proof -
  have start: "unat (log_start s) < disksize s" "unat (log_start s) \<in> log_area s"
    using g by (auto simp: log_geom_def log_area_def)
  obtain t where t: "read_head s = Ret () t" "bcache_ok p {} t" "same_blocks s t" "lh_n t = head_n c"
      "\<And>i. i < nat (head_n c) \<Longrightarrow> lh_block t i = head_block c i"
    using read_head_reads [OF ok(1) _ start(1) _ refl] g h ok(2) c
    by (auto simp: log_geom_def head_ok_def head_n_def head_block_def elim!: returnsE)
  note sl = same_blocks_log [OF t(3)]
  have i: "installs t = replay s c"
    using t(3-5) sl by (simp add: installs_def replay_def same_blocks_def)
  have "inj_on (lh_block t) {..<nat (head_n c)}"
    using h t(5) inj_on_cong [of "{..<nat (head_n c)}" "lh_block t" "head_block c"] by (simp add: head_ok_def)
  then have "log_shape t"
    using h t sl g by (simp add: log_shape_def head_ok_def log_geom_def same_blocks_def)
  then obtain u where u: "install_trans t = Ret () u" "bcache_ok p {} u" "wrote (replay s c) t u"
    using install_trans_writes [OF t(2)] t(3) ok(2) by (auto simp: i same_blocks_def elim!: returnsE)
  have "log_start s \<notin> fst ` set (replay s c)"
    using h start(2) by (auto simp: replay_def head_ok_def)
  then have "content u (log_start s) = content t (log_start s)"
    using u(3) upds_other by (simp add: wrote_def)
  then have cu: "content u (log_start s) = c" "dirty u = {}"
    using t(3) u(3) c ok(2) by (simp_all add: same_blocks_def wrote_def)
  have f: "bio_frame t u"
    using u(3) by (simp add: wrote_def)
  note j = bio_frame_journal [OF f] bio_frameD(3) [OF f]
  have "returns (write_head (u\<lparr>lh_n := 0\<rparr>)) (\<lambda>_ v. bcache_ok p {} v \<and> wrote [(log_start s, put32 c 0 0)] (u\<lparr>lh_n := 0\<rparr>) v)"
    using write_head_writes [of p "u\<lparr>lh_n := 0\<rparr>"] u(2) cu j t(3) g start(1)
    by (simp add: same_blocks_def log_geom_def hdr_def hdr_upto_def)
  then show ?thesis
    unfolding recover_from_log_def t(1) u(1) seq.simps
  proof (rule returns_mono, goal_cases)
    case (1 r v)
    then have fv: "bio_frame (u\<lparr>lh_n := 0\<rparr>) v"
      by (simp add: wrote_def)
    show ?case
      using 1 bio_frame_journal [OF fv] bio_frameD(3) [OF fv] j t(3) u(3) cu g
      by (auto simp: wrote_def same_blocks_def log_geom_def)
  qed
qed

lemma readsb_reads:
  assumes ok: "bcache_ok p {} s" "1 < disksize s" "card (dirty s) < NBUF"
  shows "returns (readsb 1 s) (\<lambda>sb t. sb = superblock_of (content s 1) \<and> bcache_ok p {} t \<and> cache_step s t)"
proof -
  obtain b t where t: "bread 1 1 s = Ret b t" "editing p b 1 (content s 1) s t"
    using editing_start [OF ok(1), of 1] ok(2,3) by (auto elim!: returnsE)
  have "1 \<in> dirty s \<or> content s 1 = disk s (unat (1 :: u32))"
    using bc.clean [OF ok(1)] by blast
  then obtain u where "brelse b t = Ret () u" "bcache_ok p {} u" "cache_step s u"
    using editing_drop [OF t(2) refl] by (auto elim: returnsE)
  moreover have "b_data (bufs t b) = content s 1"
    using t(2) by (simp add: editing_def)
  ultimately show ?thesis
    using t(1) by (simp add: readsb_def)
qed

lemma initlog_replays:
  assumes ok: "bcache_ok p {} s" "dirty s = {}" "1 < disksize s"
    and sb: "sb_logstart (superblock_of (content s 1)) = log_start s'" "sint (sb_nlog (superblock_of (content s 1))) = log_size s'"
    and s': "log_dev s' = 1" "disksize s' = disksize s" "content s' = content s"
    and g: "log_geom s'" and c: "c = content s (log_start s')" and h: "head_ok s' c"
  shows "returns (initlog 1 s) (\<lambda>_ t. bcache_ok p {} t \<and> dirty t = {} \<and> lh_n t = 0
    \<and> log_start t = log_start s' \<and> log_size t = log_size s'
    \<and> content t = upds (replay s' c @ [(log_start s', put32 c 0 0)]) (content s))"
proof -
  let ?s = "initlock Lk_log ''log'' s"
  obtain t where t: "readsb 1 ?s = Ret (superblock_of (content s 1)) t" "bcache_ok p {} t" "cache_step ?s t"
    using readsb_reads [of p ?s] ok by (auto elim!: returnsE)
  let ?t = "t\<lparr>log_start := log_start s', log_size := log_size s', log_dev := 1\<rparr>"
  have f: "content t = content s" "dirty t = {}" "disksize t = disksize s"
    using t(3) ok(2) bio_frameD(3) [of ?s t] by (simp_all add: cache_step_def)
  have rp: "log_geom ?t" "head_ok ?t c" "replay ?t c = replay s' c"
    using g h s' f
    by (simp_all add: log_geom_def head_ok_def log_area_def replay_def log_blk_def)
  then have r: "returns (recover_from_log ?t) (\<lambda>_ u. bcache_ok p {} u \<and> dirty u = {} \<and> lh_n u = 0
      \<and> disksize u = disksize ?t \<and> log_dev u = 1 \<and> log_start u = log_start ?t \<and> log_size u = log_size ?t
      \<and> content u = upds (replay ?t c @ [(log_start ?t, put32 c 0 0)]) (content ?t))"
    using t(2) f c by (intro recover_from_log_replays) simp_all
  have "initlog 1 s = recover_from_log ?t"
    using t(1) sb by (simp add: initlog_def Let_def)
  then show ?thesis
    using returns_mono [OF r] f rp(3) by simp
qed

subsection \<open>Commit\<close>

text \<open>
  Between transactions and inside one: the recorded blocks are the dirty ones, and the header on the disk is
  that of an empty log. The superblock says where the log is.
\<close>

definition log_ok :: "nat \<Rightarrow> nat set \<Rightarrow> 'x kjournal_scheme \<Rightarrow> bool" where
  "log_ok p H s \<longleftrightarrow> bcache_ok p H s \<and> log_shape s \<and> dirty s = lh_block s ` {..<nat (lh_n s)}
     \<and> length (content s (log_start s)) = BSIZE \<and> get32 (content s (log_start s)) 0 = 0
     \<and> 1 < disksize s \<and> 1 \<notin> log_area s \<and> (\<forall>i < nat (lh_n s). lh_block s i \<noteq> 1)
     \<and> sb_logstart (superblock_of (content s 1)) = log_start s
     \<and> sint (sb_nlog (superblock_of (content s 1))) = log_size s"

definition homes :: "'x kjournal_scheme \<Rightarrow> (u32 \<times> u8 list) list" where
  "homes s = map (\<lambda>i. (lh_block s i, content s (lh_block s i))) [0..<nat (lh_n s)]"

definition commit_head :: "'x kjournal_scheme \<Rightarrow> u8 list" where
  "commit_head s = hdr (lh_n s) (lh_block s) (content s (log_start s))"

text \<open>The disk writes of a commit, in order.\<close>

definition commit_writes :: "'x kjournal_scheme \<Rightarrow> (u32 \<times> u8 list) list" where
  "commit_writes s =
     logged s @ [(log_start s, commit_head s)] @ homes s @ [(log_start s, put32 (commit_head s) 0 0)]"

lemma log_okD:
  assumes "log_ok p H s"
  shows "bcache_ok p H s" "log_shape s" "dirty s = lh_block s ` {..<nat (lh_n s)}" "card (dirty s) < NBUF"
    "log_dev s = 1" "0 \<le> lh_n s" "lh_n s \<le> int LOGSIZE" "unat (log_start s) < disksize s"
    "log_start s \<notin> dirty s" "unat (log_start s) \<in> log_area s" "log_geom s"
    "length (content s (log_start s)) = BSIZE" "get32 (content s (log_start s)) 0 = 0"
proof -
  show "bcache_ok p H s" "length (content s (log_start s)) = BSIZE" "get32 (content s (log_start s)) 0 = 0"
    using assms by (simp_all add: log_ok_def)
  show l: "log_shape s" and d: "dirty s = lh_block s ` {..<nat (lh_n s)}"
    using assms by (simp_all add: log_ok_def)
  show "unat (log_start s) \<in> log_area s"
    using l by (simp add: log_shape_def log_area_def)
  then show "log_start s \<notin> dirty s"
    using l d by (auto simp: log_shape_def)
  have "card (dirty s) \<le> nat (lh_n s)"
    using d card_image_le [of "{..<nat (lh_n s)}" "lh_block s"] by simp
  then show "card (dirty s) < NBUF"
    using l unfolding log_shape_def by linarith
  show "log_dev s = 1" "0 \<le> lh_n s" "lh_n s \<le> int LOGSIZE" "log_geom s"
    using l by (simp_all add: log_shape_def log_geom_def)
  then show "unat (log_start s) < disksize s"
    unfolding log_geom_def by linarith
qed

lemma wrote_append:
  assumes "wrote ws s t" "wrote vs t u"
  shows "wrote (ws @ vs) s u"
  using assms bio_frame_trans [of s t u] by (auto simp: wrote_def)

lemma wrote_upd_n:
  assumes "wrote ws s t"
  shows "wrote ws (s\<lparr>lh_n := x\<rparr>) (t\<lparr>lh_n := x\<rparr>)"
proof -
  have "bio_frame s t"
    using assms by (simp add: wrote_def)
  then have t: "t = s\<lparr>procs := procs t, sleeplocks := sleeplocks t, bufs := bufs t, disk := disk t, dwrites := dwrites t\<rparr>"
    and sp: "same_procs (procs t) (procs s)"
    by (simp_all add: bio_frame_def)
  have "bio_frame (s\<lparr>lh_n := x\<rparr>) (t\<lparr>lh_n := x\<rparr>)"
    unfolding bio_frame_def using sp by (subst t) simp
  then show ?thesis
    using assms by (simp add: wrote_def)
qed

lemma upds_logged:
  assumes "log_shape s"
  shows "i < nat (lh_n s) \<Longrightarrow> upds (logged s) f (log_blk s i) = content s (lh_block s i)"
    "unat k \<notin> log_area s \<Longrightarrow> upds (logged s) f k = f k" "upds (logged s) f (log_start s) = f (log_start s)"
    "fst ` set (logged s) = log_blk s ` {..<nat (lh_n s)}"
proof -
  show f: "fst ` set (logged s) = log_blk s ` {..<nat (lh_n s)}"
    by (simp add: logged_def image_image lessThan_atLeast0)
  show "upds (logged s) f (log_blk s i) = content s (lh_block s i)" if i: "i < nat (lh_n s)"
  proof (rule upds_agree)
    fix w
    assume "(log_blk s i, w) \<in> set (logged s)"
    then obtain j where j: "j < nat (lh_n s)" "log_blk s j = log_blk s i" "w = content s (lh_block s j)"
      by (auto simp: logged_def)
    have "unat (log_start s) + j + 1 = unat (log_start s) + i + 1"
      using unat_log_blk(1) [OF assms j(1)] unat_log_blk(1) [OF assms i] unfolding j(2) by (rule trans [OF sym])
    then have "j = i"
      by simp
    then show "w = content s (lh_block s i)"
      using j(3) by simp
  qed (use i in \<open>auto simp: logged_def\<close>)
  show "upds (logged s) f k = f k" if "unat k \<notin> log_area s"
    using that unat_log_blk(2) [OF assms] by (intro upds_other) (auto simp: f)
  show "upds (logged s) f (log_start s) = f (log_start s)"
    using log_blk_ne(2) [OF assms] by (intro upds_other) (auto simp: f dest!: sym [of "log_start s"])
qed

lemma homes_fst: "fst ` set (homes s) = lh_block s ` {..<nat (lh_n s)}"
  by (simp add: homes_def image_image lessThan_atLeast0)

lemma homes_graph: "(k, v) \<in> set (homes s) \<Longrightarrow> v = content s k"
  by (auto simp: homes_def)

lemma log_disjoint:
  assumes "log_shape s"
  shows "lh_block s ` {..<nat (lh_n s)} \<inter> log_blk s ` {..<nat (lh_n s)} = {}"
proof -
  have "False" if "i < nat (lh_n s)" "j < nat (lh_n s)" "lh_block s i = log_blk s j" for i j
    using log_blk_ne(1) [OF assms that(2,1)] that(3) by simp
  then show ?thesis
    by blast
qed

lemma commit_phase1:
  assumes "log_ok p {} s"
  shows "returns (seq (write_log s) (\<lambda>_ s. write_head s)) (\<lambda>_ t. bcache_ok p {} t
    \<and> wrote (logged s @ [(log_start s, commit_head s)]) s t \<and> dirty t = dirty s)"
proof -
  note o = log_okD [OF assms]
  have "lh_block s k \<in> dirty s" if "k < nat (lh_n s)" for k
    using that by (simp add: o(3))
  then have "returns (write_log s) (\<lambda>_ t. bcache_ok p {} t \<and> wrote (logged s) s t)"
    by (rule write_log_writes [OF o(1,2,4)])
  then obtain t where t: "write_log s = Ret () t" "bcache_ok p {} t" "wrote (logged s) s t"
    by (auto elim: returns_unitE)
  have f: "bio_frame s t"
    using t(3) by (simp add: wrote_def)
  have "dirty s \<inter> fst ` set (logged s) = {}"
    using log_disjoint [OF o(2)] by (simp add: upds_logged(4) [OF o(2)] o(3))
  then have d: "dirty t = dirty s"
    using t(3) by (auto simp: wrote_def)
  have c: "content t (log_start s) = content s (log_start s)"
    using t(3) upds_logged(3) [OF o(2)] by (simp add: wrote_def)
  note j = bio_frame_journal [OF f] bio_frameD(3) [OF f]
  have "returns (write_head t) (\<lambda>_ u. bcache_ok p {} u \<and> wrote [(log_start s, commit_head s)] t u)"
    using write_head_writes [OF t(2)] o(7) by (simp add: j c d o(4-6,8) commit_head_def)
  then show ?thesis
    unfolding t(1) seq.simps
  proof (rule returns_mono, goal_cases)
    case (1 r u)
    then have "wrote (logged s @ [(log_start s, commit_head s)]) s u"
      using wrote_append [OF t(3)] by blast
    moreover have "dirty u = dirty s"
      using 1 d o(9) by (simp add: wrote_def)
    ultimately show ?case
      using 1 by simp
  qed
qed

lemma commit_writes_log:
  assumes "log_ok p {} s" "lh_n s > 0"
  shows "returns (commit s) (\<lambda>_ t. bcache_ok p {} t \<and> dirty t = {} \<and> lh_n t = 0 \<and> wrote (commit_writes s) (s\<lparr>lh_n := 0\<rparr>) t)"
proof -
  note o = log_okD [OF assms(1)]
  let ?ws = "logged s @ [(log_start s, commit_head s)]"
  obtain t0 t where t: "write_log s = Ret () t0" "write_head t0 = Ret () t" "bcache_ok p {} t" "wrote ?ws s t" "dirty t = dirty s"
    using commit_phase1 [OF assms(1)] unfolding returns_seq by (auto elim!: returns_unitE)
  have f: "bio_frame s t"
    using t(4) by (simp add: wrote_def)
  note j = bio_frame_journal [OF f]
  have "content t (log_blk s i) = content s (lh_block s i)" if "i < nat (lh_n s)" for i
    using t(4) upds_logged(1) [OF o(2) that] log_blk_ne(2) [OF o(2) that that] by (simp add: wrote_def)
  then have "installs t = homes s"
    by (simp add: installs_def homes_def log_blk_def j)
  moreover have "log_shape t"
    using bio_frame_shape [OF f] o(2) by simp
  moreover have "lh_block t k \<in> dirty t \<or> Suc (card (dirty t)) < NBUF" if "k < nat (lh_n t)" for k
    using that by (simp add: t(5) o(3) j)
  ultimately have "returns (install_trans t) (\<lambda>_ u. bcache_ok p {} u \<and> wrote (homes s) t u)"
    using install_trans_writes [OF t(3)] o(4) t(5) by simp
  then obtain u where u: "install_trans t = Ret () u" "bcache_ok p {} u" "wrote (homes s) t u"
    by (auto elim: returns_unitE)
  have su: "wrote (?ws @ homes s) s u"
    using wrote_append [OF t(4) u(3)] .
  have "log_start s \<notin> fst ` set (homes s)"
    using o(9) by (simp add: homes_fst o(3))
  then have c: "content u (log_start s) = commit_head s"
    using su by (simp add: wrote_def upds_other)
  have d: "dirty u = {}"
    using u(3) by (simp add: wrote_def homes_fst t(5) o(3))
  have fu: "bio_frame s u"
    using su by (simp add: wrote_def)
  have "returns (write_head (u\<lparr>lh_n := 0\<rparr>)) (\<lambda>_ v. bcache_ok p {} v \<and> wrote [(log_start s, put32 (commit_head s) 0 0)] (u\<lparr>lh_n := 0\<rparr>) v)"
    using write_head_writes [of p "u\<lparr>lh_n := 0\<rparr>"] u(2)
    by (simp add: hdr_def hdr_upto_def c d o(5,8) bio_frame_journal [OF fu] bio_frameD(3) [OF fu])
  then show ?thesis
    unfolding commit_def t(1,2) u(1) seq.simps if_P [OF assms(2)]
  proof (rule returns_mono, goal_cases)
    case (1 r v)
    then have "wrote ((?ws @ homes s) @ [(log_start s, put32 (commit_head s) 0 0)]) (s\<lparr>lh_n := 0\<rparr>) v"
      using wrote_append [OF wrote_upd_n [OF su]] by blast
    then have w: "wrote (commit_writes s) (s\<lparr>lh_n := 0\<rparr>) v"
      by (simp only: commit_writes_def append_assoc)
    then have "bio_frame (s\<lparr>lh_n := 0\<rparr>) v"
      by (simp add: wrote_def)
    moreover have "dirty v = {}"
      using 1 d by (simp add: wrote_def)
    ultimately show ?case
      using 1 w bio_frame_journal(6) [of "s\<lparr>lh_n := 0\<rparr>" v] by simp
  qed
qed

subsection \<open>Crashes\<close>

text \<open>\<open>rebooted p s ws u\<close>: a machine freshly booted on the disk that \<open>s\<close> and the writes \<open>ws\<close> after it left.\<close>

definition rebooted :: "nat \<Rightarrow> 'x kbio_scheme \<Rightarrow> (nat \<times> u8 list) list \<Rightarrow> 'x kbio_scheme \<Rightarrow> bool" where
  "rebooted p s ws u \<longleftrightarrow> bcache_ok p {} u \<and> dirty u = {} \<and> disksize u = disksize s \<and> disk u = upds ws (disk s)"

lemma inj_unat: "inj (unat :: u32 \<Rightarrow> nat)"
  by (simp add: inj_def word_unat_eq_iff)

lemma log_blk_outside:
  assumes "log_shape s" "unat x \<notin> log_area s"
  shows "x \<notin> log_blk s ` {..<nat (lh_n s)}"
  using unat_log_blk(2) [OF assms(1)] assms(2) by (metis imageE lessThan_iff)

lemma rebooted_content:
  assumes "rebooted p s (map (apfst unat) ws) u"
  shows "content u x = upds ws (\<lambda>x. disk s (unat x)) x"
proof -
  have "content u x = disk u (unat x)"
    using assms bc.clean [of p u x] by (simp add: rebooted_def)
  also have "\<dots> = upds ws (\<lambda>x. disk s (unat x)) x"
    using assms upds_map_inj [OF inj_unat, of ws "disk s" x] by (simp add: rebooted_def)
  finally show ?thesis .
qed

lemma log_ok_clean:
  assumes "log_ok p {} s" "x \<notin> lh_block s ` {..<nat (lh_n s)}"
  shows "disk s (unat x) = content s x"
  using bc.clean [OF log_okD(1) [OF assms(1)], of x] assms(2) by (simp add: log_okD(3) [OF assms(1)])

text \<open>Recovery of such a machine: what is outside the log afterwards.\<close>

lemma reboot_recovers:
  assumes o: "log_ok p {} s" and r: "rebooted p s ws u" and sb: "content u 1 = content s 1"
    and c: "c = content u (log_start s)" "0 \<le> head_n c" "head_n c < log_size s"
      "inj_on (head_block c) {..<nat (head_n c)}"
      "\<And>i. i < nat (head_n c) \<Longrightarrow> unat (head_block c i) < disksize s \<and> unat (head_block c i) \<notin> log_area s"
  shows "returns (initlog 1 u) (\<lambda>_ v. \<forall>x. unat x \<notin> log_area s \<longrightarrow>
    disk v (unat x) = upds (map (\<lambda>i. (head_block c i, content u (log_blk s i))) [0..<nat (head_n c)]) (content u) x)"
proof -
  let ?s' = "u\<lparr>log_start := log_start s, log_size := log_size s, log_dev := 1\<rparr>"
  note l = log_okD [OF o]
  have u: "bcache_ok p {} u" "dirty u = {}" "disksize u = disksize s"
    using r by (simp_all add: rebooted_def)
  have g: "log_geom ?s'"
    using l(11) u(3) by (simp add: log_geom_def)
  have h: "head_ok ?s' c"
    using c(2-) u(3) by (simp add: head_ok_def log_area_def)
  have rp: "replay ?s' c = map (\<lambda>i. (head_block c i, content u (log_blk s i))) [0..<nat (head_n c)]"
    by (simp add: replay_def log_blk_def)
  have d: "1 < disksize u" "sb_logstart (superblock_of (content u 1)) = log_start ?s'"
      "sint (sb_nlog (superblock_of (content u 1))) = log_size ?s'"
    using o u(3) sb by (simp_all add: log_ok_def)
  have "returns (initlog 1 u) (\<lambda>_ t. bcache_ok p {} t \<and> dirty t = {} \<and> lh_n t = 0
      \<and> log_start t = log_start ?s' \<and> log_size t = log_size ?s'
      \<and> content t = upds (replay ?s' c @ [(log_start ?s', put32 c 0 0)]) (content u))"
    using g h c(1) d u by (intro initlog_replays) simp_all
  then show ?thesis
  proof (rule returns_mono, intro allI impI, goal_cases)
    case (1 _ v x)
    then have "x \<noteq> log_start s"
      using l(10) by auto
    moreover have "disk v (unat x) = content v x"
      using 1 bc.clean [of p v x] by simp
    ultimately show ?case
      using 1 by (simp add: rp)
  qed
qed

lemma log_shape_bounds:
  assumes "log_shape s" "i < nat (lh_n s)"
  shows "unat (lh_block s i) < disksize s" "unat (lh_block s i) \<notin> log_area s"
  using assms by (simp_all add: log_shape_def)

lemma crash_superblock:
  assumes o: "log_ok p {} s" and r: "rebooted p s (map (apfst unat) ws) u"
    and w: "fst ` set ws \<subseteq> insert (log_start s) (log_blk s ` {..<nat (lh_n s)} \<union> lh_block s ` {..<nat (lh_n s)})"
  shows "content u 1 = content s 1"
proof -
  note l = log_okD [OF o]
  have n: "(1 :: u32) \<notin> log_blk s ` {..<nat (lh_n s)}" "(1 :: u32) \<noteq> log_start s" "(1 :: u32) \<notin> lh_block s ` {..<nat (lh_n s)}"
  proof -
    have a: "unat (1 :: u32) \<notin> log_area s" "\<And>i. i < nat (lh_n s) \<Longrightarrow> lh_block s i \<noteq> 1"
      using o by (simp_all add: log_ok_def)
    then show "(1 :: u32) \<notin> log_blk s ` {..<nat (lh_n s)}"
      by (intro log_blk_outside [OF l(2)]) simp
    show "(1 :: u32) \<noteq> log_start s"
      using a(1) l(10) by auto
    show "(1 :: u32) \<notin> lh_block s ` {..<nat (lh_n s)}"
      using a(2) by auto
  qed
  then have "1 \<notin> fst ` set ws"
    using w by blast
  then show ?thesis
    using rebooted_content [OF r] log_ok_clean [OF o n(3)] by (simp add: upds_other)
qed

lemma crash_before_commit:
  assumes o: "log_ok p {} s" and r: "rebooted p s (map (apfst unat) (take k (logged s))) u"
  shows "returns (initlog 1 u) (\<lambda>_ v. \<forall>x :: u32. unat x \<notin> log_area s \<longrightarrow> disk v (unat x) = disk s (unat x))"
proof -
  note l = log_okD [OF o]
  have sub: "fst ` set (take k (logged s)) \<subseteq> log_blk s ` {..<nat (lh_n s)}"
    using upds_logged(4) [OF l(2)] set_take_subset [of k "logged s"] by blast
  have out: "content u x = disk s (unat x)" if "x \<notin> log_blk s ` {..<nat (lh_n s)}" for x
  proof -
    have "x \<notin> fst ` set (take k (logged s))"
      using that sub by blast
    then show ?thesis
      using rebooted_content [OF r, of x] by (simp add: upds_other)
  qed
  have "log_start s \<notin> log_blk s ` {..<nat (lh_n s)}"
    using log_blk_ne(2) [OF l(2)] by (auto dest!: sym [of "log_start s"])
  then have c: "content u (log_start s) = content s (log_start s)"
    using out log_ok_clean [OF o] l(3,9) by simp
  have h: "head_n (content u (log_start s)) = 0"
    using l(13) by (simp add: head_n_def c)
  have "content u 1 = content s 1"
    using sub by (intro crash_superblock [OF o r]) blast
  then have "returns (initlog 1 u) (\<lambda>_ v. \<forall>x. unat x \<notin> log_area s \<longrightarrow> disk v (unat x) = content u x)"
    using reboot_recovers [OF o r _ refl] h l(11) by (simp add: log_geom_def)
  then show ?thesis
  proof (rule returns_mono, intro allI impI, goal_cases)
    case (1 _ v x)
    then have "x \<notin> log_blk s ` {..<nat (lh_n s)}"
      by (intro log_blk_outside [OF l(2)]) simp
    then show ?case
      using 1 out by simp
  qed
qed

text \<open>After the header is written: any part \<open>hs\<close> of the home writes may have happened.\<close>

lemma upds_homes:
  assumes "log_ok p {} s" "set hs \<subseteq> set (homes s)" "\<And>x. x \<notin> lh_block s ` {..<nat (lh_n s)} \<Longrightarrow> f x = content s x"
  shows "x \<notin> lh_block s ` {..<nat (lh_n s)} \<Longrightarrow> upds hs f x = content s x" "upds (homes s) f x = content s x"
proof -
  have g: "v = content s k" if "(k, v) \<in> set (homes s)" for k v
    using homes_graph [OF that] .
  show "upds (homes s) f x = content s x"
    using upds_graph [of "homes s" "content s" f x] g assms(3) by (simp add: homes_fst)
  show "upds hs f x = content s x" if "x \<notin> lh_block s ` {..<nat (lh_n s)}"
  proof -
    have "x \<notin> fst ` set hs"
      using that assms(2) homes_fst [of s] by blast
    then show ?thesis
      using assms(3) [OF that] by (simp add: upds_other)
  qed
qed

lemma commit_head_get:
  assumes "log_ok p {} s"
  shows "length (commit_head s) = BSIZE" "head_n (commit_head s) = lh_n s"
    "i < nat (lh_n s) \<Longrightarrow> head_block (commit_head s) i = lh_block s i"
    "head_n (put32 (commit_head s) 0 0) = 0"
proof -
  note h = hdr_get [OF log_okD(12) [OF assms] log_okD(6) [OF assms] log_okD(7) [OF assms], where blocks = "lh_block s"]
  show l: "length (commit_head s) = BSIZE" and "head_n (commit_head s) = lh_n s"
    "i < nat (lh_n s) \<Longrightarrow> head_block (commit_head s) i = lh_block s i"
    using h by (simp_all add: commit_head_def head_n_def head_block_def)
  show "head_n (put32 (commit_head s) 0 0) = 0"
    using l by (simp add: head_n_def)
qed

lemma crash_after_header:
  assumes o: "log_ok p {} s" and hs: "set hs \<subseteq> set (homes s)"
    and r: "rebooted p s (map (apfst unat) (logged s @ [(log_start s, commit_head s)] @ hs)) u"
  shows "returns (initlog 1 u) (\<lambda>_ v. \<forall>x. unat x \<notin> log_area s \<longrightarrow> disk v (unat x) = content s x)"
proof -
  note l = log_okD [OF o] and g = commit_head_get [OF o]
  let ?B = "lh_block s ` {..<nat (lh_n s)}"
  let ?f = "(upds (logged s) (\<lambda>x. disk s (unat x)))(log_start s := commit_head s)"
  have hf: "fst ` set hs \<subseteq> ?B"
    using image_mono [OF hs, of fst] by (simp add: homes_fst)
  have u: "content u x = upds hs ?f x" for x
    using rebooted_content [OF r, of x] by simp
  have other: "content u x = ?f x" if "x \<notin> ?B" for x
  proof -
    have "x \<notin> fst ` set hs"
      using that hf by blast
    then show ?thesis
      unfolding u by (rule upds_other)
  qed
  have c: "content u (log_start s) = commit_head s"
    using other [of "log_start s"] l(3,9) by simp
  have b: "content u (log_blk s i) = content s (lh_block s i)" if "i < nat (lh_n s)" for i
    using other [of "log_blk s i"] log_blk_sets(1) [OF l(2) that order_refl] log_blk_ne(2) [OF l(2) that that]
      upds_logged(1) [OF l(2) that] by simp
  have hd: "map (\<lambda>i. (head_block (commit_head s) i, content u (log_blk s i))) [0..<nat (head_n (commit_head s))] = homes s"
    using g(2,3) b by (simp add: homes_def)
  have inj: "inj_on (head_block (commit_head s)) {..<nat (lh_n s)}"
    using l(2) g(3) inj_on_cong [of "{..<nat (lh_n s)}" "head_block (commit_head s)" "lh_block s"]
    by (simp add: log_shape_def)
  have "fst ` set (logged s @ [(log_start s, commit_head s)] @ hs) \<subseteq> insert (log_start s) (log_blk s ` {..<nat (lh_n s)} \<union> ?B)"
    using hf upds_logged(4) [OF l(2)] by auto
  then have sb: "content u 1 = content s 1"
    by (rule crash_superblock [OF o r])
  have "returns (initlog 1 u) (\<lambda>_ v. \<forall>x. unat x \<notin> log_area s \<longrightarrow> disk v (unat x) = upds (homes s) (content u) x)"
    using reboot_recovers [OF o r sb c [symmetric]] g(2,3) inj l(2,6) log_shape_bounds [OF l(2)]
    unfolding hd by (simp add: log_shape_def)
  note rec = this
  have "upds (homes s) (content u) x = content s x" if x: "unat x \<notin> log_area s" for x
  proof -
    have "x \<noteq> log_start s"
      using x l(10) by auto
    then have "content u x = content s x" if "x \<notin> ?B"
      using other [OF that] upds_logged(2) [OF l(2) x] log_ok_clean [OF o that] by simp
    then show ?thesis
      using upds_graph [of "homes s" "content s" "content u" x] homes_graph [of _ _ s] by (simp add: homes_fst)
  qed
  then show ?thesis
    by (intro returns_mono [OF rec]) simp
qed

lemma crash_at_end:
  assumes o: "log_ok p {} s" and r: "rebooted p s (map (apfst unat) (commit_writes s)) u"
  shows "returns (initlog 1 u) (\<lambda>_ v. \<forall>x. unat x \<notin> log_area s \<longrightarrow> disk v (unat x) = content s x)"
proof -
  note l = log_okD [OF o] and g = commit_head_get [OF o]
  let ?B = "lh_block s ` {..<nat (lh_n s)}" and ?e = "put32 (commit_head s) 0 0"
  let ?f = "(upds (logged s) (\<lambda>x. disk s (unat x)))(log_start s := commit_head s)"
  have u: "content u x = ((upds (homes s) ?f)(log_start s := ?e)) x" for x
    using rebooted_content [OF r, of x] by (simp add: commit_writes_def)
  have "fst ` set (commit_writes s) \<subseteq> insert (log_start s) (log_blk s ` {..<nat (lh_n s)} \<union> ?B)"
    using upds_logged(4) [OF l(2)] homes_fst [of s] by (auto simp: commit_writes_def)
  then have sb: "content u 1 = content s 1"
    by (rule crash_superblock [OF o r])
  have c: "content u (log_start s) = ?e"
    by (simp add: u)
  have "returns (initlog 1 u) (\<lambda>_ v. \<forall>x. unat x \<notin> log_area s \<longrightarrow> disk v (unat x) = content u x)"
    using reboot_recovers [OF o r sb c [symmetric]] g(4) l(11) by (simp add: log_geom_def)
  note rec = this
  have "content u x = content s x" if x: "unat x \<notin> log_area s" for x
  proof -
    have s: "x \<noteq> log_start s"
      using x l(10) by auto
    have "?f x = content s x" if "x \<notin> ?B"
      using s upds_logged(2) [OF l(2) x] log_ok_clean [OF o that] by simp
    then have "upds (homes s) ?f x = content s x"
      using upds_graph [of "homes s" "content s" ?f x] homes_graph [of _ _ s] by (simp add: homes_fst)
    then show ?thesis
      using s by (simp add: u)
  qed
  then show ?thesis
    by (intro returns_mono [OF rec]) simp
qed

lemma take_commit_writes:
  assumes "0 < lh_n s" "k \<le> length (commit_writes s)"
  obtains "k \<le> nat (lh_n s)" "take k (commit_writes s) = take k (logged s)"
  | hs where "nat (lh_n s) < k" "set hs \<subseteq> set (homes s)"
      "take k (commit_writes s) = logged s @ [(log_start s, commit_head s)] @ hs"
  | "nat (lh_n s) < k" "take k (commit_writes s) = commit_writes s"
proof -
  have n: "length (logged s) = nat (lh_n s)" "length (homes s) = nat (lh_n s)"
    by (simp_all add: logged_def homes_def)
  have "length (commit_writes s) = 2 * nat (lh_n s) + 2"
    by (simp add: commit_writes_def n)
  then have "k \<le> nat (lh_n s) \<or> nat (lh_n s) < k \<and> k \<le> Suc (2 * nat (lh_n s)) \<or> k = length (commit_writes s) \<and> nat (lh_n s) < k"
    using assms(2) by linarith
  then consider "k \<le> nat (lh_n s)" | "nat (lh_n s) < k" "k \<le> Suc (2 * nat (lh_n s))" | "k = length (commit_writes s)" "nat (lh_n s) < k"
    by blast
  then show thesis
  proof cases
    case 2
    then have "take k (commit_writes s) = logged s @ [(log_start s, commit_head s)] @ take (k - Suc (nat (lh_n s))) (homes s)"
      using n by (simp add: commit_writes_def take_Cons' Suc_diff_Suc)
    then show thesis
      by (rule that(2) [OF 2(1) set_take_subset])
  next
    case 1
    then show thesis
      using that(1) n by (simp add: commit_writes_def)
  next
    case 3
    then show thesis
      using that(3) by simp
  qed
qed

subsection \<open>Recording a block\<close>

lemma log_slot_spec:
  "i \<le> log_slot n i f b \<and> log_slot n i f b \<le> i + n \<and> (\<forall>j. i \<le> j \<and> j < log_slot n i f b \<longrightarrow> f j \<noteq> b)
    \<and> (log_slot n i f b < i + n \<longrightarrow> f (log_slot n i f b) = b)"
proof (induction n arbitrary: i)
  case (Suc n)
  show ?case
  proof (cases "f i = b")
    case False
    let ?r = "log_slot n (Suc i) f b"
    have "f j \<noteq> b" if "i \<le> j" "j < ?r" for j
      using Suc.IH [of "Suc i"] False that by (cases "j = i") auto
    then show ?thesis
      using Suc.IH [of "Suc i"] False by auto
  qed auto
qed auto

definition recorded :: "u32 \<Rightarrow> 'x kjournal_scheme \<Rightarrow> 'x kjournal_scheme" where
  "recorded k s =
     (if k \<in> lh_block s ` {..<nat (lh_n s)} then s
      else s\<lparr>lh_block := (lh_block s)(nat (lh_n s) := k), lh_n := lh_n s + 1\<rparr>)"

lemma recorded_slot:
  assumes "0 \<le> lh_n s" "i = log_slot (nat (lh_n s)) 0 (lh_block s) k"
  shows "(let s = s\<lparr>lh_block := (lh_block s)(i := k)\<rparr> in if int i = lh_n s then s\<lparr>lh_n := lh_n s + 1\<rparr> else s) = recorded k s"
proof -
  note i = log_slot_spec [of 0 "nat (lh_n s)" "lh_block s" k, folded assms(2)]
  show ?thesis
  proof (cases "i < nat (lh_n s)")
    case True
    then have "k = lh_block s i" "k \<in> lh_block s ` {..<nat (lh_n s)}" "int i \<noteq> lh_n s"
      using i by auto
    then show ?thesis
      by (simp add: recorded_def)
  next
    case False
    then have "i = nat (lh_n s)"
      using i by simp
    moreover have "k \<notin> lh_block s ` {..<i}"
      using i by auto
    ultimately show ?thesis
      using assms(1) by (simp add: recorded_def)
  qed
qed

lemma recorded_sel:
  shows "mach (recorded k s) = mach s" "bufs (recorded k s) = bufs s" "bcache_ok p H (recorded k s) = bcache_ok p H s"
    "content (recorded k s) = content s" "dirty (recorded k s) = dirty s" "disk (recorded k s) = disk s"
    "dwrites (recorded k s) = dwrites s" "disksize (recorded k s) = disksize s" "log_start (recorded k s) = log_start s"
    "log_size (recorded k s) = log_size s" "log_dev (recorded k s) = log_dev s" "procs (recorded k s) = procs s"
    "log_outstanding (recorded k s) = log_outstanding s" "set_mach m (recorded k s) = recorded k (set_mach m s)"
  by (simp_all add: recorded_def)

lemma recorded_blocks:
  assumes "0 \<le> lh_n s"
  shows "lh_block (recorded k s) ` {..<nat (lh_n (recorded k s))} = insert k (lh_block s ` {..<nat (lh_n s)})"
    "inj_on (lh_block s) {..<nat (lh_n s)} \<Longrightarrow> inj_on (lh_block (recorded k s)) {..<nat (lh_n (recorded k s))}"
    "lh_n (recorded k s) = lh_n s + (if k \<in> lh_block s ` {..<nat (lh_n s)} then 0 else 1)"
proof -
  have n: "nat (lh_n s + 1) = Suc (nat (lh_n s))"
    using assms by simp
  show "lh_block (recorded k s) ` {..<nat (lh_n (recorded k s))} = insert k (lh_block s ` {..<nat (lh_n s)})"
    by (auto simp: recorded_def n lessThan_Suc)
  show "inj_on (lh_block (recorded k s)) {..<nat (lh_n (recorded k s))}" if "inj_on (lh_block s) {..<nat (lh_n s)}"
    using that by (auto simp: recorded_def n lessThan_Suc inj_on_def)
  show "lh_n (recorded k s) = lh_n s + (if k \<in> lh_block s ` {..<nat (lh_n s)} then 0 else 1)"
    by (simp add: recorded_def)
qed

lemma log_write_eq:
  assumes "quiet (mach s) p" "0 \<le> lh_n s" "lh_n s < int LOGSIZE" "lh_n s < log_size s - 1" "1 \<le> log_outstanding s"
  shows "log_write b s = Ret () (pin b (recorded (b_blockno (bufs s b)) s))"
proof -
  note q = quietD [OF assms(1)]
  let ?s = "set_mach (enter Lk_log (mach s)) s"
  define i where "i = log_slot (nat (lh_n ?s)) 0 (lh_block ?s) (b_blockno (bufs ?s b))"
  have "log_write b s = release Lk_log (pin b (let s = ?s\<lparr>lh_block := (lh_block ?s)(i := b_blockno (bufs ?s b))\<rparr>
      in if int i = lh_n s then s\<lparr>lh_n := lh_n s + 1\<rparr> else s))"
    using assms(2-) q by (simp add: log_write_def acquire_steady Let_def i_def split del: if_split cong: if_cong)
  also have "\<dots> = release Lk_log (pin b (recorded (b_blockno (bufs ?s b)) ?s))"
    using recorded_slot [OF _ i_def] assms(2) by simp
  also have "pin b (recorded (b_blockno (bufs ?s b)) ?s) = set_mach (enter Lk_log (mach s)) (pin b (recorded (b_blockno (bufs s b)) s))"
    by (simp add: pin_def recorded_sel)
  also have "release Lk_log \<dots> = Ret () (pin b (recorded (b_blockno (bufs s b)) s))"
    using q by (simp add: release_section pin_def recorded_sel)
  finally show ?thesis .
qed

lemma log_write_keeps:
  assumes o: "log_ok p H s" and b: "b \<in> H" and n: "lh_n s < log_size s - 1" and op: "1 \<le> log_outstanding s"
    and k: "k = b_blockno (bufs s b)" "unat k \<notin> log_area s" "k \<noteq> 1"
  shows "log_write b s = Ret () (pin b (recorded k s))" "log_ok p H (pin b (recorded k s))"
    "content (pin b (recorded k s)) = content s" "dirty (pin b (recorded k s)) = insert k (dirty s)"
    "disk (pin b (recorded k s)) = disk s" "log_area (pin b (recorded k s)) = log_area s"
proof -
  note l = log_okD [OF o]
  let ?r = "recorded k s"
  have size: "log_size s \<le> int LOGSIZE"
    using l(11) by (simp add: log_geom_def)
  show "log_write b s = Ret () (pin b ?r)"
    using log_write_eq [OF bcache_okD(1) [OF l(1)] l(6)] n op size k(1) by simp
  have r: "bcache_ok p H ?r" "b_blockno (bufs ?r b) = k"
    using l(1) k(1) by (simp_all add: recorded_sel)
  note pl = pin_law [OF r(1) b]
  show c: "content (pin b ?r) = content s" and d: "dirty (pin b ?r) = insert k (dirty s)" and "disk (pin b ?r) = disk s"
    using pl r(2) by (simp_all add: recorded_sel)
  note j = bio_frame_journal [OF pl(7)] bio_frameD(3) [OF pl(7)]
  show a: "log_area (pin b ?r) = log_area s"
    by (simp add: log_area_def j recorded_sel)
  have kd: "unat k < disksize s"
    using bcache_held(5) [OF l(1) b] k(1) by simp
  have im: "(\<forall>i < nat (lh_n ?r). P (lh_block ?r i)) \<longleftrightarrow> P k \<and> (\<forall>i < nat (lh_n s). P (lh_block s i))" for P
  proof -
    have "(\<forall>i < nat (lh_n ?r). P (lh_block ?r i)) \<longleftrightarrow> (\<forall>x \<in> lh_block ?r ` {..<nat (lh_n ?r)}. P x)"
      by auto
    then show ?thesis
      by (auto simp: recorded_blocks(1) [OF l(6)])
  qed
  have "0 \<le> lh_n ?r" "lh_n ?r < log_size s" "inj_on (lh_block ?r) {..<nat (lh_n ?r)}"
    using recorded_blocks(2,3) [OF l(6), of k] l(2,6) n by (auto simp: log_shape_def)
  then have sh: "log_shape (pin b ?r)"
    using l(2) kd k(2) im [of "\<lambda>x. unat x < disksize s \<and> unat x \<notin> log_area s"]
    unfolding log_shape_def j a recorded_sel by simp
  show "log_ok p H (pin b ?r)"
    using o sh pl(1) k(3) recorded_blocks(1) [OF l(6), of k] im [of "\<lambda>x. x \<noteq> 1"]
    unfolding log_ok_def c d j a recorded_sel by simp
qed

subsection \<open>A concrete log\<close>

text \<open>
  A disk of 1000 blocks with the superblock that mkfs writes (log of 30 blocks from block 2) and an empty log, and
  one transaction that has changed block 100.
\<close>

definition disk0 :: "nat \<Rightarrow> u8 list" where
  "disk0 k = (if k = 1 then put32 (put32 (replicate BSIZE 0) 12 30) 16 2 else replicate BSIZE 0)"

definition log0 :: kjournal where
  "log0 = kbio.extend (binit (bio0\<lparr>disk := disk0\<rparr>))
     (kjournal.fields 2 30 1 False 1 0 (\<lambda>_. 0))"

definition log1 :: kjournal where
  "log1 =
     (case bread 1 100 log0 of
        Ret b s \<Rightarrow> (case log_write b (set_data b (replicate BSIZE 1) s) of
          Ret _ s \<Rightarrow> (case brelse b s of Ret _ s \<Rightarrow> s | _ \<Rightarrow> log0)
        | _ \<Rightarrow> log0)
      | _ \<Rightarrow> log0)"

lemma log0_sel [simp]:
  "log_start log0 = 2" "log_size log0 = 30" "log_outstanding log0 = 1" "log_dev log0 = 1" "lh_n log0 = 0"
  "\<not> log_committing log0"
  by (simp_all add: log0_def kbio.defs kjournal.defs)

lemma get32_zero: "k + 3 < n \<Longrightarrow> get32 (replicate n 0) k = 0"
  by (simp add: get32_def)

lemma disk0_sel:
  "length (disk0 k) = BSIZE" "get32 (disk0 1) 12 = 30" "get32 (disk0 1) 16 = 2" "get32 (disk0 2) 0 = 0"
  by (simp_all add: disk0_def get32_zero)

lemma log0_ok: "log_ok 0 {} log0" "content log0 k = disk0 (unat k)" "disksize log0 = 1000"
proof -
  note b = binit_ok [of "bio0\<lparr>disk := disk0\<rparr>" 0]
  have z: "bcache_ok 0 {} (binit (bio0\<lparr>disk := disk0\<rparr>))" "dirty (binit (bio0\<lparr>disk := disk0\<rparr>)) = {}"
      "disksize (binit (bio0\<lparr>disk := disk0\<rparr>)) = 1000" "\<And>k. content (binit (bio0\<lparr>disk := disk0\<rparr>)) k = disk0 (unat k)"
    using b by (simp_all add: no_buf_def)
  have same: "bufs log0 = bufs (binit (bio0\<lparr>disk := disk0\<rparr>))" "sleeplocks log0 = sleeplocks (binit (bio0\<lparr>disk := disk0\<rparr>))"
      "disk log0 = disk (binit (bio0\<lparr>disk := disk0\<rparr>))" "disksize log0 = disksize (binit (bio0\<lparr>disk := disk0\<rparr>))"
      "procs log0 = procs (binit (bio0\<lparr>disk := disk0\<rparr>))"
    by (simp_all add: log0_def kbio.defs kjournal.defs)
  have "mach log0 = mach (binit (bio0\<lparr>disk := disk0\<rparr>))"
    by (rule machine.equality) (simp_all add: log0_def kbio.defs kjournal.defs)
  then have ok: "bcache_ok 0 {} log0"
    using z(1) same bcache_ok_cong [of log0 "binit (bio0\<lparr>disk := disk0\<rparr>)" 0 "{}"] by simp
  show c: "content log0 k = disk0 (unat k)" for k
    using cache_cong(3) [OF same(1,3)] z(4) by simp
  show "disksize log0 = 1000"
    using same(4) z(3) by simp
  then show "log_ok 0 {} log0"
    using ok cache_cong(2) [OF same(1)] z(2)
    by (simp add: log_ok_def log_shape_def c disk0_sel disk0_sel(2,3) [unfolded One_nat_def] superblock_of_def log_area_def)
qed

lemma log1_ok: "log_ok 0 {} log1" "0 < lh_n log1"
proof -
  note l = log_okD [OF log0_ok(1)]
  obtain b t where t: "bread 1 100 log0 = Ret b t" "editing 0 b 100 (content log0 100) log0 t"
    using editing_start [OF l(1), of 100] l(4) log0_ok(3) by (auto elim!: returnsE)
  let ?u = "set_data b (replicate BSIZE 1) t"
  have e: "editing 0 b 100 (replicate BSIZE 1) log0 ?u"
    using editing_set_data [OF t(2)] .
  note j = bio_frame_journal [of log0 ?u] bio_frameD(3) [of log0 ?u]
  have f: "bio_frame log0 ?u"
    using e by (simp add: editing_def)
  have u: "log_ok 0 {b} ?u"
    using log0_ok(1) e j [OF f] unfolding log_ok_def log_shape_def log_area_def editing_def by simp
  have w: "log_write b ?u = Ret () (pin b (recorded 100 ?u))" "log_ok 0 {b} (pin b (recorded 100 ?u))"
      "dirty (pin b (recorded 100 ?u)) = insert 100 (dirty ?u)"
    using log_write_keeps [OF u, of b 100] e j [OF f] by (simp_all add: editing_def log_area_def)
  note o = log_okD [OF w(2)]
  have bn: "b_blockno (bufs (pin b (recorded 100 ?u)) b) = 100"
    using e by (simp add: pin_def recorded_sel editing_def)
  then obtain v where v: "brelse b (pin b (recorded 100 ?u)) = Ret () v" "bcache_ok 0 {} v" "cache_step (pin b (recorded 100 ?u)) v"
    using brelse_law [OF o(1), of b] w(3) by (auto elim!: returns_unitE)
  have "log1 = v"
    using t(1) w(1) v(1) by (simp add: log1_def)
  moreover have "log_ok 0 {} v"
    using w(2) v(2) cache_step_same [OF v(3)] bio_frame_journal [of "pin b (recorded 100 ?u)" v] v(3)
    unfolding log_ok_def log_shape_def log_area_def same_blocks_def cache_step_def by simp
  moreover have "lh_n v = 1"
    using bio_frame_journal(6) [of "pin b (recorded 100 ?u)" v] v(3) bio_frame_journal(6) [of "recorded 100 ?u" "pin b (recorded 100 ?u)"]
      j [OF f] pin_law(7) [of 0 "{b}" "recorded 100 ?u" b] u log_okD(1) [OF u]
    by (simp add: cache_step_def recorded_sel recorded_def)
  ultimately show "log_ok 0 {} log1" "0 < lh_n log1"
    by simp_all
qed

lemma commit_final:
  assumes o: "log_ok p {} s" and x: "unat x \<notin> log_area s"
  shows "upds (commit_writes s) (\<lambda>x. disk s (unat x)) x = content s x"
proof -
  note l = log_okD [OF o]
  let ?f = "(upds (logged s) (\<lambda>x. disk s (unat x)))(log_start s := commit_head s)"
  have s: "x \<noteq> log_start s"
    using x l(10) by auto
  then have "?f x = content s x" if "x \<notin> lh_block s ` {..<nat (lh_n s)}"
    using upds_logged(2) [OF l(2) x] log_ok_clean [OF o that] by simp
  then have "upds (homes s) ?f x = content s x"
    using upds_graph [of "homes s" "content s" ?f x] homes_graph [of _ _ s] by (simp add: homes_fst)
  then show ?thesis
    using s by (simp add: commit_writes_def)
qed

subsection \<open>Properties\<close>

text \<open>C2 (log.c \<^verbatim>\<open>commit\<close>, \<^verbatim>\<open>recover_from_log\<close>): transactions are atomic across crashes. A commit of a non-empty
  transaction returns, and its writes bring every block outside the log to its cached contents. If the machine stops after
  any number \<open>k\<close> of these disk writes and boots again, \<^verbatim>\<open>initlog\<close> leaves every block outside the log as it was before
  the transaction when \<open>k\<close> is at most the number of logged blocks, and with the transaction's contents otherwise.\<close>

theorem commit_survives_crashes:
  assumes "log_ok p {} s" "0 < lh_n s"
  shows "\<exists>ws. returns (commit s) (\<lambda>_ t. lh_n t = 0 \<and> dirty t = {} \<and> dwrites t = dwrites s @ ws \<and> disk t = upds ws (disk s)
      \<and> (\<forall>x :: u32. unat x \<notin> log_area s \<longrightarrow> disk t (unat x) = content s x))
    \<and> (\<forall>k \<le> length ws. \<forall>u. rebooted p s (take k ws) u \<longrightarrow>
        returns (initlog 1 u) (\<lambda>_ v. \<forall>x :: u32. unat x \<notin> log_area s \<longrightarrow>
          disk v (unat x) = (if k \<le> nat (lh_n s) then disk s (unat x) else content s x)))"
proof (intro exI [of _ "map (apfst unat) (commit_writes s)"] conjI allI impI)
  note l = log_okD [OF assms(1)]
  show "returns (commit s) (\<lambda>_ t. lh_n t = 0 \<and> dirty t = {} \<and> dwrites t = dwrites s @ map (apfst unat) (commit_writes s)
      \<and> disk t = upds (map (apfst unat) (commit_writes s)) (disk s)
      \<and> (\<forall>x :: u32. unat x \<notin> log_area s \<longrightarrow> disk t (unat x) = content s x))"
    by (rule returns_mono [OF commit_writes_log [OF assms]])
      (simp add: wrote_def upds_map_inj [OF inj_unat] commit_final [OF assms(1)])
next
  fix k u
  assume k: "k \<le> length (map (apfst unat) (commit_writes s))" and u: "rebooted p s (take k (map (apfst unat) (commit_writes s))) u"
  show "returns (initlog 1 u) (\<lambda>_ v. \<forall>x :: u32. unat x \<notin> log_area s \<longrightarrow>
      disk v (unat x) = (if k \<le> nat (lh_n s) then disk s (unat x) else content s x))"
  proof (rule take_commit_writes [OF assms(2), of k])
    assume "k \<le> nat (lh_n s)" "take k (commit_writes s) = take k (logged s)"
    then show ?thesis
      using crash_before_commit [OF assms(1), of k u] u by (simp add: take_map)
  next
    fix hs
    assume "nat (lh_n s) < k" "set hs \<subseteq> set (homes s)" "take k (commit_writes s) = logged s @ [(log_start s, commit_head s)] @ hs"
    then show ?thesis
      using crash_after_header [OF assms(1), of hs u] u by (simp add: take_map)
  next
    assume "nat (lh_n s) < k" "take k (commit_writes s) = commit_writes s"
    then show ?thesis
      using crash_at_end [OF assms(1), of u] u by (simp add: take_map)
  qed (use k in simp)
qed

theorem commit_survives_crashes_witness:
  "\<exists>ws. returns (commit log1) (\<lambda>_ t. lh_n t = 0 \<and> dirty t = {} \<and> dwrites t = dwrites log1 @ ws \<and> disk t = upds ws (disk log1)
      \<and> (\<forall>x :: u32. unat x \<notin> log_area log1 \<longrightarrow> disk t (unat x) = content log1 x))
    \<and> (\<forall>k \<le> length ws. \<forall>u. rebooted 0 log1 (take k ws) u \<longrightarrow>
        returns (initlog 1 u) (\<lambda>_ v. \<forall>x :: u32. unat x \<notin> log_area log1 \<longrightarrow>
          disk v (unat x) = (if k \<le> nat (lh_n log1) then disk log1 (unat x) else content log1 x)))"
  using commit_survives_crashes [OF log1_ok] .

text \<open>C21 (log.c \<^verbatim>\<open>log_write\<close>): recording a block keeps the log well formed. With a transaction open and room left, recording a
  held block outside the log pins it in the cache and leaves its contents and the disk alone; the recorded blocks stay
  distinct and are exactly the dirty ones, a block already recorded taking no new place.\<close>

theorem log_write_keeps_log:
  assumes "log_ok p H s" "b \<in> H" "lh_n s < log_size s - 1" "1 \<le> log_outstanding s"
    and "unat (b_blockno (bufs s b)) \<notin> log_area s" "b_blockno (bufs s b) \<noteq> 1"
  shows "returns (log_write b s) (\<lambda>_ t. log_ok p H t \<and> content t = content s \<and> disk t = disk s
    \<and> dirty t = insert (b_blockno (bufs s b)) (dirty s)
    \<and> lh_n t = lh_n s + (if b_blockno (bufs s b) \<in> dirty s then 0 else 1))"
proof -
  let ?k = "b_blockno (bufs s b)"
  note w = log_write_keeps [OF assms(1-4) refl assms(5,6)] and l = log_okD [OF assms(1)]
  have "bcache_ok p H (recorded ?k s)"
    using l(1) by (simp add: recorded_sel)
  then have "lh_n (pin b (recorded ?k s)) = lh_n (recorded ?k s)"
    using bio_frame_journal(6) pin_law(7) assms(2) by blast
  then show ?thesis
    using w recorded_blocks(3) [OF l(6), of ?k] by (simp add: l(3))
qed



theorem log_write_keeps_log_witness:
  "\<exists>b t. bread 1 100 log0 = Ret b t \<and> returns (log_write b t) (\<lambda>_ u. log_ok 0 {b} u \<and> dirty u = {100} \<and> lh_n u = 1)"
proof -
  note l = log_okD [OF log0_ok(1)]
  obtain b t where t: "bread 1 100 log0 = Ret b t" "editing 0 b 100 (content log0 100) log0 t"
    using editing_start [OF l(1), of 100] l(4) log0_ok(3) by (auto elim!: returnsE)
  have f: "bio_frame log0 t"
    using t(2) by (simp add: editing_def)
  note j = bio_frame_journal [OF f] bio_frameD(3) [OF f]
  have o: "log_ok 0 {b} t"
    using log0_ok(1) t(2) j unfolding log_ok_def log_shape_def log_area_def editing_def by simp
  have "returns (log_write b t) (\<lambda>_ u. log_ok 0 {b} u \<and> content u = content t \<and> disk u = disk t
    \<and> dirty u = insert 100 (dirty t) \<and> lh_n u = lh_n t + (if 100 \<in> dirty t then 0 else 1))"
    using log_write_keeps_log [OF o, of b] t(2) j by (simp add: editing_def log_area_def)
  moreover have "dirty t = {}" "lh_n t = 0"
    using t(2) j l(3) by (simp_all add: editing_def)
  ultimately show ?thesis
    using t(1) by (auto elim!: returns_unitE)
qed

end
