(* ===== verification/Inode.thy ===== *)
theory Inode
  imports Log
begin

section \<open>Blocks and inodes (fs.c, first half)\<close>

text \<open>
  The free-block bitmap, the inode cache and the mapping from the blocks of a file to the blocks of the disk.
  An inode of the cache is named by its index in \<^verbatim>\<open>icache.inode\<close>; null pointers are the callers' \<open>None\<close>. Disk
  inodes are 64 bytes: four shorts, the size and thirteen block addresses.
\<close>

abbreviation (input) BPB :: nat where "BPB \<equiv> 4096"
abbreviation (input) IPB :: nat where "IPB \<equiv> 8"
abbreviation (input) NDIRECT :: nat where "NDIRECT \<equiv> 12"
abbreviation (input) NINDIRECT :: nat where "NINDIRECT \<equiv> 128"
abbreviation (input) NINODE :: nat where "NINODE \<equiv> 50"
abbreviation (input) T_DIR :: u16 where "T_DIR \<equiv> 1"
abbreviation (input) T_FILE :: u16 where "T_FILE \<equiv> 2"
abbreviation (input) T_DEV :: u16 where "T_DEV \<equiv> 3"

record inode =
  i_dev :: u32
  i_inum :: u32
  i_ref :: int
  i_valid :: bool
  i_type :: u16
  i_major :: u16
  i_minor :: u16
  i_nlink :: u16
  i_size :: u32
  i_addrs :: "nat \<Rightarrow> u32"

record kfs = kjournal +
  fs_sb :: superblock
  inodes :: "nat \<Rightarrow> inode"

lemma kfs_mach [simp]:
  "mach (s\<lparr>fs_sb := x0\<rparr>) = mach s" "mach (s\<lparr>inodes := x1\<rparr>) = mach s"
  by (rule machine.equality; simp)+

lemma kfs_set_mach [simp]:
  "fs_sb (set_mach m s) = fs_sb s" "inodes (set_mach m s) = inodes s"
  "set_mach m (s\<lparr>fs_sb := x0\<rparr>) = (set_mach m s)\<lparr>fs_sb := x0\<rparr>"
  "set_mach m (s\<lparr>inodes := x1\<rparr>) = (set_mach m s)\<lparr>inodes := x1\<rparr>"
  by (cases s; cases m; simp add: set_mach_def machine.defs)+


definition upd_inode :: "nat \<Rightarrow> (inode \<Rightarrow> inode) \<Rightarrow> 'x kfs_scheme \<Rightarrow> 'x kfs_scheme" where
  "upd_inode i f s = s\<lparr>inodes := (inodes s)(i := f (inodes s i))\<rparr>"

definition BBLOCK :: "nat \<Rightarrow> superblock \<Rightarrow> u32" where
  "BBLOCK b sb = word_of_nat (b div BPB) + sb_bmapstart sb"

definition IBLOCK :: "u32 \<Rightarrow> superblock \<Rightarrow> u32" where
  "IBLOCK i sb = word_of_nat (unat i div IPB) + sb_inodestart sb"

subsection \<open>Blocks\<close>

definition bzero :: "u32 \<Rightarrow> u32 \<Rightarrow> 'x kfs_scheme \<Rightarrow> (unit, 'x kfs_scheme) outcome" where
  "bzero dev bno s =
     seq (bread dev bno s) (\<lambda>bp s.
     let s = set_data bp (replicate BSIZE 0) s in
     seq (log_write bp s) (\<lambda>_ s. brelse bp s))"

text \<open>The inner loop of \<^verbatim>\<open>balloc\<close>: the first clear bit of the block that describes the blocks from \<open>b\<close> on.\<close>

definition bit_mask :: "nat \<Rightarrow> u8" where
  "bit_mask bi = push_bit (bi mod 8) 1"

definition free_bit :: "u8 list \<Rightarrow> nat \<Rightarrow> nat \<Rightarrow> nat option" where
  "free_bit d b sbsize = find (\<lambda>bi. d ! (bi div 8) AND bit_mask bi = 0) [0..<min BPB (sbsize - b)]"

definition set_bit_at :: "u8 list \<Rightarrow> nat \<Rightarrow> u8 list" where
  "set_bit_at d bi = d[bi div 8 := d ! (bi div 8) OR bit_mask bi]"

definition clear_bit_at :: "u8 list \<Rightarrow> nat \<Rightarrow> u8 list" where
  "clear_bit_at d bi = d[bi div 8 := d ! (bi div 8) AND NOT (bit_mask bi)]"

function balloc_loop :: "u32 \<Rightarrow> nat \<Rightarrow> nat \<Rightarrow> 'x kfs_scheme \<Rightarrow> (u32, 'x kfs_scheme) outcome" where
  "balloc_loop dev sbsize b s =
     (if b < sbsize then
        seq (bread dev (BBLOCK b (fs_sb s)) s) (\<lambda>bp s.
        case free_bit (b_data (bufs s bp)) b sbsize of
          Some bi \<Rightarrow>
            let s = set_data bp (set_bit_at (b_data (bufs s bp)) bi) s in
            seq (log_write bp s) (\<lambda>_ s.
            seq (brelse bp s) (\<lambda>_ s.
            seq (bzero dev (word_of_nat (b + bi)) s) (\<lambda>_ s.
            Ret (word_of_nat (b + bi)) s)))
        | None \<Rightarrow> seq (brelse bp s) (\<lambda>_ s. balloc_loop dev sbsize (b + BPB) s))
      else Panic ''balloc: out of blocks'')"
  by pat_completeness auto
termination
  by (relation "measure (\<lambda>(dev, n, b, s). n - b)") auto

definition balloc :: "u32 \<Rightarrow> 'x kfs_scheme \<Rightarrow> (u32, 'x kfs_scheme) outcome" where
  "balloc dev s = balloc_loop dev (unat (sb_size (fs_sb s))) 0 s"

definition bfree :: "u32 \<Rightarrow> u32 \<Rightarrow> 'x kfs_scheme \<Rightarrow> (unit, 'x kfs_scheme) outcome" where
  "bfree dev b s =
     seq (bread dev (BBLOCK (unat b) (fs_sb s)) s) (\<lambda>bp s.
     let bi = unat b mod BPB in
     if b_data (bufs s bp) ! (bi div 8) AND bit_mask bi = 0 then Panic ''freeing free block''
     else let s = set_data bp (clear_bit_at (b_data (bufs s bp)) bi) s in
          seq (log_write bp s) (\<lambda>_ s. brelse bp s))"

subsection \<open>The inode cache\<close>

definition iinit :: "u32 \<Rightarrow> 'x kfs_scheme \<Rightarrow> (unit, 'x kfs_scheme) outcome" where
  "iinit dev s =
     (let s = initlock Lk_icache ''icache'' s;
          s = fold (\<lambda>i. initsleeplock (SL_inode i) ''inode'') [0..<NINODE] s
      in seq (readsb dev s) (\<lambda>sb s. Ret () (cprintf ''sb: size %d nblocks %d ninodes %d nlog %d logstart %d inodestart %d bmap start %d'' (s\<lparr>fs_sb := sb\<rparr>))))"

definition iget :: "u32 \<Rightarrow> u32 \<Rightarrow> 'x kfs_scheme \<Rightarrow> (nat, 'x kfs_scheme) outcome" where
  "iget dev inum s =
     seq (acquire Lk_icache s) (\<lambda>_ s.
     case find (\<lambda>i. i_ref (inodes s i) > 0 \<and> i_dev (inodes s i) = dev \<and> i_inum (inodes s i) = inum) [0..<NINODE] of
       Some ip \<Rightarrow>
         let s = upd_inode ip (\<lambda>x. x\<lparr>i_ref := i_ref x + 1\<rparr>) s in
         seq (release Lk_icache s) (\<lambda>_ s. Ret ip s)
     | None \<Rightarrow>
         (case find (\<lambda>i. i_ref (inodes s i) = 0) [0..<NINODE] of
            None \<Rightarrow> Panic ''iget: no inodes''
          | Some ip \<Rightarrow>
              let s = upd_inode ip (\<lambda>x. x\<lparr>i_dev := dev, i_inum := inum, i_ref := 1, i_valid := False\<rparr>) s in
              seq (release Lk_icache s) (\<lambda>_ s. Ret ip s)))"

text \<open>The disk inode at offset \<open>o\<close> of a block, written from and read into an inode of the cache.\<close>

definition dinode_at :: "u32 \<Rightarrow> nat" where
  "dinode_at inum = 64 * (unat inum mod IPB)"

definition put_dinode :: "inode \<Rightarrow> nat \<Rightarrow> u8 list \<Rightarrow> u8 list" where
  "put_dinode x at d =
     (let d = put16 d at (i_type x);
          d = put16 d (at + 2) (i_major x);
          d = put16 d (at + 4) (i_minor x);
          d = put16 d (at + 6) (i_nlink x);
          d = put32 d (at + 8) (i_size x)
      in fold (\<lambda>i d. put32 d (at + 12 + 4 * i) (i_addrs x i)) [0..<NDIRECT + 1] d)"

definition get_dinode :: "u8 list \<Rightarrow> nat \<Rightarrow> inode \<Rightarrow> inode" where
  "get_dinode d at x =
     x\<lparr>i_type := get16 d at, i_major := get16 d (at + 2), i_minor := get16 d (at + 4), i_nlink := get16 d (at + 6),
       i_size := get32 d (at + 8),
       i_addrs := (\<lambda>i. if i < NDIRECT + 1 then get32 d (at + 12 + 4 * i) else i_addrs x i)\<rparr>"

definition ialloc :: "u32 \<Rightarrow> u16 \<Rightarrow> 'x kfs_scheme \<Rightarrow> (nat, 'x kfs_scheme) outcome" where
  "ialloc dev type s =
     seq (for_until [1..<unat (sb_ninodes (fs_sb s))] (\<lambda>inum s.
       let inum = word_of_nat inum in
       seq (bread dev (IBLOCK inum (fs_sb s)) s) (\<lambda>bp s.
       let d = b_data (bufs s bp); at = dinode_at inum in
       if get16 d at = 0
       then let s = set_data bp (put16 (splice d at (replicate 64 0)) at type) s in
            seq (log_write bp s) (\<lambda>_ s.
            seq (brelse bp s) (\<lambda>_ s.
            seq (iget dev inum s) (\<lambda>ip s. Ret (Some ip) s)))
       else seq (brelse bp s) (\<lambda>_ s. Ret None s))) s) (\<lambda>r s.
     case r of Some ip \<Rightarrow> Ret ip s | None \<Rightarrow> Panic ''ialloc: no inodes'')"

definition iupdate :: "nat \<Rightarrow> 'x kfs_scheme \<Rightarrow> (unit, 'x kfs_scheme) outcome" where
  "iupdate ip s =
     seq (bread (i_dev (inodes s ip)) (IBLOCK (i_inum (inodes s ip)) (fs_sb s)) s) (\<lambda>bp s.
     let s = set_data bp (put_dinode (inodes s ip) (dinode_at (i_inum (inodes s ip))) (b_data (bufs s bp))) s in
     seq (log_write bp s) (\<lambda>_ s. brelse bp s))"

definition idup :: "nat \<Rightarrow> 'x kfs_scheme \<Rightarrow> (nat, 'x kfs_scheme) outcome" where
  "idup ip s =
     seq (acquire Lk_icache s) (\<lambda>_ s.
     seq (release Lk_icache (upd_inode ip (\<lambda>x. x\<lparr>i_ref := i_ref x + 1\<rparr>) s)) (\<lambda>_ s. Ret ip s))"

definition ilock :: "nat \<Rightarrow> 'x kfs_scheme \<Rightarrow> (unit, 'x kfs_scheme) outcome" where
  "ilock ip s =
     (if i_ref (inodes s ip) < 1 then Panic ''ilock''
      else seq (acquiresleep (SL_inode ip) s) (\<lambda>_ s.
           if i_valid (inodes s ip) then Ret () s
           else seq (bread (i_dev (inodes s ip)) (IBLOCK (i_inum (inodes s ip)) (fs_sb s)) s) (\<lambda>bp s.
                let s = upd_inode ip (get_dinode (b_data (bufs s bp)) (dinode_at (i_inum (inodes s ip)))) s in
                seq (brelse bp s) (\<lambda>_ s.
                let s = upd_inode ip (\<lambda>x. x\<lparr>i_valid := True\<rparr>) s in
                if i_type (inodes s ip) = 0 then Panic ''ilock: no type'' else Ret () s))))"

definition iunlock :: "nat \<Rightarrow> 'x kfs_scheme \<Rightarrow> (unit, 'x kfs_scheme) outcome" where
  "iunlock ip s =
     seq (holdingsleep (SL_inode ip) s) (\<lambda>h s.
     if \<not> h \<or> i_ref (inodes s ip) < 1 then Panic ''iunlock'' else releasesleep (SL_inode ip) s)"

subsection \<open>The blocks of a file\<close>

text \<open>The three ways \<^verbatim>\<open>bmap\<close> finds a block: a direct one, the indirect block, and an entry of the indirect block.\<close>

definition bmap_direct :: "nat \<Rightarrow> nat \<Rightarrow> 'x kfs_scheme \<Rightarrow> (u32, 'x kfs_scheme) outcome" where
  "bmap_direct ip k s =
     (let a = i_addrs (inodes s ip) k in
      if a = 0
      then seq (balloc (i_dev (inodes s ip)) s) (\<lambda>a s.
           Ret a (upd_inode ip (\<lambda>x. x\<lparr>i_addrs := (i_addrs x)(k := a)\<rparr>) s))
      else Ret a s)"

definition bmap :: "nat \<Rightarrow> nat \<Rightarrow> 'x kfs_scheme \<Rightarrow> (u32, 'x kfs_scheme) outcome" where
  "bmap ip bn s =
     (if bn < NDIRECT then bmap_direct ip bn s
      else let bn = bn - NDIRECT in
           if bn < NINDIRECT
           then seq (bmap_direct ip NDIRECT s) (\<lambda>a s.
                seq (bread (i_dev (inodes s ip)) a s) (\<lambda>bp s.
                let a = get32 (b_data (bufs s bp)) (4 * bn) in
                seq (if a = 0
                     then seq (balloc (i_dev (inodes s ip)) s) (\<lambda>a s.
                          let s = set_data bp (put32 (b_data (bufs s bp)) (4 * bn) a) s in
                          seq (log_write bp s) (\<lambda>_ s. Ret a s))
                     else Ret a s) (\<lambda>a s.
                seq (brelse bp s) (\<lambda>_ s. Ret a s))))
           else Panic ''bmap: out of range'')"

definition itrunc :: "nat \<Rightarrow> 'x kfs_scheme \<Rightarrow> (unit, 'x kfs_scheme) outcome" where
  "itrunc ip s =
     seq (for_each [0..<NDIRECT] (\<lambda>i s.
       if i_addrs (inodes s ip) i \<noteq> 0
       then seq (bfree (i_dev (inodes s ip)) (i_addrs (inodes s ip) i) s) (\<lambda>_ s.
            Ret () (upd_inode ip (\<lambda>x. x\<lparr>i_addrs := (i_addrs x)(i := 0)\<rparr>) s))
       else Ret () s) s) (\<lambda>_ s.
     seq (whenb (i_addrs (inodes s ip) NDIRECT \<noteq> 0) (\<lambda>s.
       seq (bread (i_dev (inodes s ip)) (i_addrs (inodes s ip) NDIRECT) s) (\<lambda>bp s.
       seq (for_each [0..<NINDIRECT] (\<lambda>j s.
         let a = get32 (b_data (bufs s bp)) (4 * j) in
         whenb (a \<noteq> 0) (bfree (i_dev (inodes s ip)) a) s) s) (\<lambda>_ s.
       seq (brelse bp s) (\<lambda>_ s.
       seq (bfree (i_dev (inodes s ip)) (i_addrs (inodes s ip) NDIRECT) s) (\<lambda>_ s.
       Ret () (upd_inode ip (\<lambda>x. x\<lparr>i_addrs := (i_addrs x)(NDIRECT := 0)\<rparr>) s)))))) s) (\<lambda>_ s.
     iupdate ip (upd_inode ip (\<lambda>x. x\<lparr>i_size := 0\<rparr>) s)))"

definition iput :: "nat \<Rightarrow> 'x kfs_scheme \<Rightarrow> (unit, 'x kfs_scheme) outcome" where
  "iput ip s =
     seq (acquiresleep (SL_inode ip) s) (\<lambda>_ s.
     seq (whenb (i_valid (inodes s ip) \<and> i_nlink (inodes s ip) = 0) (\<lambda>s.
       seq (acquire Lk_icache s) (\<lambda>_ s.
       let r = i_ref (inodes s ip) in
       seq (release Lk_icache s) (\<lambda>_ s.
       whenb (r = 1) (\<lambda>s.
         seq (itrunc ip s) (\<lambda>_ s.
         seq (iupdate ip (upd_inode ip (\<lambda>x. x\<lparr>i_type := 0\<rparr>) s)) (\<lambda>_ s.
         Ret () (upd_inode ip (\<lambda>x. x\<lparr>i_valid := False\<rparr>) s)))) s))) s) (\<lambda>_ s.
     seq (releasesleep (SL_inode ip) s) (\<lambda>_ s.
     seq (acquire Lk_icache s) (\<lambda>_ s.
     release Lk_icache (upd_inode ip (\<lambda>x. x\<lparr>i_ref := i_ref x - 1\<rparr>) s)))))"

definition iunlockput :: "nat \<Rightarrow> 'x kfs_scheme \<Rightarrow> (unit, 'x kfs_scheme) outcome" where
  "iunlockput ip s = seq (iunlock ip s) (\<lambda>_ s. iput ip s)"

record stat =
  st_type :: u16
  st_dev :: u32
  st_ino :: u32
  st_nlink :: u16
  st_size :: u32

definition stati :: "nat \<Rightarrow> 'x kfs_scheme \<Rightarrow> stat" where
  "stati ip s =
     \<lparr>st_type = i_type (inodes s ip), st_dev = i_dev (inodes s ip), st_ino = i_inum (inodes s ip),
      st_nlink = i_nlink (inodes s ip), st_size = i_size (inodes s ip)\<rparr>"

end
