(* ===== verification/Ring.thy ===== *)
theory Ring
  imports Prelude
begin

section \<open>Ring buffers with free-running counters\<close>

text \<open>
  The console's input and the pipes keep their bytes in a buffer of \<open>N\<close> cells between two 32-bit counters that are
  never reset; a counter modulo \<open>N\<close> is an index. As \<open>N\<close> divides the range of the counters, their wrapping around does
  not disturb the contents.
\<close>

definition ring :: "nat \<Rightarrow> (nat \<Rightarrow> 'a) \<Rightarrow> u32 \<Rightarrow> u32 \<Rightarrow> 'a list" where
  "ring N f r w = map (\<lambda>i. f (unat (r + word_of_nat i) mod N)) [0..<unat (w - r)]"

lemma length_ring [simp]: "length (ring N f r w) = unat (w - r)"
  by (simp add: ring_def)

lemma ring_same [simp]: "ring N f r r = []"
  by (simp add: ring_def)

lemma ring_empty_iff [simp]: "ring N f r w = [] \<longleftrightarrow> w = r"
  by (auto simp: ring_def unat_eq_0)

lemma ring_index:
  fixes r :: u32
  assumes "N dvd 4294967296"
  shows "unat (r + word_of_nat i) mod N = (unat r + i) mod N"
proof -
  have "unat (r + word_of_nat i) = (unat r + i) mod 4294967296"
    by (simp add: unat_word_ariths unat_of_nat mod_simps)
  then show ?thesis
    using assms by (simp add: mod_mod_cancel)
qed

lemma word_of_nat_unat_sub: "r + word_of_nat (unat (w - r)) = (w :: u32)"
  by simp

lemma ring_split:
  assumes "unat (w - r) \<le> unat (e - r)"
  shows "ring N f r e = ring N f r w @ ring N f w e"
proof -
  have "unat (e - w) = unat (e - r) - unat (w - r)"
    using unat_sub_offset [of "unat (w - r)" e r] unat_u32 [of "w - r"] assms by simp
  then have d: "unat (e - r) = unat (w - r) + unat (e - w)"
    using assms by simp
  have "map g [0..<m + n] = map g [0..<m] @ map (\<lambda>i. g (m + i)) [0..<n]" for g :: "nat \<Rightarrow> 'a" and m n
    by (induction n) simp_all
  then show ?thesis
    unfolding ring_def d by (simp add: add.assoc [symmetric])
qed

lemma unat_sub_next: "unat (w - r) < 4294967295 \<Longrightarrow> unat (w + 1 - r) = Suc (unat (w - r))" for w r :: u32
  using unat_add_of_nat [of "w - r" 1] by (simp add: algebra_simps)

lemma unat_sub_prev: "e \<noteq> r \<Longrightarrow> unat (e - 1 - r) = unat (e - r) - 1" for e r :: u32
  using unat_minus_one [of "e - r"] by (simp add: algebra_simps)

lemma ring_upd_other:
  assumes "N dvd 4294967296" "unat (w - r) < N"
  shows "ring N (f(unat w mod N := x)) r w = ring N f r w"
proof -
  have "(unat r + i) mod N \<noteq> unat w mod N" if "i < unat (w - r)" for i
  proof
    assume "(unat r + i) mod N = unat w mod N"
    then have "(unat r + unat (w - r)) mod N = (unat r + i) mod N"
      using ring_index [OF assms(1), of r "unat (w - r)"] by simp
    then have "N dvd (unat (w - r) - i)"
      using that mod_eq_dvd_iff_nat [of "unat r + i" "unat r + unat (w - r)" N] by simp
    then show False
      using that assms(2) nat_dvd_not_less [of "unat (w - r) - i" N] by simp
  qed
  then show ?thesis
    by (simp add: ring_def ring_index [OF assms(1)])
qed

lemma ring_push:
  assumes "N dvd 4294967296" "N < 4294967296" "unat (w - r) < N"
  shows "ring N (f(unat w mod N := x)) r (w + 1) = ring N f r w @ [x]"
proof -
  have "unat (w + 1 - r) = Suc (unat (w - r))"
    using assms by (intro unat_sub_next) simp
  then have "ring N g r (w + 1) = ring N g r w @ [g (unat w mod N)]" for g :: "nat \<Rightarrow> 'a"
    by (simp add: ring_def)
  then show ?thesis
    using ring_upd_other [OF assms(1,3)] by simp
qed

lemma ring_pop:
  assumes "w \<noteq> r"
  shows "ring N f r w = f (unat r mod N) # ring N f (r + 1) w"
proof -
  have "0 < unat (w - r)"
    using assms by (simp add: unat_gt_0)
  then have "unat (w - r) = Suc (unat (w - (r + 1)))"
    using assms by (simp add: unat_sub_Suc)
  then show ?thesis
    by (simp add: ring_def upt_conv_Cons map_Suc_upt [symmetric] add.assoc del: upt_Suc)
qed

lemma ring_back:
  assumes "e \<noteq> r"
  shows "ring N f r (e - 1) = butlast (ring N f r e)"
proof -
  have "0 < unat (e - r)"
    using assms by (simp add: unat_gt_0)
  then have "unat (e - r) = Suc (unat (e - 1 - r))"
    using unat_sub_prev [OF assms] by simp
  then show ?thesis
    by (simp add: ring_def)
qed

lemma ring_last:
  assumes "e \<noteq> r"
  shows "last (ring N f r e) = f (unat (e - 1) mod N)"
proof -
  have "0 < unat (e - r)"
    using assms by (simp add: unat_gt_0)
  then have "unat (e - r) = Suc (unat (e - 1 - r))"
    using unat_sub_prev [OF assms] by simp
  then show ?thesis
    by (simp add: ring_def)
qed

lemma counter_ahead_iff:
  fixes e r :: u32
  assumes "n < 4294967296"
  shows "e = r + word_of_nat n \<longleftrightarrow> unat (e - r) = n"
proof
  assume "e = r + word_of_nat n"
  then show "unat (e - r) = n"
    using assms by (simp add: unat_of_nat)
next
  assume "unat (e - r) = n"
  then have "word_of_nat n = e - r"
    by auto
  then show "e = r + word_of_nat n"
    by simp
qed

end
