(* ===== verification/Console.thy ===== *)
theory Console
  imports Inode Ring
begin

section \<open>The console (console.c)\<close>

text \<open>
  Output goes to the serial port, recorded in \<open>uart_out\<close>, and to the text screen \<open>crt\<close> of 25 rows by 80 columns
  with the cursor in \<open>crt_pos\<close>, the register the code reads through the ports of the display. Input characters come from
  the function \<^verbatim>\<open>getc\<close> that the keyboard and serial drivers pass to \<^verbatim>\<open>consoleintr\<close>, here the list of the
  values it returns before a negative one. \<open>devsw\<close> says for which major numbers the device switch has the console's
  functions.
\<close>

abbreviation (input) BACKSPACE :: int where "BACKSPACE \<equiv> 256"
abbreviation (input) INPUT_BUF :: nat where "INPUT_BUF \<equiv> 128"
abbreviation (input) NDEV :: nat where "NDEV \<equiv> 10"

record kcons = kfs +
  in_buf :: "nat \<Rightarrow> u8"
  in_r :: u32
  in_w :: u32
  in_e :: u32
  cons_locking :: bool
  panicked :: bool
  crt :: "nat \<Rightarrow> u16"
  crt_pos :: int
  uart_out :: "int list"
  devsw :: "nat \<Rightarrow> bool"

lemma kcons_mach [simp]:
  "mach (s\<lparr>in_buf := x0\<rparr>) = mach s" "mach (s\<lparr>in_r := x1\<rparr>) = mach s"
  "mach (s\<lparr>in_w := x2\<rparr>) = mach s" "mach (s\<lparr>in_e := x3\<rparr>) = mach s"
  "mach (s\<lparr>cons_locking := x4\<rparr>) = mach s"
  "mach (s\<lparr>panicked := x5\<rparr>) = mach s" "mach (s\<lparr>crt := x6\<rparr>) = mach s"
  "mach (s\<lparr>crt_pos := x7\<rparr>) = mach s"
  "mach (s\<lparr>uart_out := x8\<rparr>) = mach s" "mach (s\<lparr>devsw := x9\<rparr>) = mach s"
  by (rule machine.equality; simp)+

lemma kcons_set_mach [simp]:
  "in_buf (set_mach m s) = in_buf s" "in_r (set_mach m s) = in_r s" "in_w (set_mach m s) = in_w s"
  "in_e (set_mach m s) = in_e s" "cons_locking (set_mach m s) = cons_locking s"
  "panicked (set_mach m s) = panicked s" "crt (set_mach m s) = crt s"
  "crt_pos (set_mach m s) = crt_pos s" "uart_out (set_mach m s) = uart_out s"
  "devsw (set_mach m s) = devsw s"
  "set_mach m (s\<lparr>in_buf := x0\<rparr>) = (set_mach m s)\<lparr>in_buf := x0\<rparr>"
  "set_mach m (s\<lparr>in_r := x1\<rparr>) = (set_mach m s)\<lparr>in_r := x1\<rparr>"
  "set_mach m (s\<lparr>in_w := x2\<rparr>) = (set_mach m s)\<lparr>in_w := x2\<rparr>"
  "set_mach m (s\<lparr>in_e := x3\<rparr>) = (set_mach m s)\<lparr>in_e := x3\<rparr>"
  "set_mach m (s\<lparr>cons_locking := x4\<rparr>) = (set_mach m s)\<lparr>cons_locking := x4\<rparr>"
  "set_mach m (s\<lparr>panicked := x5\<rparr>) = (set_mach m s)\<lparr>panicked := x5\<rparr>"
  "set_mach m (s\<lparr>crt := x6\<rparr>) = (set_mach m s)\<lparr>crt := x6\<rparr>"
  "set_mach m (s\<lparr>crt_pos := x7\<rparr>) = (set_mach m s)\<lparr>crt_pos := x7\<rparr>"
  "set_mach m (s\<lparr>uart_out := x8\<rparr>) = (set_mach m s)\<lparr>uart_out := x8\<rparr>"
  "set_mach m (s\<lparr>devsw := x9\<rparr>) = (set_mach m s)\<lparr>devsw := x9\<rparr>"
  by (cases s; cases m; simp add: set_mach_def machine.defs)+


subsection \<open>Output\<close>

definition uartputc :: "int \<Rightarrow> 'x kcons_scheme \<Rightarrow> 'x kcons_scheme" where
  "uartputc c s = s\<lparr>uart_out := uart_out s @ [c]\<rparr>"

text \<open>Where the character goes and where the cursor goes after it, and the scrolling of a full screen.\<close>

definition cga_place :: "int \<Rightarrow> 'x kcons_scheme \<Rightarrow> int \<times> 'x kcons_scheme" where
  "cga_place c s =
     (let pos = crt_pos s in
      if c = 10 then (pos + (80 - pos mod 80), s)
      else if c = BACKSPACE then (if pos > 0 then pos - 1 else pos, s)
      else (pos + 1, s\<lparr>crt := (crt s)(nat pos := (word_of_int c AND 0xff) OR 0x0700)\<rparr>))"

definition cga_scroll :: "int \<Rightarrow> 'x kcons_scheme \<Rightarrow> int \<times> 'x kcons_scheme" where
  "cga_scroll pos s =
     (if pos div 80 \<ge> 24
      then let s = s\<lparr>crt := (\<lambda>i. if i < 23 * 80 then crt s (i + 80) else crt s i)\<rparr>;
               pos = pos - 80
           in (pos, s\<lparr>crt := (\<lambda>i. if nat pos \<le> i \<and> i < 24 * 80 then 0 else crt s i)\<rparr>)
      else (pos, s))"

definition cgaputc :: "int \<Rightarrow> 'x kcons_scheme \<Rightarrow> (unit, 'x kcons_scheme) outcome" where
  "cgaputc c s =
     (let (pos, s) = cga_place c s in
      if pos < 0 \<or> pos > 25 * 80 then Panic ''pos under/overflow''
      else let (pos, s) = cga_scroll pos s;
               s = s\<lparr>crt_pos := pos mod 65536\<rparr>
           in Ret () (s\<lparr>crt := (crt s)(nat pos := 0x20 OR 0x0700)\<rparr>))"

definition consputc :: "int \<Rightarrow> 'x kcons_scheme \<Rightarrow> (unit, 'x kcons_scheme) outcome" where
  "consputc c s =
     (if panicked s then Diverge
      else cgaputc c (if c = BACKSPACE then uartputc 8 (uartputc 32 (uartputc 8 s)) else uartputc c s))"

text \<open>The digits of \<open>x\<close>, least significant first, as the do-while loop leaves them in \<^verbatim>\<open>buf\<close>.\<close>

function digit_chars :: "nat \<Rightarrow> nat \<Rightarrow> int list" where
  "digit_chars base x =
     (let c = (if x mod base < 10 then 48 + int (x mod base) else 87 + int (x mod base)) in
      if x div base = 0 \<or> base < 2 then [c] else c # digit_chars base (x div base))"
  by pat_completeness auto
termination
proof (relation "measure snd", goal_cases)
  case (2 base x c)
  then have "0 < x"
    by (cases "x = 0") auto
  then show ?case
    using 2 by simp
qed simp

declare digit_chars.simps [simp del]

definition int_chars :: "u32 \<Rightarrow> nat \<Rightarrow> bool \<Rightarrow> int list" where
  "int_chars xx base sg =
     (let neg = sg \<and> sint xx < 0;
          x = (if neg then - xx else xx)
      in digit_chars base (unat x) @ (if neg then [45] else []))"

definition printint :: "u32 \<Rightarrow> nat \<Rightarrow> bool \<Rightarrow> 'x kcons_scheme \<Rightarrow> (unit, 'x kcons_scheme) outcome" where
  "printint xx base sg s = for_each (rev (int_chars xx base sg)) consputc s"

text \<open>The arguments on the stack: numbers, and strings that may be null.\<close>

datatype fmt_arg = Num u32 | Text "int list option"

fun cprintf_loop :: "int list \<Rightarrow> fmt_arg list \<Rightarrow> 'x kcons_scheme \<Rightarrow> (unit, 'x kcons_scheme) outcome" where
  "cprintf_loop [] args s = Ret () s"
| "cprintf_loop [c] args s = (if c \<noteq> 37 then consputc c s else Ret () s)"
| "cprintf_loop (c # c' # fmt) args s =
     (if c \<noteq> 37 then seq (consputc c s) (\<lambda>_ s. cprintf_loop (c' # fmt) args s)
      else if c' = 100 then
        (case args of Num x # args \<Rightarrow> seq (printint x 10 True s) (\<lambda>_ s. cprintf_loop fmt args s)
         | _ \<Rightarrow> Fault ''cprintf argument'')
      else if c' = 120 \<or> c' = 112 then
        (case args of Num x # args \<Rightarrow> seq (printint x 16 False s) (\<lambda>_ s. cprintf_loop fmt args s)
         | _ \<Rightarrow> Fault ''cprintf argument'')
      else if c' = 115 then
        (case args of
           Text t # args \<Rightarrow>
             seq (for_each (case t of Some t \<Rightarrow> t | None \<Rightarrow> [40, 110, 117, 108, 108, 41]) consputc s) (\<lambda>_ s.
             cprintf_loop fmt args s)
         | _ \<Rightarrow> Fault ''cprintf argument'')
      else if c' = 37 then seq (consputc 37 s) (\<lambda>_ s. cprintf_loop fmt args s)
      else seq (consputc 37 s) (\<lambda>_ s. seq (consputc c' s) (\<lambda>_ s. cprintf_loop fmt args s)))"

definition cons_cprintf :: "int list \<Rightarrow> fmt_arg list \<Rightarrow> 'x kcons_scheme \<Rightarrow> (unit, 'x kcons_scheme) outcome" where
  "cons_cprintf fmt args s =
     (let locking = cons_locking s in
      seq (whenb locking (acquire Lk_cons) s) (\<lambda>_ s.
      seq (cprintf_loop fmt args s) (\<lambda>_ s.
      whenb locking (release Lk_cons) s)))"

subsection \<open>Input\<close>

definition in_at :: "u32 \<Rightarrow> nat" where
  "in_at i = unat i mod INPUT_BUF"

text \<open>
  The loop that erases a line: \<open>n\<close> is \<open>e - w\<close>, the number of characters not yet handed to readers, so the test
  \<^verbatim>\<open>input.e != input.w\<close> is that it is not 0.
\<close>

primrec kill_line :: "nat \<Rightarrow> 'x kcons_scheme \<Rightarrow> (unit, 'x kcons_scheme) outcome" where
  "kill_line 0 s = Ret () s"
| "kill_line (Suc n) s =
     (if in_buf s (in_at (in_e s - 1)) \<noteq> 10
      then seq (consputc BACKSPACE (s\<lparr>in_e := in_e s - 1\<rparr>)) (\<lambda>_ s. kill_line n s)
      else Ret () s)"

definition cons_char :: "int \<Rightarrow> 'x kcons_scheme \<Rightarrow> (unit, 'x kcons_scheme) outcome" where
  "cons_char c s =
     (if c \<noteq> 0 \<and> unat (in_e s - in_r s) < INPUT_BUF
      then let c = (if c = 13 then 10 else c);
               s = s\<lparr>in_buf := (in_buf s)(in_at (in_e s) := word_of_int c)\<rparr>;
               s = s\<lparr>in_e := in_e s + 1\<rparr>
           in seq (consputc c s) (\<lambda>_ s.
              if c = 10 \<or> c = 4 \<or> in_e s = in_r s + word_of_nat INPUT_BUF
              then wakeup (Some Ch_input) (s\<lparr>in_w := in_e s\<rparr>)
              else Ret () s)
      else Ret () s)"

text \<open>One character: the result says whether it asks for the process listing.\<close>

definition consoleintr_char :: "int \<Rightarrow> 'x kcons_scheme \<Rightarrow> (bool, 'x kcons_scheme) outcome" where
  "consoleintr_char c s =
     (if c = 16 then Ret True s
      else if c = 21 then seq (kill_line (unat (in_e s - in_w s)) s) (\<lambda>_ s. Ret False s)
      else if c = 8 \<or> c = 127
      then if in_e s \<noteq> in_w s
           then seq (consputc BACKSPACE (s\<lparr>in_e := in_e s - 1\<rparr>)) (\<lambda>_ s. Ret False s)
           else Ret False s
      else seq (cons_char c s) (\<lambda>_ s. Ret False s))"

fun consoleintr_loop :: "int list \<Rightarrow> bool \<Rightarrow> 'x kcons_scheme \<Rightarrow> (bool, 'x kcons_scheme) outcome" where
  "consoleintr_loop [] doprocdump s = Ret doprocdump s"
| "consoleintr_loop (c # cs) doprocdump s =
     seq (consoleintr_char c s) (\<lambda>r s. consoleintr_loop cs (doprocdump \<or> r) s)"

text \<open>The result says whether the interrupt goes on to print the process listing, after the lock is released.\<close>

definition consoleintr :: "int list \<Rightarrow> 'x kcons_scheme \<Rightarrow> (bool, 'x kcons_scheme) outcome" where
  "consoleintr cs s =
     seq (acquire Lk_cons s) (\<lambda>_ s.
     seq (consoleintr_loop cs False s) (\<lambda>r s.
     seq (release Lk_cons s) (\<lambda>_ s. Ret r s)))"

text \<open>
  The loop of \<^verbatim>\<open>consoleread\<close>, with \<open>n\<close> more bytes wanted and \<open>out\<close> delivered so far: \<open>None\<close> when the reader was
  killed, else the bytes. \<open>consoleread_resume\<close> is what a reader does that was asleep.
\<close>

fun consoleread_loop :: "nat \<Rightarrow> u8 list \<Rightarrow> 'x kcons_scheme \<Rightarrow> (u8 list option, 'x kcons_scheme) outcome" where
  "consoleread_loop 0 out s = Ret (Some out) s"
| "consoleread_loop (Suc n) out s =
     (if in_r s = in_w s
      then seq (curproc s) (\<lambda>p s.
           if killed (procs s p) then Ret None s
           else seq (sleep (Some Ch_input) (Some Lk_cons) s) (\<lambda>_ s. Ret None s))
      else let c = in_buf s (in_at (in_r s)); s = s\<lparr>in_r := in_r s + 1\<rparr> in
           if c = 4
           then Ret (Some out) (if out \<noteq> [] then s\<lparr>in_r := in_r s - 1\<rparr> else s)
           else if c = 10 then Ret (Some (out @ [c])) s
           else consoleread_loop n (out @ [c]) s)"

definition consoleread_end :: "nat \<Rightarrow> u8 list option \<Rightarrow> 'x kcons_scheme \<Rightarrow> (int \<times> u8 list, 'x kcons_scheme) outcome" where
  "consoleread_end ip r s =
     seq (release Lk_cons s) (\<lambda>_ s.
     seq (ilock ip s) (\<lambda>_ s.
     Ret (case r of None \<Rightarrow> (-1, []) | Some out \<Rightarrow> (int (length out), out)) s))"

definition consoleread :: "nat \<Rightarrow> int \<Rightarrow> 'x kcons_scheme \<Rightarrow> (int \<times> u8 list, 'x kcons_scheme) outcome" where
  "consoleread ip n s =
     seq (iunlock ip s) (\<lambda>_ s.
     seq (acquire Lk_cons s) (\<lambda>_ s.
     seq (consoleread_loop (nat n) [] s) (\<lambda>r s. consoleread_end ip r s)))"

definition consoleread_resume ::
    "nat \<Rightarrow> nat \<Rightarrow> nat \<Rightarrow> u8 list \<Rightarrow> 'x kcons_scheme \<Rightarrow> (int \<times> u8 list, 'x kcons_scheme) outcome" where
  "consoleread_resume p ip n out s =
     seq (sleep_resume p Lk_cons s) (\<lambda>_ s.
     seq (consoleread_loop n out s) (\<lambda>r s. consoleread_end ip r s))"

definition consolewrite :: "nat \<Rightarrow> u8 list \<Rightarrow> int \<Rightarrow> 'x kcons_scheme \<Rightarrow> (int, 'x kcons_scheme) outcome" where
  "consolewrite ip buf n s =
     seq (iunlock ip s) (\<lambda>_ s.
     seq (acquire Lk_cons s) (\<lambda>_ s.
     seq (for_each (take (nat n) buf) (\<lambda>c. consputc (int (unat c))) s) (\<lambda>_ s.
     seq (release Lk_cons s) (\<lambda>_ s.
     seq (ilock ip s) (\<lambda>_ s. Ret n s)))))"

definition consoleinit :: "'x kcons_scheme \<Rightarrow> 'x kcons_scheme" where
  "consoleinit s =
     (let s = initlock Lk_cons ''console'' s;
          s = s\<lparr>devsw := (devsw s)(1 := True)\<rparr>
      in s\<lparr>cons_locking := True\<rparr>)"

subsection \<open>Numbers\<close>

text \<open>The value that digits in the order of \<^verbatim>\<open>buf\<close>, the least significant first, stand for.\<close>

definition digit_val :: "int \<Rightarrow> nat" where
  "digit_val c = nat (if c \<le> 57 then c - 48 else c - 87)"

fun digits_val :: "nat \<Rightarrow> int list \<Rightarrow> nat" where
  "digits_val base [] = 0"
| "digits_val base (c # cs) = digit_val c + base * digits_val base cs"

text \<open>What a reader makes of the printed text: an optional sign and digits, the most significant first.\<close>

definition read_int :: "nat \<Rightarrow> int list \<Rightarrow> int" where
  "read_int base cs =
     (case cs of
        [] \<Rightarrow> 0
      | c # cs' \<Rightarrow> if c = 45 then - int (digits_val base (rev cs')) else int (digits_val base (rev cs)))"

lemma digit_chars_val:
  assumes "2 \<le> base" "base \<le> 16"
  shows "digits_val base (digit_chars base x) = x"
proof (induction x rule: less_induct)
  case (less x)
  have m: "x mod base < base"
    using assms by simp
  have d: "digit_val (if x mod base < 10 then 48 + int (x mod base) else 87 + int (x mod base)) = x mod base"
    by (simp add: digit_val_def)
  show ?case
  proof (cases "x div base = 0")
    case True
    then show ?thesis
      using d mod_mult_div_eq [of x base] by (subst digit_chars.simps) (simp add: Let_def)
  next
    case False
    then have "x div base < x"
      using assms by (cases "x = 0") auto
    from less.IH [OF this] show ?thesis
      using False assms d mod_mult_div_eq [of x base] by (subst digit_chars.simps) (simp add: Let_def)
  qed
qed

lemma digit_chars_nonempty: "digit_chars base x \<noteq> []"
  by (subst digit_chars.simps) (simp add: Let_def)

lemma digit_chars_range:
  "2 \<le> base \<Longrightarrow> c \<in> set (digit_chars base x) \<Longrightarrow> 48 \<le> c \<and> c < 87 + int base"
proof (induction base x rule: digit_chars.induct)
  case (1 base x)
  then have "x mod base < base"
    by simp
  then show ?case
    using 1 by (subst (asm) (2) digit_chars.simps) (auto simp: Let_def split: if_splits)
qed

lemma sint_eq_uint: "sint (x :: u32) = (if uint x < 2147483648 then uint x else uint x - 4294967296)"
  using uint_lt2p [of x]
  by (simp add: sint_uint signed_take_bit_eq_take_bit_shift take_bit_eq_mod mod_pos_geq split: if_splits)

lemma sint_cases: "sint (x :: u32) = (if sint x < 0 then - uint (- x) else uint x)"
proof (cases "uint x < 2147483648")
  case False
  then have "uint (- x) = 4294967296 - uint x"
    using uint_lt2p [of x] by (simp add: uint_word_ariths zmod_zminus1_eq_if)
  then show ?thesis
    using False uint_lt2p [of x] by (simp add: sint_eq_uint)
qed (simp add: sint_eq_uint)

subsection \<open>Output\<close>

text \<open>
  The cursor is on one of the 24 rows that scroll. What the serial port receives for a character, and what a
  sequence of characters changes: the serial line, the cursor and cells of the 24 rows.
\<close>

definition on_screen :: "'x kcons_scheme \<Rightarrow> bool" where
  "on_screen s \<longleftrightarrow> \<not> panicked s \<and> 0 \<le> crt_pos s \<and> crt_pos s < 1920"

definition echo :: "int \<Rightarrow> int list" where
  "echo c = (if c = BACKSPACE then [8, 32, 8] else [c])"

lemma echo_plain: "BACKSPACE \<notin> set cs \<Longrightarrow> concat (map echo cs) = cs"
  by (induction cs) (auto simp: echo_def)

definition printed :: "int list \<Rightarrow> 'x kcons_scheme \<Rightarrow> 'x kcons_scheme \<Rightarrow> bool" where
  "printed cs s t \<longleftrightarrow>
     (\<exists>scr pos. t = s\<lparr>uart_out := uart_out s @ concat (map echo cs), crt := scr, crt_pos := pos\<rparr>
        \<and> 0 \<le> pos \<and> pos < 1920 \<and> (\<forall>i \<ge> 1920. scr i = crt s i))"

lemma printed_Nil [simp]: "on_screen s \<Longrightarrow> printed [] s s"
  unfolding printed_def on_screen_def by (intro exI [of _ "crt s"] exI [of _ "crt_pos s"]) simp

lemma printed_sel:
  assumes "printed cs s t"
  shows "uart_out t = uart_out s @ concat (map echo cs)" "panicked t = panicked s" "in_buf t = in_buf s"
    "in_r t = in_r s" "in_w t = in_w s" "in_e t = in_e s" "mach t = mach s" "procs t = procs s"
    "cons_locking t = cons_locking s" "0 \<le> crt_pos t" "crt_pos t < 1920" "1920 \<le> i \<Longrightarrow> crt t i = crt s i"
  using assms by (auto simp: printed_def)

lemma printed_on_screen: "printed cs s t \<Longrightarrow> on_screen s \<Longrightarrow> on_screen t"
  using printed_sel [of cs s t] by (simp add: on_screen_def)

lemma printed_trans:
  assumes "printed cs s t" "printed ds t u"
  shows "printed (cs @ ds) s u"
proof -
  obtain scr pos where t: "t = s\<lparr>uart_out := uart_out s @ concat (map echo cs), crt := scr, crt_pos := pos\<rparr>"
      "\<forall>i \<ge> 1920. scr i = crt s i"
    using assms(1) by (auto simp: printed_def)
  obtain scr' pos' where u: "u = t\<lparr>uart_out := uart_out t @ concat (map echo ds), crt := scr', crt_pos := pos'\<rparr>"
      "0 \<le> pos'" "pos' < 1920" "\<forall>i \<ge> 1920. scr' i = crt t i"
    using assms(2) by (auto simp: printed_def)
  have "u = s\<lparr>uart_out := uart_out s @ concat (map echo (cs @ ds)), crt := scr', crt_pos := pos'\<rparr>"
    unfolding u(1) unfolding t(1) by simp
  moreover have "\<forall>i \<ge> 1920. scr' i = crt s i"
    using t u(4) by simp
  ultimately show ?thesis
    unfolding printed_def using u(2,3) by blast
qed

lemma cga_place_bounds:
  assumes "0 \<le> crt_pos s" "crt_pos s < 1920"
  shows "\<exists>scr pos. cga_place c s = (pos, s\<lparr>crt := scr\<rparr>) \<and> 0 \<le> pos \<and> pos \<le> 1920 \<and> (\<forall>i \<ge> 1920. scr i = crt s i)"
proof -
  have "crt_pos s div 80 \<le> 23"
    using assms(2) zdiv_mono1 [of "crt_pos s" 1919 80] by simp
  then have "crt_pos s + (80 - crt_pos s mod 80) \<le> 1920"
    using mult_div_mod_eq [of 80 "crt_pos s"] by linarith
  moreover have "0 \<le> crt_pos s + (80 - crt_pos s mod 80)"
    using assms(1) pos_mod_bound [of 80 "crt_pos s"] by linarith
  ultimately have nl: ?thesis if "c = 10"
    using that by (simp add: cga_place_def Let_def) (intro exI [of _ "crt s"], simp)
  have bs: ?thesis if "c = BACKSPACE"
    using that assms by (simp add: cga_place_def Let_def) (intro conjI impI exI [of _ "crt s"]; simp)
  have ?thesis if "c \<noteq> 10" "c \<noteq> BACKSPACE"
    using that assms by (simp add: cga_place_def Let_def) (intro exI conjI, rule refl, auto)
  then show ?thesis
    using nl bs by blast
qed

lemma cga_scroll_bounds:
  assumes "0 \<le> pos" "pos \<le> 1920"
  shows "\<exists>scr pos'. cga_scroll pos s = (pos', s\<lparr>crt := scr\<rparr>) \<and> 0 \<le> pos' \<and> pos' < 1920 \<and> (\<forall>i \<ge> 1920. scr i = crt s i)"
proof (cases "pos div 80 \<ge> 24")
  case True
  then have "pos = 1920"
    using assms mult_div_mod_eq [of 80 pos] pos_mod_sign [of 80 pos] by linarith
  then show ?thesis
    by (simp add: cga_scroll_def) (intro exI conjI, rule refl, simp)
next
  case False
  then have "pos div 80 \<le> 23" "pos mod 80 < 80"
    by simp_all
  then have b: "pos < 1920"
    using mult_div_mod_eq [of 80 pos] by linarith
  have "cga_scroll pos s = (pos, s\<lparr>crt := crt s\<rparr>)"
    using False unfolding cga_scroll_def by (simp only: if_False) simp
  then show ?thesis
    using b assms(1) by (intro exI [of _ "crt s"] exI [of _ pos]) simp
qed

lemma cgaputc_on_screen:
  assumes "0 \<le> crt_pos s" "crt_pos s < 1920"
  shows "\<exists>scr pos. cgaputc c s = Ret () (s\<lparr>crt := scr, crt_pos := pos\<rparr>)
     \<and> 0 \<le> pos \<and> pos < 1920 \<and> (\<forall>i \<ge> 1920. scr i = crt s i)"
proof -
  obtain scr pos where p: "cga_place c s = (pos, s\<lparr>crt := scr\<rparr>)" "0 \<le> pos" "pos \<le> 1920" "\<forall>i \<ge> 1920. scr i = crt s i"
    using cga_place_bounds [OF assms] by blast
  obtain scr' pos' where q: "cga_scroll pos (s\<lparr>crt := scr\<rparr>) = (pos', s\<lparr>crt := scr'\<rparr>)" "0 \<le> pos'" "pos' < 1920"
      "\<forall>i \<ge> 1920. scr' i = scr i"
    using cga_scroll_bounds [OF p(2,3), of "s\<lparr>crt := scr\<rparr>"] by (simp, blast)
  have "pos' mod 65536 = pos'"
    using q by simp
  then have "cgaputc c s = Ret () (s\<lparr>crt := scr'(nat pos' := 0x20 OR 0x0700), crt_pos := pos'\<rparr>)"
    using p q by (simp add: cgaputc_def)
  then show ?thesis
    using p(4) q(2-) by (intro exI [of _ "scr'(nat pos' := 0x20 OR 0x0700)"] exI [of _ pos']) auto
qed

lemma consputc_printed:
  assumes "on_screen s"
  shows "returns (consputc c s) (\<lambda>_ t. printed [c] s t)"
proof -
  define u where "u = s\<lparr>uart_out := uart_out s @ echo c\<rparr>"
  have eq: "consputc c s = cgaputc c u"
    using assms by (simp add: consputc_def on_screen_def uartputc_def u_def echo_def)
  obtain scr pos where "cgaputc c u = Ret () (u\<lparr>crt := scr, crt_pos := pos\<rparr>)" "0 \<le> pos" "pos < 1920"
      "\<forall>i \<ge> 1920. scr i = crt s i"
    using cgaputc_on_screen [of u c] assms by (auto simp: u_def on_screen_def)
  then show ?thesis
    unfolding eq printed_def by (auto simp: u_def)
qed

lemma prints_all:
  assumes "on_screen s"
  shows "returns (for_each cs consputc s) (\<lambda>_ t. printed cs s t)"
  using assms
proof (induction cs arbitrary: s)
  case (Cons c cs)
  obtain t where t: "consputc c s = Ret () t" "printed [c] s t"
    using consputc_printed [OF Cons.prems, of c] by (auto elim: returns_unitE)
  obtain u where "for_each cs consputc t = Ret () u" "printed cs t u"
    using Cons.IH [OF printed_on_screen [OF t(2) Cons.prems]] by (auto elim: returns_unitE)
  then show ?case
    using t printed_trans [of "[c]" s t cs u] by simp
qed simp

text \<open>A console with a blank screen over the file system of \<open>log0\<close>, with an empty inode cache.\<close>

definition no_inode :: inode where
  "no_inode = \<lparr>i_dev = 0, i_inum = 0, i_ref = 0, i_valid = False, i_type = 0, i_major = 0, i_minor = 0, i_nlink = 0,
     i_size = 0, i_addrs = (\<lambda>_. 0)\<rparr>"

definition fs0 :: kfs where
  "fs0 = kjournal.extend log0
     (kfs.fields \<lparr>sb_size = 1000, sb_nblocks = 941, sb_ninodes = 200, sb_nlog = 30, sb_logstart = 2,
        sb_inodestart = 32, sb_bmapstart = 58\<rparr> (\<lambda>_. no_inode))"

definition cons0 :: kcons where
  "cons0 = kfs.extend fs0 (kcons.fields (\<lambda>_. 0) 0 0 0 True False (\<lambda>_. 0) 0 [] (\<lambda>m. m = 1))"

lemma cons0_sel [simp]:
  "\<not> panicked cons0" "crt_pos cons0 = 0" "uart_out cons0 = []" "crt cons0 = (\<lambda>_. 0)" "in_r cons0 = 0"
  "in_w cons0 = 0" "in_e cons0 = 0" "in_buf cons0 = (\<lambda>_. 0)" "cons_locking cons0"
  by (simp_all add: cons0_def kfs.defs kcons.defs)

lemma on_screen_cons0 [simp]: "on_screen cons0"
  by (simp add: on_screen_def)





subsection \<open>Input\<close>

text \<open>
  The bytes that readers may take and the line that is still being edited; \<open>edit\<close> is what a character does to
  the two. The buffer holds at most \<open>INPUT_BUF\<close> bytes, and a line ends with its newline.
\<close>

definition in_done :: "'x kcons_scheme \<Rightarrow> u8 list" where
  "in_done s = ring INPUT_BUF (in_buf s) (in_r s) (in_w s)"

definition in_line :: "'x kcons_scheme \<Rightarrow> u8 list" where
  "in_line s = ring INPUT_BUF (in_buf s) (in_w s) (in_e s)"

definition in_ok :: "'x kcons_scheme \<Rightarrow> bool" where
  "in_ok s \<longleftrightarrow> unat (in_e s - in_r s) \<le> INPUT_BUF \<and> unat (in_w s - in_r s) \<le> unat (in_e s - in_r s)
     \<and> 10 \<notin> set (in_line s)"

definition edit :: "int \<Rightarrow> u8 list \<times> u8 list \<Rightarrow> u8 list \<times> u8 list" where
  "edit c = (\<lambda>(done, line).
     if c = 16 then (done, line)
     else if c = 21 then (done, [])
     else if c = 8 \<or> c = 127 then (done, butlast line)
     else if c = 0 \<or> INPUT_BUF \<le> length done + length line then (done, line)
     else let b = (if c = 13 then 10 else word_of_int c); line' = line @ [b] in
          if b = 10 \<or> b = 4 \<or> length done + length line' = INPUT_BUF then (done @ line', []) else (done, line'))"

definition edits :: "int \<Rightarrow> 'x kcons_scheme \<Rightarrow> 'x kcons_scheme \<Rightarrow> bool" where
  "edits c s t \<longleftrightarrow> in_ok t \<and> on_screen t \<and> mach t = mach s \<and> (in_done t, in_line t) = edit c (in_done s, in_line s)"

lemma in_ring: "INPUT_BUF dvd 4294967296" "INPUT_BUF < 4294967296"
  by simp_all

lemma in_okD:
  assumes "in_ok s"
  shows "unat (in_w s - in_r s) + unat (in_e s - in_w s) = unat (in_e s - in_r s)"
    "length (in_done s) + length (in_line s) = unat (in_e s - in_r s)" "unat (in_e s - in_r s) \<le> INPUT_BUF"
proof -
  have "length (ring INPUT_BUF (in_buf s) (in_r s) (in_e s)) = length (in_done s @ in_line s)"
    using assms ring_split [of "in_w s" "in_r s" "in_e s" INPUT_BUF "in_buf s"]
    by (simp only: in_ok_def in_done_def in_line_def)
  then show "length (in_done s) + length (in_line s) = unat (in_e s - in_r s)"
    by simp
  then show "unat (in_w s - in_r s) + unat (in_e s - in_w s) = unat (in_e s - in_r s)"
    by (simp add: in_done_def in_line_def)
qed (use assms in \<open>simp add: in_ok_def\<close>)

lemma in_erase:
  assumes "in_ok s" "in_e s \<noteq> in_w s"
  shows "in_ok (s\<lparr>in_e := in_e s - 1\<rparr>)" "in_line (s\<lparr>in_e := in_e s - 1\<rparr>) = butlast (in_line s)"
    "in_done (s\<lparr>in_e := in_e s - 1\<rparr>) = in_done s"
proof -
  show line: "in_line (s\<lparr>in_e := in_e s - 1\<rparr>) = butlast (in_line s)"
    using ring_back [OF assms(2)] by (simp add: in_line_def)
  have "unat (in_e s - in_w s) \<noteq> 0"
    using assms(2) by (simp add: unat_eq_0)
  then have "unat (in_w s - in_r s) < unat (in_e s - in_r s)"
    using in_okD(1) [OF assms(1)] by linarith
  moreover from this have "in_e s \<noteq> in_r s"
    by auto
  ultimately have "unat (in_w s - in_r s) \<le> unat (in_e s - 1 - in_r s)" "unat (in_e s - 1 - in_r s) \<le> INPUT_BUF"
    using in_okD(3) [OF assms(1)] by (simp_all add: unat_sub_prev)
  then show "in_ok (s\<lparr>in_e := in_e s - 1\<rparr>)"
    using assms(1) in_set_butlastD [of 10 "in_line s"] unfolding in_ok_def line by auto
qed (simp add: in_done_def)

lemma kill_line_clears:
  assumes "in_ok s" "on_screen s" "unat (in_e s - in_w s) = n"
  shows "returns (kill_line n s) (\<lambda>_ t. in_e t = in_w s \<and> in_w t = in_w s \<and> in_r t = in_r s \<and> in_buf t = in_buf s
     \<and> mach t = mach s \<and> on_screen t)"
  using assms
proof (induction n arbitrary: s)
  case 0
  then show ?case
    by (simp add: unat_eq_0)
next
  case (Suc n)
  let ?u = "s\<lparr>in_e := in_e s - 1\<rparr>"
  have ne: "in_e s \<noteq> in_w s"
    using Suc.prems(3) by auto
  have nn: "unat (in_e ?u - in_w ?u) = n"
    using unat_sub_prev [OF ne] Suc.prems(3) by simp
  have "in_line s \<noteq> []"
    using ne by (simp add: in_line_def)
  then have "last (in_line s) \<in> set (in_line s)"
    by (rule last_in_set)
  then have c: "in_buf s (in_at (in_e s - 1)) \<noteq> 10"
    using Suc.prems(1) ring_last [OF ne, of INPUT_BUF "in_buf s"] by (auto simp: in_ok_def in_line_def in_at_def)
  obtain t where t: "consputc BACKSPACE ?u = Ret () t" "printed [BACKSPACE] ?u t"
    using consputc_printed [of ?u BACKSPACE] Suc.prems(2) by (auto simp: on_screen_def elim: returns_unitE)
  note sel = printed_sel [OF t(2)]
  have "in_ok ?u"
    by (rule in_erase(1) [OF Suc.prems(1) ne])
  then have "in_ok t"
    using sel by (simp add: in_ok_def in_line_def)
  moreover have "on_screen t"
    using printed_on_screen [OF t(2)] Suc.prems(2) by (simp add: on_screen_def)
  ultimately have "returns (kill_line n t) (\<lambda>_ v. in_e v = in_w t \<and> in_w v = in_w t \<and> in_r v = in_r t
      \<and> in_buf v = in_buf t \<and> mach v = mach t \<and> on_screen v)"
    using nn sel by (intro Suc.IH) simp_all
  then show ?case
    using c t(1) sel by simp
qed

lemma in_store:
  fixes b :: u8
  assumes "in_ok s" "unat (in_e s - in_r s) < INPUT_BUF"
  defines "t \<equiv> s\<lparr>in_buf := (in_buf s)(in_at (in_e s) := b), in_e := in_e s + 1\<rparr>"
  shows "in_done t = in_done s" "in_line t = in_line s @ [b]" "unat (in_e t - in_r t) = Suc (unat (in_e s - in_r s))"
proof -
  have l: "unat (in_w s - in_r s) \<le> unat (in_e s - in_r s)" "unat (in_e s - in_w s) < INPUT_BUF"
    using in_okD(1) [OF assms(1)] assms(2) by linarith+
  show "unat (in_e t - in_r t) = Suc (unat (in_e s - in_r s))"
    using unat_sub_next [of "in_e s" "in_r s"] assms(2) by (simp add: t_def)
  show line: "in_line t = in_line s @ [b]"
    using ring_push [OF in_ring l(2), of "in_buf s" b] by (simp add: t_def in_line_def in_at_def)
  have "in_done t @ in_line t = in_done s @ in_line s @ [b]"
    using ring_push [OF in_ring assms(2), of "in_buf s" b]
      ring_split [OF l(1), of INPUT_BUF "in_buf s"]
      ring_split [of "in_w s" "in_r s" "in_e s + 1" INPUT_BUF "(in_buf s)(in_at (in_e s) := b)"]
      unat_sub_next [of "in_e s" "in_r s"] assms(2) l(1)
    by (simp add: t_def in_line_def in_done_def in_at_def)
  then show "in_done t = in_done s"
    using line by simp
qed

lemma cons_char_edits:
  assumes "in_ok s" "on_screen s" "steady (mach s)" "lock_free Lk_ptable (mach s)" "0 \<le> c" "c < 256"
    "c \<noteq> 16" "c \<noteq> 21" "c \<noteq> 8" "c \<noteq> 127"
  shows "returns (cons_char c s) (\<lambda>_ t. edits c s t)"
proof (cases "c \<noteq> 0 \<and> unat (in_e s - in_r s) < INPUT_BUF")
  case False
  then show ?thesis
    using assms(1,2,7-) in_okD [OF assms(1)] by (auto simp: cons_char_def edits_def edit_def)
next
  case True
  define d where "d = (if c = 13 then 10 else c)"
  define b :: u8 where "b = (if c = 13 then 10 else word_of_int c)"
  have b: "word_of_int d = b" "d = 10 \<longleftrightarrow> b = 10" "d = 4 \<longleftrightarrow> b = 4"
    using assms(5,6) by (auto simp: d_def b_def word_uint_eq_iff uint_word_of_int)
  define u where "u = s\<lparr>in_buf := (in_buf s)(in_at (in_e s) := b), in_e := in_e s + 1\<rparr>"
  note st = in_store [OF assms(1) conjunct2 [OF True], of b, folded u_def]
  obtain t where t: "consputc d u = Ret () t" "printed [d] u t"
    using consputc_printed [of u d] assms(2) by (auto simp: u_def on_screen_def elim: returns_unitE)
  note sel = printed_sel [OF t(2)]
  have abs: "in_done t = in_done s" "in_line t = in_line s @ [b]" "mach t = mach s"
    using sel st by (simp_all add: in_done_def in_line_def u_def)
  have scr: "on_screen t"
    using printed_on_screen [OF t(2)] assms(2) by (simp add: u_def on_screen_def)
  have len: "length (in_done s) + length (in_line s) < INPUT_BUF" "unat (in_e t - in_r t) \<le> INPUT_BUF"
      "unat (in_w t - in_r t) \<le> unat (in_e t - in_r t)"
    using in_okD [OF assms(1)] True sel st by (simp_all add: u_def)
  have full: "in_e t = in_r t + word_of_nat INPUT_BUF \<longleftrightarrow> length (in_done s) + length (in_line s @ [b]) = INPUT_BUF"
    unfolding counter_ahead_iff [OF in_ring(2)] using in_okD(2) [OF assms(1)] sel st(3) by simp
  let ?fin = "b = 10 \<or> b = 4 \<or> length (in_done s) + length (in_line s @ [b]) = INPUT_BUF"
  have spec: "edit c (in_done s, in_line s) =
      (if ?fin then (in_done s @ in_line s @ [b], []) else (in_done s, in_line s @ [b]))"
    using True len(1) assms(7-) by (simp add: edit_def b_def [symmetric] Let_def)
  have eq: "cons_char c s = (if ?fin then wakeup (Some Ch_input) (t\<lparr>in_w := in_e t\<rparr>) else Ret () t)"
    using True t(1) full b unfolding cons_char_def d_def [symmetric] by (simp add: u_def Let_def)
  show ?thesis
  proof (cases ?fin)
    case True
    let ?v = "wakeup1 (Some Ch_input) (t\<lparr>in_w := in_e t\<rparr>)"
    have "in_done ?v = in_done t @ in_line t" "in_line ?v = []"
      using ring_split [OF len(3), of INPUT_BUF "in_buf t"] by (simp_all add: wakeup1_eq in_done_def in_line_def)
    then have "edits c s ?v"
      using True abs scr len spec by (simp add: edits_def in_ok_def on_screen_def wakeup1_eq)
    moreover have "cons_char c s = Ret () ?v"
      using True eq assms(3,4) abs by (simp add: wakeup_eq)
    ultimately show ?thesis
      by simp
  next
    case False
    then have "edits c s t"
      using abs scr len spec assms(1) by (simp add: edits_def in_ok_def)
    then show ?thesis
      using False eq by simp
  qed
qed

lemma consoleintr_char_edits:
  assumes "in_ok s" "on_screen s" "steady (mach s)" "lock_free Lk_ptable (mach s)" "0 \<le> c" "c < 256"
  shows "returns (consoleintr_char c s) (\<lambda>r t. r = (c = 16) \<and> edits c s t)"
proof -
  consider "c = 16" | "c = 21" | "c = 8 \<or> c = 127" | "c \<noteq> 16" "c \<noteq> 21" "c \<noteq> 8" "c \<noteq> 127"
    by blast
  then show ?thesis
  proof cases
    case 2
    obtain t where t: "kill_line (unat (in_e s - in_w s)) s = Ret () t" "in_e t = in_w s \<and> in_w t = in_w s
        \<and> in_r t = in_r s \<and> in_buf t = in_buf s \<and> mach t = mach s \<and> on_screen t"
      using kill_line_clears [OF assms(1,2) refl] by (auto elim: returns_unitE)
    then have "edits c s t"
      using 2 in_okD [OF assms(1)] by (simp add: edits_def edit_def in_ok_def in_line_def in_done_def)
    then show ?thesis
      using 2 t(1) by (simp add: consoleintr_char_def)
  next
    case 3
    then show ?thesis
    proof (cases "in_e s = in_w s")
      case False
      let ?u = "s\<lparr>in_e := in_e s - 1\<rparr>"
      obtain t where t: "consputc BACKSPACE ?u = Ret () t" "printed [BACKSPACE] ?u t"
        using consputc_printed [of ?u BACKSPACE] assms(2) by (auto simp: on_screen_def elim: returns_unitE)
      note sel = printed_sel [OF t(2)]
      have "in_ok t" "in_done t = in_done ?u" "in_line t = in_line ?u" "on_screen t"
        using in_erase(1) [OF assms(1) False] sel assms(2) printed_on_screen [OF t(2)]
        by (simp_all add: in_ok_def in_done_def in_line_def on_screen_def)
      then have "edits c s t"
        using 3 sel in_erase(2,3) [OF assms(1) False] by (auto simp: edits_def edit_def)
      then show ?thesis
        using 3 t(1) False by (auto simp: consoleintr_char_def)
    qed (use assms(1,2) 3 in \<open>auto simp: consoleintr_char_def edits_def edit_def in_line_def\<close>)
  next
    case 4
    then show ?thesis
      using cons_char_edits [OF assms] by (simp add: consoleintr_char_def) (auto elim!: returns_unitE)
  qed (use assms(1,2) in \<open>simp add: consoleintr_char_def edits_def edit_def\<close>)
qed

lemma consoleintr_loop_edits:
  assumes "in_ok s" "on_screen s" "steady (mach s)" "lock_free Lk_ptable (mach s)" "\<forall>c \<in> set cs. 0 \<le> c \<and> c < 256"
  shows "returns (consoleintr_loop cs d s) (\<lambda>r t. r = (d \<or> 16 \<in> set cs) \<and> in_ok t \<and> on_screen t \<and> mach t = mach s
     \<and> (in_done t, in_line t) = fold edit cs (in_done s, in_line s))"
  using assms
proof (induction cs arbitrary: d s)
  case (Cons c cs)
  obtain t where t: "consoleintr_char c s = Ret (c = 16) t" "edits c s t"
    using consoleintr_char_edits [OF Cons.prems(1-4), of c] Cons.prems(5) by (auto elim!: returnsE)
  then have "returns (consoleintr_loop cs (d \<or> c = 16) t) (\<lambda>r u. r = ((d \<or> c = 16) \<or> 16 \<in> set cs) \<and> in_ok u \<and> on_screen u
      \<and> mach u = mach t \<and> (in_done u, in_line u) = fold edit cs (in_done t, in_line t))"
    using Cons.prems by (intro Cons.IH) (simp_all add: edits_def)
  then show ?case
    using t by (auto simp: edits_def elim!: returnsE)
qed simp

text \<open>C10 (refinement). The console's input buffer, a ring of 128 bytes between free-running counters, implements line
  editing: for any sequence of keys, \<^verbatim>\<open>consoleintr\<close> returns, keeps the buffer within its bounds, and leaves
  finished and unfinished lines as the abstract editor \<open>edit\<close> does, which appends a key to the unfinished line while
  there is room, drops its last byte on an erasure and all of it on control-U, and hands the line over at its end
  or when the buffer is full. Control-P, and nothing else, asks for the process listing.\<close>

theorem console_input_edits_lines:
  assumes "in_ok s" "on_screen s" "steady (mach s)" "lock_free Lk_ptable (mach s)" "lock_free Lk_cons (mach s)"
    "\<forall>c \<in> set cs. 0 \<le> c \<and> c < 256"
  shows "\<exists>t. consoleintr cs s = Ret (16 \<in> set cs) t \<and> in_ok t \<and> on_screen t \<and> mach t = mach s
     \<and> (in_done t, in_line t) = fold edit cs (in_done s, in_line s)"
proof -
  let ?u = "set_mach (enter Lk_cons (mach s)) s"
  have "in_ok ?u" "on_screen ?u"
    using assms(1,2) by (simp_all add: in_ok_def on_screen_def in_line_def)
  then obtain t where t: "consoleintr_loop cs False ?u = Ret (16 \<in> set cs) t" "in_ok t" "on_screen t"
      "mach t = enter Lk_cons (mach s)" "(in_done t, in_line t) = fold edit cs (in_done ?u, in_line ?u)"
    using consoleintr_loop_edits [of ?u cs False] assms(3,4,6) by (auto elim!: returnsE)
  have "(in_done t, in_line t) = fold edit cs (in_done s, in_line s)"
    using t(5) by (simp add: in_done_def in_line_def)
  then show ?thesis
    using assms(3,5) t
    by (simp add: consoleintr_def acquire_steady release_section) (simp add: in_ok_def on_screen_def in_done_def in_line_def)
qed

lemma mach_cons0: "mach cons0 = mach log0"
  by (rule machine.equality) (simp_all add: cons0_def fs0_def kfs.defs kcons.defs kjournal.defs)

theorem console_input_edits_lines_witness:
  "\<exists>t. consoleintr [104, 111, 127, 105, 13, 120] cons0 = Ret False t \<and> in_done t = [104, 105, 10] \<and> in_line t = [120]"
proof -
  have "quiet (mach cons0) 0"
    unfolding mach_cons0 by (rule bcache_okD(1) [OF log_okD(1) [OF log0_ok(1)]])
  then show ?thesis
    using console_input_edits_lines [of cons0 "[104, 111, 127, 105, 13, 120]"]
    by (simp add: in_ok_def in_line_def in_done_def quietD) (auto simp: edit_def)
qed

end
