(* ===== verification/Fs.thy ===== *)
theory Fs
  imports Console
begin

section \<open>Files, directories and paths (fs.c, second half)\<close>

text \<open>
  Reading and writing the contents of an inode, directories as files of sixteen-byte entries, and the lookup of path
  names. Where C takes a pointer to the caller's buffer, reading returns the bytes that are stored there, and writing
  takes the bytes that are there. A C string is the list of its bytes without the terminating zero; a byte
  past the end of the list is that zero.
\<close>

abbreviation (input) DIRSIZ :: nat where "DIRSIZ \<equiv> 14"
abbreviation (input) MAXFILE :: nat where "MAXFILE \<equiv> 140"
abbreviation (input) ROOTDEV :: u32 where "ROOTDEV \<equiv> 1"
abbreviation (input) ROOTINO :: u32 where "ROOTINO \<equiv> 1"

subsection \<open>Contents of an inode\<close>

text \<open>One pass of the loops takes what is left of the block at \<open>off\<close>, at most \<open>n\<close> bytes.\<close>

definition chunk :: "u32 \<Rightarrow> nat \<Rightarrow> nat" where
  "chunk off n = min n (BSIZE - unat off mod BSIZE)"

lemma chunk_bounds: "chunk off n \<le> n" "0 < n \<Longrightarrow> 0 < chunk off n" "unat off mod BSIZE + chunk off n \<le> BSIZE"
  using mod_less_divisor [of BSIZE "unat off"] by (auto simp: chunk_def)

function readi_loop :: "nat \<Rightarrow> u32 \<Rightarrow> nat \<Rightarrow> u8 list \<Rightarrow> 'x kcons_scheme \<Rightarrow> (u8 list, 'x kcons_scheme) outcome" where
  "readi_loop ip off n dst s =
     (if n = 0 then Ret dst s
      else seq (bmap ip (unat off div BSIZE) s) (\<lambda>a s.
           seq (bread (i_dev (inodes s ip)) a s) (\<lambda>bp s.
           let m = chunk off n;
               dst = dst @ slice (b_data (bufs s bp)) (unat off mod BSIZE) m
           in seq (brelse bp s) (\<lambda>_ s. readi_loop ip (off + word_of_nat m) (n - m) dst s))))"
  by pat_completeness auto
termination
  by (relation "measure (\<lambda>(ip, off, n, dst, s). n)") (simp_all add: chunk_bounds)

definition readi :: "nat \<Rightarrow> u32 \<Rightarrow> u32 \<Rightarrow> 'x kcons_scheme \<Rightarrow> (int \<times> u8 list, 'x kcons_scheme) outcome" where
  "readi ip off n s =
     (if i_type (inodes s ip) = T_DEV
      then if sint (i_major (inodes s ip)) < 0 \<or> sint (i_major (inodes s ip)) \<ge> int NDEV
              \<or> \<not> devsw s (unat (i_major (inodes s ip)))
           then Ret (-1, []) s
           else consoleread ip (sint n) s
      else if off > i_size (inodes s ip) \<or> off + n < off then Ret (-1, []) s
      else let n = (if off + n > i_size (inodes s ip) then i_size (inodes s ip) - off else n) in
           seq (readi_loop ip off (unat n) [] s) (\<lambda>dst s. Ret (sint n, dst) s))"

function writei_loop :: "nat \<Rightarrow> u8 list \<Rightarrow> u32 \<Rightarrow> nat \<Rightarrow> 'x kcons_scheme \<Rightarrow> (u32, 'x kcons_scheme) outcome" where
  "writei_loop ip src off n s =
     (if n = 0 then Ret off s
      else seq (bmap ip (unat off div BSIZE) s) (\<lambda>a s.
           seq (bread (i_dev (inodes s ip)) a s) (\<lambda>bp s.
           let m = chunk off n;
               s = set_data bp (splice (b_data (bufs s bp)) (unat off mod BSIZE) (take m src)) s
           in seq (log_write bp s) (\<lambda>_ s.
              seq (brelse bp s) (\<lambda>_ s. writei_loop ip (drop m src) (off + word_of_nat m) (n - m) s)))))"
  by pat_completeness auto
termination
  by (relation "measure (\<lambda>(ip, src, off, n, s). n)") (simp_all add: chunk_bounds)

text \<open>\<open>src\<close> holds the \<open>n\<close> bytes at the address the caller gives.\<close>

definition writei :: "nat \<Rightarrow> u8 list \<Rightarrow> u32 \<Rightarrow> u32 \<Rightarrow> 'x kcons_scheme \<Rightarrow> (int, 'x kcons_scheme) outcome" where
  "writei ip src off n s =
     (if i_type (inodes s ip) = T_DEV
      then if sint (i_major (inodes s ip)) < 0 \<or> sint (i_major (inodes s ip)) \<ge> int NDEV
              \<or> \<not> devsw s (unat (i_major (inodes s ip)))
           then Ret (-1) s
           else consolewrite ip src (sint n) s
      else if off > i_size (inodes s ip) \<or> off + n < off then Ret (-1) s
      else if unat (off + n) > MAXFILE * BSIZE then Ret (-1) s
      else seq (writei_loop ip src off (unat n) s) (\<lambda>off s.
           seq (whenb (n > 0 \<and> off > i_size (inodes s ip))
                  (\<lambda>s. iupdate ip (upd_inode ip (\<lambda>x. x\<lparr>i_size := off\<rparr>) s)) s) (\<lambda>_ s.
           Ret (sint n) s)))"

subsection \<open>Directories\<close>

definition char_at :: "u8 list \<Rightarrow> nat \<Rightarrow> u8" where
  "char_at t i = (if i < length t then t ! i else 0)"

text \<open>\<^verbatim>\<open>strncmp\<close> and \<^verbatim>\<open>strncpy\<close> of string.c on such strings, from position \<open>i\<close>.\<close>

fun strncmp_at :: "nat \<Rightarrow> nat \<Rightarrow> u8 list \<Rightarrow> u8 list \<Rightarrow> int" where
  "strncmp_at 0 i p q = 0"
| "strncmp_at (Suc n) i p q =
     (if char_at p i \<noteq> 0 \<and> char_at p i = char_at q i then strncmp_at n (Suc i) p q
      else int (unat (char_at p i)) - int (unat (char_at q i)))"

definition strncpy_bytes :: "u8 list \<Rightarrow> nat \<Rightarrow> u8 list" where
  "strncpy_bytes t n =
     (let cs = take n (takeWhile (\<lambda>c. c \<noteq> 0) t) in cs @ replicate (n - length cs) 0)"

definition namecmp :: "u8 list \<Rightarrow> u8 list \<Rightarrow> int" where
  "namecmp p q = strncmp_at DIRSIZ 0 p q"

definition de_inum :: "u8 list \<Rightarrow> u16" where
  "de_inum de = get16 de 0"

definition de_name :: "u8 list \<Rightarrow> u8 list" where
  "de_name de = slice de 2 DIRSIZ"

text \<open>The offsets of the entries of a directory of \<open>n\<close> bytes, as the loops over directories take them.\<close>

definition dir_offsets :: "u32 \<Rightarrow> u32 list" where
  "dir_offsets n = map (\<lambda>i. word_of_nat (16 * i)) [0..<(unat n + 15) div 16]"

definition dirlookup :: "nat \<Rightarrow> u8 list \<Rightarrow> 'x kcons_scheme \<Rightarrow> ((nat \<times> u32) option, 'x kcons_scheme) outcome" where
  "dirlookup dp name s =
     (if i_type (inodes s dp) \<noteq> T_DIR then Panic ''dirlookup not DIR''
      else for_until (dir_offsets (i_size (inodes s dp))) (\<lambda>off s.
        seq (readi dp off 16 s) (\<lambda>r s.
        let (n, de) = r in
        if n \<noteq> 16 then Panic ''dirlookup read''
        else if de_inum de = 0 then Ret None s
        else if namecmp name (de_name de) = 0
        then seq (iget (i_dev (inodes s dp)) (ucast (de_inum de)) s) (\<lambda>ip s. Ret (Some (ip, off)) s)
        else Ret None s)) s)"

definition dirlink :: "nat \<Rightarrow> u8 list \<Rightarrow> u32 \<Rightarrow> 'x kcons_scheme \<Rightarrow> (int, 'x kcons_scheme) outcome" where
  "dirlink dp name inum s =
     seq (dirlookup dp name s) (\<lambda>r s.
     case r of
       Some (ip, _) \<Rightarrow> seq (iput ip s) (\<lambda>_ s. Ret (-1) s)
     | None \<Rightarrow>
         seq (for_until (dir_offsets (i_size (inodes s dp))) (\<lambda>off s.
           seq (readi dp off 16 s) (\<lambda>r s.
           let (n, de) = r in
           if n \<noteq> 16 then Panic ''dirlink read''
           else if de_inum de = 0 then Ret (Some off) s else Ret None s)) s) (\<lambda>r s.
         let off = (case r of Some off \<Rightarrow> off
                    | None \<Rightarrow> word_of_nat (16 * ((unat (i_size (inodes s dp)) + 15) div 16)));
             de = put16 (replicate 2 0) 0 (ucast inum) @ strncpy_bytes name DIRSIZ
         in seq (writei dp de off 16 s) (\<lambda>n s.
            if n \<noteq> 16 then Panic ''dirlink'' else Ret 0 s)))"

subsection \<open>Paths\<close>

text \<open>
  \<open>name\<close> is the caller's array of \<open>DIRSIZ\<close> bytes, overwritten from its start; the result is the path that follows
  and the new array.
\<close>

definition skipelem :: "u8 list \<Rightarrow> u8 list \<Rightarrow> (u8 list \<times> u8 list) option" where
  "skipelem path name =
     (let path = dropWhile (\<lambda>c. c = 47) path in
      if path = [] then None
      else let s = takeWhile (\<lambda>c. c \<noteq> 47) path;
               path = dropWhile (\<lambda>c. c \<noteq> 47) path;
               len = length s;
               name = (if len \<ge> DIRSIZ then splice name 0 (take DIRSIZ s)
                       else (splice name 0 s)[len := 0])
           in Some (dropWhile (\<lambda>c. c = 47) path, name))"

lemma skipelem_shorter: "skipelem path name = Some (path', name') \<Longrightarrow> length path' < length path"
proof -
  assume a: "skipelem path name = Some (path', name')"
  let ?p = "dropWhile (\<lambda>c. c = 47) path"
  have p: "?p \<noteq> []" "hd ?p \<noteq> 47" "path' = dropWhile (\<lambda>c. c = 47) (dropWhile (\<lambda>c. c \<noteq> 47) ?p)"
    using a hd_dropWhile [of "\<lambda>c. c = 47" path] by (auto simp: skipelem_def Let_def split: if_splits)
  have "length (dropWhile (\<lambda>c. c \<noteq> 47) ?p) < length ?p"
    using p by (cases ?p) (auto simp: length_dropWhile_le less_Suc_eq_le)
  then show ?thesis
    unfolding p(3) using length_dropWhile_le [of "\<lambda>c. c = 47" "dropWhile (\<lambda>c. c \<noteq> 47) ?p"]
      length_dropWhile_le [of "\<lambda>c. c = 47" path] by linarith
qed

function namex_loop ::
    "nat \<Rightarrow> u8 list \<Rightarrow> bool \<Rightarrow> u8 list \<Rightarrow> 'x kcons_scheme \<Rightarrow> ((nat \<times> u8 list) option, 'x kcons_scheme) outcome" where
  "namex_loop ip path nameiparent name s =
     (case skipelem path name of
        None \<Rightarrow>
          if nameiparent then seq (iput ip s) (\<lambda>_ s. Ret None s)
          else Ret (Some (ip, name)) s
      | Some (path', name') \<Rightarrow>
          seq (ilock ip s) (\<lambda>_ s.
          if i_type (inodes s ip) \<noteq> T_DIR then seq (iunlockput ip s) (\<lambda>_ s. Ret None s)
          else if nameiparent \<and> path' = [] then seq (iunlock ip s) (\<lambda>_ s. Ret (Some (ip, name')) s)
          else seq (dirlookup ip name' s) (\<lambda>r s.
               case r of
                 None \<Rightarrow> seq (iunlockput ip s) (\<lambda>_ s. Ret None s)
               | Some (next, _) \<Rightarrow>
                   seq (iunlockput ip s) (\<lambda>_ s. namex_loop next path' nameiparent name' s))))"
  by pat_completeness auto
termination
  by (relation "measure (\<lambda>(ip, path, np, name, s). length path)") (auto simp: skipelem_shorter)

definition namex :: "u8 list \<Rightarrow> bool \<Rightarrow> u8 list \<Rightarrow> 'x kcons_scheme \<Rightarrow> ((nat \<times> u8 list) option, 'x kcons_scheme) outcome" where
  "namex path nameiparent name s =
     seq (if char_at path 0 = 47 then iget ROOTDEV ROOTINO s
          else seq (curproc s) (\<lambda>p s.
               case cwd (procs s p) of None \<Rightarrow> Fault ''idup'' | Some d \<Rightarrow> idup d s)) (\<lambda>ip s.
     namex_loop ip path nameiparent name s)"

text \<open>The local arrays are uninitialised in C; \<open>stk\<close> is what they hold.\<close>

definition namei :: "u8 list \<Rightarrow> u8 list \<Rightarrow> 'x kcons_scheme \<Rightarrow> (nat option, 'x kcons_scheme) outcome" where
  "namei stk path s = seq (namex path False stk s) (\<lambda>r s. Ret (map_option fst r) s)"

definition nameiparent :: "u8 list \<Rightarrow> u8 list \<Rightarrow> 'x kcons_scheme \<Rightarrow> ((nat \<times> u8 list) option, 'x kcons_scheme) outcome" where
  "nameiparent path name s = namex path True name s"

subsection \<open>The elements of a path\<close>

text \<open>
  \<open>path_elems\<close> runs \<^verbatim>\<open>skipelem\<close> as the loop of \<^verbatim>\<open>namex\<close> does and collects the names it leaves in the array, as C
  strings. \<open>splits\<close> cuts a path at every slash.
\<close>

definition c_str :: "u8 list \<Rightarrow> u8 list" where
  "c_str a = takeWhile (\<lambda>c. c \<noteq> 0) a"

function path_elems :: "u8 list \<Rightarrow> u8 list \<Rightarrow> u8 list list" where
  "path_elems path name =
     (case skipelem path name of None \<Rightarrow> [] | Some (path', name') \<Rightarrow> c_str name' # path_elems path' name')"
  by pat_completeness auto
termination
  by (relation "measure (\<lambda>(path, name). length path)") (auto simp: skipelem_shorter)

declare path_elems.simps [simp del]

fun splits :: "u8 list \<Rightarrow> u8 list list" where
  "splits [] = [[]]"
| "splits (c # cs) =
     (if c = 47 then [] # splits cs
      else case splits cs of [] \<Rightarrow> [[c]] | x # xs \<Rightarrow> (c # x) # xs)"

lemma splits_first:
  "splits p = takeWhile (\<lambda>c. c \<noteq> 47) p # (case dropWhile (\<lambda>c. c \<noteq> 47) p of [] \<Rightarrow> [] | _ # r \<Rightarrow> splits r)"
  by (induction p) auto

lemma nonempty_splits_skip: "filter (\<lambda>x. x \<noteq> []) (splits (dropWhile (\<lambda>c. c = 47) p)) = filter (\<lambda>x. x \<noteq> []) (splits p)"
  by (induction p) auto

lemma nonempty_splits:
  assumes "dropWhile (\<lambda>c. c = 47) p \<noteq> []"
  shows "filter (\<lambda>x. x \<noteq> []) (splits p) =
     takeWhile (\<lambda>c. c \<noteq> 47) (dropWhile (\<lambda>c. c = 47) p)
     # filter (\<lambda>x. x \<noteq> []) (splits (dropWhile (\<lambda>c. c \<noteq> 47) (dropWhile (\<lambda>c. c = 47) p)))"
proof -
  let ?q = "dropWhile (\<lambda>c. c = 47) p"
  have "hd ?q \<noteq> 47"
    using assms hd_dropWhile by blast
  then have "takeWhile (\<lambda>c. c \<noteq> 47) ?q \<noteq> []"
    using assms by (cases ?q) auto
  moreover have "filter (\<lambda>x. x \<noteq> []) (case d of [] \<Rightarrow> [] | _ # r \<Rightarrow> splits r) = filter (\<lambda>x. x \<noteq> []) (splits d)"
    if "d = [] \<or> hd d = 47" for d
    using that by (cases d) auto
  moreover have "dropWhile (\<lambda>c. c \<noteq> 47) ?q = [] \<or> hd (dropWhile (\<lambda>c. c \<noteq> 47) ?q) = 47"
    using hd_dropWhile [of "\<lambda>c. c \<noteq> 47" ?q] by blast
  ultimately show ?thesis
    using splits_first [of ?q] nonempty_splits_skip [of p] by simp
qed

lemma skipelem_name:
  assumes "length name = DIRSIZ" "0 \<notin> set path" "skipelem path name = Some (path', name')"
  shows "c_str name' = take DIRSIZ (takeWhile (\<lambda>c. c \<noteq> 47) (dropWhile (\<lambda>c. c = 47) path))" "length name' = DIRSIZ"
    "path' = dropWhile (\<lambda>c. c = 47) (dropWhile (\<lambda>c. c \<noteq> 47) (dropWhile (\<lambda>c. c = 47) path))"
    "dropWhile (\<lambda>c. c = 47) path \<noteq> []"
proof -
  define x where "x = takeWhile (\<lambda>c. c \<noteq> 47) (dropWhile (\<lambda>c. c = 47) path)"
  have e: "name' = (if DIRSIZ \<le> length x then splice name 0 (take DIRSIZ x) else (splice name 0 x)[length x := 0])"
      "path' = dropWhile (\<lambda>c. c = 47) (dropWhile (\<lambda>c. c \<noteq> 47) (dropWhile (\<lambda>c. c = 47) path))"
      "dropWhile (\<lambda>c. c = 47) path \<noteq> []"
    using assms(3) by (auto simp: skipelem_def Let_def x_def split: if_splits)
  have z: "0 \<notin> set x" "0 \<notin> set (take DIRSIZ x)"
    using assms(2) unfolding x_def by (auto dest!: in_set_takeD set_takeWhileD set_dropWhileD)
  have c: "c_str xs = xs" if "0 \<notin> set xs" for xs
    unfolding c_str_def by (rule takeWhile_eq_all_conv [THEN iffD2]) (use that in auto)
  show "c_str name' = take DIRSIZ x" "length name' = DIRSIZ"
  proof -
    show "length name' = DIRSIZ"
      using e(1) assms(1) by (simp add: splice_def)
    have "(splice name 0 x)[length x := 0] = x @ 0 # drop (Suc (length x)) name" if "length x < DIRSIZ"
      using that assms(1) by (simp add: splice_def list_update_append Cons_nth_drop_Suc [symmetric])
    then show "c_str name' = take DIRSIZ x"
      using e(1) z c [OF z(1)] c [OF z(2)] assms(1)
      by (auto simp: splice_def c_str_def takeWhile_tail)
  qed
qed (use assms(3) in \<open>auto simp: skipelem_def Let_def split: if_splits\<close>)

text \<open>C27 (equivalence). The elements that \<^verbatim>\<open>skipelem\<close> takes from a path, one after the other, are the non-empty parts
  between its slashes, in order, each cut to the fourteen bytes of a directory entry: repeated, leading and
  trailing slashes do not matter, and neither does what the array for the name held before.\<close>

theorem skipelem_splits_at_slashes:
  assumes "length name = DIRSIZ" "0 \<notin> set path"
  shows "path_elems path name = map (take DIRSIZ) (filter (\<lambda>x. x \<noteq> []) (splits path))"
  using assms
proof (induction path name rule: path_elems.induct)
  case (1 path name)
  show ?case
  proof (cases "skipelem path name")
    case None
    then have "dropWhile (\<lambda>c. c = 47) path = []"
      by (auto simp: skipelem_def Let_def split: if_splits)
    then have "filter (\<lambda>x. x \<noteq> []) (splits path) = []"
      using nonempty_splits_skip [of path] by (simp only: splits.simps) simp
    then show ?thesis
      using None by (subst path_elems.simps) simp
  next
    case (Some r)
    obtain path' name' where r: "skipelem path name = Some (path', name')"
      using Some by (cases r) auto
    note k = skipelem_name [OF 1(2,3) r]
    have "set path' \<subseteq> set path"
      unfolding k(3) by (auto dest!: set_dropWhileD)
    then have "path_elems path' name' = map (take DIRSIZ) (filter (\<lambda>x. x \<noteq> []) (splits path'))"
      using 1(1) [OF r refl] k(2) 1(3) by blast
    then show ?thesis
      using r k nonempty_splits [OF k(4)] nonempty_splits_skip by (subst path_elems.simps) simp
  qed
qed

theorem skipelem_splits_at_slashes_witness:
  "path_elems [47, 47, 97, 47, 98, 99, 47] (replicate 14 255) = [[97], [98, 99]]"
  using skipelem_splits_at_slashes [of "replicate 14 255" "[47, 47, 97, 47, 98, 99, 47]"] by simp

end
