(* ===== verification/Fifo.thy ===== *)
theory Fifo
  imports Main
begin

section \<open>Bounded queues\<close>

text \<open>
  The contract of a bounded first-in first-out queue, which the semaphores' waiting queues and the
  pipes' ring buffers both keep: \<open>q_list\<close> reads the queue's contents in order, and what is pushed onto a
  full queue is dropped.
\<close>

text \<open>Popping \<open>n\<close> times, collecting what comes out.\<close>

primrec pops :: "('q \<Rightarrow> 'a option \<times> 'q) \<Rightarrow> nat \<Rightarrow> 'q \<Rightarrow> 'a list \<times> 'q" where
  "pops pop 0 q = ([], q)"
| "pops pop (Suc n) q =
     (case pop q of
        (None, q') \<Rightarrow> ([], q')
      | (Some x, q') \<Rightarrow> (x # fst (pops pop n q'), snd (pops pop n q')))"

locale bounded_fifo =
  fixes q_ok :: "'q \<Rightarrow> bool" and q_list :: "'q \<Rightarrow> 'a list" and capacity :: nat
    and push :: "'a \<Rightarrow> 'q \<Rightarrow> 'q" and pop :: "'q \<Rightarrow> 'a option \<times> 'q"
  assumes push_ok: "q_ok q \<Longrightarrow> q_ok (push x q)"
    and push_list: "q_ok q \<Longrightarrow>
      q_list (push x q) = (if length (q_list q) < capacity then q_list q @ [x] else q_list q)"
    and pop_ok: "q_ok q \<Longrightarrow> q_ok (snd (pop q))"
    and pop_empty: "q_ok q \<Longrightarrow> q_list q = [] \<Longrightarrow> pop q = (None, q)"
    and pop_list: "q_ok q \<Longrightarrow> q_list q = x # xs \<Longrightarrow> fst (pop q) = Some x \<and> q_list (snd (pop q)) = xs"
begin

lemma push_all:
  assumes "q_ok q" "length (q_list q) + length xs \<le> capacity"
  shows "q_ok (fold push xs q) \<and> q_list (fold push xs q) = q_list q @ xs"
  using assms
proof (induction xs arbitrary: q)
  case (Cons x xs)
  then show ?case
    using Cons.IH [of "push x q"] by (simp add: push_ok push_list)
qed simp

lemma pops_list:
  assumes "q_ok q"
  shows "fst (pops pop n q) = take n (q_list q)" "q_list (snd (pops pop n q)) = drop n (q_list q)"
    "q_ok (snd (pops pop n q))"
  using assms
proof (induction n arbitrary: q)
  case (Suc n)
  {
    case 1
    then show ?case
      using Suc.IH(1) [of "snd (pop q)"] pop_ok [of q]
      by (cases "q_list q") (auto simp: pop_empty dest: pop_list split: prod.splits option.splits)
  next
    case 2
    then show ?case
      using Suc.IH(2) [of "snd (pop q)"] pop_ok [of q]
      by (cases "q_list q") (auto simp: pop_empty dest: pop_list split: prod.splits option.splits)
  next
    case 3
    then show ?case
      using Suc.IH(3) [of "snd (pop q)"] pop_ok [of q]
      by (cases "q_list q") (auto simp: pop_empty dest: pop_list split: prod.splits option.splits)
  }
qed simp_all

lemma push_pop_order:
  assumes "q_ok q" "q_list q = []" "length xs \<le> capacity"
  shows "fst (pops pop (length xs) (fold push xs q)) = xs"
  using push_all [of q xs] pops_list(1) [of "fold push xs q" "length xs"] assms by simp

end

end
