(* ===== verification/File.thy ===== *)
theory File
  imports Fs Fifo Ring
begin

section \<open>Open files and pipes (file.c, pipe.c)\<close>

text \<open>
  The table of open files and the pipes. A file is named by its index in \<^verbatim>\<open>ftable.file\<close>. A pipe lives in a page
  from \<^verbatim>\<open>kalloc\<close> and is named by its address; its structure is kept in \<open>pipes\<close>, apart from the bytes of the page.
  The functions that may sleep have a second part, run when the thread is scheduled again.
\<close>

abbreviation (input) NFILE :: nat where "NFILE \<equiv> 100"
abbreviation (input) PIPESIZE :: nat where "PIPESIZE \<equiv> 512"

datatype fdtype = FD_NONE | FD_PIPE | FD_INODE

record file_t =
  f_type :: fdtype
  f_ref :: int
  f_readable :: bool
  f_writable :: bool
  f_pipe :: addr
  f_ip :: "nat option"
  f_off :: u32

record pipe =
  p_data :: "nat \<Rightarrow> u8"
  p_nread :: u32
  p_nwrite :: u32
  p_readopen :: bool
  p_writeopen :: bool

record kfile = kcons +
  files :: "nat \<Rightarrow> file_t"
  pipes :: "addr \<Rightarrow> pipe"

lemma kfile_mach [simp]:
  "mach (s\<lparr>files := x0\<rparr>) = mach s" "mach (s\<lparr>pipes := x1\<rparr>) = mach s"
  by (rule machine.equality; simp)+

lemma kfile_set_mach [simp]:
  "files (set_mach m s) = files s" "pipes (set_mach m s) = pipes s"
  "set_mach m (s\<lparr>files := x0\<rparr>) = (set_mach m s)\<lparr>files := x0\<rparr>"
  "set_mach m (s\<lparr>pipes := x1\<rparr>) = (set_mach m s)\<lparr>pipes := x1\<rparr>"
  by (cases s; cases m; simp add: set_mach_def machine.defs)+


definition upd_file :: "nat \<Rightarrow> (file_t \<Rightarrow> file_t) \<Rightarrow> 'x kfile_scheme \<Rightarrow> 'x kfile_scheme" where
  "upd_file i g s = s\<lparr>files := (files s)(i := g (files s i))\<rparr>"

definition upd_pipe :: "addr \<Rightarrow> (pipe \<Rightarrow> pipe) \<Rightarrow> 'x kfile_scheme \<Rightarrow> 'x kfile_scheme" where
  "upd_pipe a g s = s\<lparr>pipes := (pipes s)(a := g (pipes s a))\<rparr>"

subsection \<open>The table\<close>

definition fileinit :: "'x kfile_scheme \<Rightarrow> 'x kfile_scheme" where
  "fileinit s = initlock Lk_ftable ''ftable'' s"

definition filealloc :: "'x kfile_scheme \<Rightarrow> (nat option, 'x kfile_scheme) outcome" where
  "filealloc s =
     seq (acquire Lk_ftable s) (\<lambda>_ s.
     case find (\<lambda>i. f_ref (files s i) = 0) [0..<NFILE] of
       Some f \<Rightarrow> seq (release Lk_ftable (upd_file f (\<lambda>x. x\<lparr>f_ref := 1\<rparr>) s)) (\<lambda>_ s. Ret (Some f) s)
     | None \<Rightarrow> seq (release Lk_ftable s) (\<lambda>_ s. Ret None s))"

definition filedup :: "nat \<Rightarrow> 'x kfile_scheme \<Rightarrow> (nat, 'x kfile_scheme) outcome" where
  "filedup f s =
     seq (acquire Lk_ftable s) (\<lambda>_ s.
     if f_ref (files s f) < 1 then Panic ''filedup''
     else seq (release Lk_ftable (upd_file f (\<lambda>x. x\<lparr>f_ref := f_ref x + 1\<rparr>) s)) (\<lambda>_ s. Ret f s))"

definition pipeclose :: "addr \<Rightarrow> bool \<Rightarrow> 'x kfile_scheme \<Rightarrow> (unit, 'x kfile_scheme) outcome" where
  "pipeclose p writable s =
     seq (acquire (Lk_pipe p) s) (\<lambda>_ s.
     seq (if writable then wakeup (Some (Ch_nread p)) (upd_pipe p (\<lambda>x. x\<lparr>p_writeopen := False\<rparr>) s)
          else wakeup (Some (Ch_nwrite p)) (upd_pipe p (\<lambda>x. x\<lparr>p_readopen := False\<rparr>) s)) (\<lambda>_ s.
     if \<not> p_readopen (pipes s p) \<and> \<not> p_writeopen (pipes s p)
     then seq (release (Lk_pipe p) s) (\<lambda>_ s. kfree p s)
     else release (Lk_pipe p) s))"

definition fileclose :: "nat \<Rightarrow> 'x kfile_scheme \<Rightarrow> (unit, 'x kfile_scheme) outcome" where
  "fileclose f s =
     seq (acquire Lk_ftable s) (\<lambda>_ s.
     if f_ref (files s f) < 1 then Panic ''fileclose''
     else let s = upd_file f (\<lambda>x. x\<lparr>f_ref := f_ref x - 1\<rparr>) s in
          if f_ref (files s f) > 0 then release Lk_ftable s
          else let ff = files s f;
                   s = upd_file f (\<lambda>x. x\<lparr>f_ref := 0, f_type := FD_NONE\<rparr>) s
               in seq (release Lk_ftable s) (\<lambda>_ s.
                  case f_type ff of
                    FD_PIPE \<Rightarrow> pipeclose (f_pipe ff) (f_writable ff) s
                  | FD_INODE \<Rightarrow>
                      seq (begin_op s) (\<lambda>_ s.
                      seq (case f_ip ff of None \<Rightarrow> Fault ''iput'' | Some ip \<Rightarrow> iput ip s) (\<lambda>_ s.
                      end_op s))
                  | FD_NONE \<Rightarrow> Ret () s))"

definition filestat :: "nat \<Rightarrow> 'x kfile_scheme \<Rightarrow> (stat option, 'x kfile_scheme) outcome" where
  "filestat f s =
     (if f_type (files s f) = FD_INODE
      then (case f_ip (files s f) of
              None \<Rightarrow> Panic ''ilock''
            | Some ip \<Rightarrow>
                seq (ilock ip s) (\<lambda>_ s.
                let st = stati ip s in
                seq (iunlock ip s) (\<lambda>_ s. Ret (Some st) s)))
      else Ret None s)"

subsection \<open>Pipes\<close>

definition pipe_files :: "nat \<Rightarrow> nat \<Rightarrow> addr \<Rightarrow> 'x kfile_scheme \<Rightarrow> 'x kfile_scheme" where
  "pipe_files f0 f1 p s =
     (let s = upd_file f0 (\<lambda>x. x\<lparr>f_type := FD_PIPE, f_readable := True, f_writable := False, f_pipe := p\<rparr>) s
      in upd_file f1 (\<lambda>x. x\<lparr>f_type := FD_PIPE, f_readable := False, f_writable := True, f_pipe := p\<rparr>) s)"

definition pipealloc :: "'x kfile_scheme \<Rightarrow> ((nat \<times> nat) option, 'x kfile_scheme) outcome" where
  "pipealloc s =
     seq (filealloc s) (\<lambda>r0 s.
     case r0 of
       None \<Rightarrow> Ret None s
     | Some f0 \<Rightarrow>
         seq (filealloc s) (\<lambda>r1 s.
         case r1 of
           None \<Rightarrow> seq (fileclose f0 s) (\<lambda>_ s. Ret None s)
         | Some f1 \<Rightarrow>
             seq (kalloc s) (\<lambda>p s.
             if p = 0
             then seq (fileclose f0 s) (\<lambda>_ s. seq (fileclose f1 s) (\<lambda>_ s. Ret None s))
             else let s = upd_pipe p (\<lambda>x. x\<lparr>p_readopen := True, p_writeopen := True, p_nwrite := 0, p_nread := 0\<rparr>) s;
                      s = initlock (Lk_pipe p) ''pipe'' s
                  in Ret (Some (f0, f1)) (pipe_files f0 f1 p s))))"

text \<open>
  The loop of \<^verbatim>\<open>pipewrite\<close> over the bytes still to be written: \<open>True\<close> when all are in the pipe, \<open>False\<close> when
  the writer gives up. With the pipe full it wakes the readers and sleeps.
\<close>

definition pipe_put :: "addr \<Rightarrow> u8 \<Rightarrow> 'x kfile_scheme \<Rightarrow> 'x kfile_scheme" where
  "pipe_put p c s =
     upd_pipe p (\<lambda>x. x\<lparr>p_data := (p_data x)(unat (p_nwrite x) mod PIPESIZE := c), p_nwrite := p_nwrite x + 1\<rparr>) s"

fun pipewrite_loop :: "addr \<Rightarrow> u8 list \<Rightarrow> 'x kfile_scheme \<Rightarrow> (bool, 'x kfile_scheme) outcome" where
  "pipewrite_loop p [] s = Ret True s"
| "pipewrite_loop p (c # cs) s =
     (if p_nwrite (pipes s p) = p_nread (pipes s p) + word_of_nat PIPESIZE
      then seq (if \<not> p_readopen (pipes s p) then Ret True s
                else seq (curproc s) (\<lambda>q s. Ret (killed (procs s q)) s)) (\<lambda>stop s.
           if stop then Ret False s
           else seq (wakeup (Some (Ch_nread p)) s) (\<lambda>_ s.
                seq (sleep (Some (Ch_nwrite p)) (Some (Lk_pipe p)) s) (\<lambda>_ s. Ret False s)))
      else pipewrite_loop p cs (pipe_put p c s))"

definition pipewrite_end :: "addr \<Rightarrow> int \<Rightarrow> bool \<Rightarrow> 'x kfile_scheme \<Rightarrow> (int, 'x kfile_scheme) outcome" where
  "pipewrite_end p n r s =
     (if r then seq (wakeup (Some (Ch_nread p)) s) (\<lambda>_ s. seq (release (Lk_pipe p) s) (\<lambda>_ s. Ret n s))
      else seq (release (Lk_pipe p) s) (\<lambda>_ s. Ret (-1) s))"

definition pipewrite :: "addr \<Rightarrow> u8 list \<Rightarrow> int \<Rightarrow> 'x kfile_scheme \<Rightarrow> (int, 'x kfile_scheme) outcome" where
  "pipewrite p src n s =
     seq (acquire (Lk_pipe p) s) (\<lambda>_ s.
     seq (pipewrite_loop p (take (nat n) src) s) (\<lambda>r s. pipewrite_end p n r s))"

definition pipewrite_resume ::
    "nat \<Rightarrow> addr \<Rightarrow> u8 list \<Rightarrow> int \<Rightarrow> 'x kfile_scheme \<Rightarrow> (int, 'x kfile_scheme) outcome" where
  "pipewrite_resume q p rest n s =
     seq (sleep_resume q (Lk_pipe p) s) (\<lambda>_ s.
     seq (pipewrite_loop p rest s) (\<lambda>r s. pipewrite_end p n r s))"

fun pipe_take :: "nat \<Rightarrow> addr \<Rightarrow> u8 list \<Rightarrow> 'x kfile_scheme \<Rightarrow> u8 list \<times> 'x kfile_scheme" where
  "pipe_take 0 p out s = (out, s)"
| "pipe_take (Suc n) p out s =
     (if p_nread (pipes s p) = p_nwrite (pipes s p) then (out, s)
      else pipe_take n p (out @ [p_data (pipes s p) (unat (p_nread (pipes s p)) mod PIPESIZE)])
             (upd_pipe p (\<lambda>x. x\<lparr>p_nread := p_nread x + 1\<rparr>) s))"

definition piperead_loop :: "addr \<Rightarrow> int \<Rightarrow> 'x kfile_scheme \<Rightarrow> (int \<times> u8 list, 'x kfile_scheme) outcome" where
  "piperead_loop p n s =
     (if p_nread (pipes s p) = p_nwrite (pipes s p) \<and> p_writeopen (pipes s p)
      then seq (curproc s) (\<lambda>q s.
           if killed (procs s q) then seq (release (Lk_pipe p) s) (\<lambda>_ s. Ret (-1, []) s)
           else seq (sleep (Some (Ch_nread p)) (Some (Lk_pipe p)) s) (\<lambda>_ s. Ret (-1, []) s))
      else let (out, s) = pipe_take (nat n) p [] s in
           seq (wakeup (Some (Ch_nwrite p)) s) (\<lambda>_ s.
           seq (release (Lk_pipe p) s) (\<lambda>_ s. Ret (int (length out), out) s)))"

definition piperead :: "addr \<Rightarrow> int \<Rightarrow> 'x kfile_scheme \<Rightarrow> (int \<times> u8 list, 'x kfile_scheme) outcome" where
  "piperead p n s = seq (acquire (Lk_pipe p) s) (\<lambda>_ s. piperead_loop p n s)"

definition piperead_resume :: "nat \<Rightarrow> addr \<Rightarrow> int \<Rightarrow> 'x kfile_scheme \<Rightarrow> (int \<times> u8 list, 'x kfile_scheme) outcome" where
  "piperead_resume q p n s = seq (sleep_resume q (Lk_pipe p) s) (\<lambda>_ s. piperead_loop p n s)"

subsection \<open>Reading and writing files\<close>

definition fileread :: "nat \<Rightarrow> int \<Rightarrow> 'x kfile_scheme \<Rightarrow> (int \<times> u8 list, 'x kfile_scheme) outcome" where
  "fileread f n s =
     (if \<not> f_readable (files s f) then Ret (-1, []) s
      else case f_type (files s f) of
        FD_PIPE \<Rightarrow> piperead (f_pipe (files s f)) n s
      | FD_INODE \<Rightarrow>
          (case f_ip (files s f) of
             None \<Rightarrow> Panic ''ilock''
           | Some ip \<Rightarrow>
               seq (ilock ip s) (\<lambda>_ s.
               seq (readi ip (f_off (files s f)) (word_of_int n) s) (\<lambda>r s.
               let s = (if fst r > 0 then upd_file f (\<lambda>x. x\<lparr>f_off := f_off x + word_of_int (fst r)\<rparr>) s else s) in
               seq (iunlock ip s) (\<lambda>_ s. Ret r s))))
      | FD_NONE \<Rightarrow> Panic ''fileread'')"

text \<open>
  A write to a file is cut into transactions of at most three blocks of data. \<open>src\<close> is what is left to write,
  from byte \<open>i\<close> on.
\<close>

abbreviation (input) write_max :: int where "write_max \<equiv> 1536"

function filewrite_loop :: "nat \<Rightarrow> nat \<Rightarrow> u8 list \<Rightarrow> int \<Rightarrow> int \<Rightarrow> 'x kfile_scheme \<Rightarrow> (int, 'x kfile_scheme) outcome" where
  "filewrite_loop f ip src i n s =
     (if i < n then
        let n1 = (if n - i > write_max then write_max else n - i) in
        seq (begin_op s) (\<lambda>_ s.
        seq (ilock ip s) (\<lambda>_ s.
        seq (writei ip src (f_off (files s f)) (word_of_int n1) s) (\<lambda>r s.
        let s = (if r > 0 then upd_file f (\<lambda>x. x\<lparr>f_off := f_off x + word_of_int r\<rparr>) s else s) in
        seq (iunlock ip s) (\<lambda>_ s.
        seq (end_op s) (\<lambda>_ s.
        if r < 0 then Ret (if i = n then n else -1) s
        else if r \<noteq> n1 then Panic ''short filewrite''
        else filewrite_loop f ip (drop (nat r) src) (i + r) n s)))))
      else Ret (if i = n then n else -1) s)"
  by pat_completeness auto
termination
  by (relation "measure (\<lambda>(f, ip, src, i, n, s). nat (n - i))") auto

definition filewrite :: "nat \<Rightarrow> u8 list \<Rightarrow> int \<Rightarrow> 'x kfile_scheme \<Rightarrow> (int, 'x kfile_scheme) outcome" where
  "filewrite f src n s =
     (if \<not> f_writable (files s f) then Ret (-1) s
      else case f_type (files s f) of
        FD_PIPE \<Rightarrow> pipewrite (f_pipe (files s f)) src n s
      | FD_INODE \<Rightarrow>
          (case f_ip (files s f) of
             None \<Rightarrow> if 0 < n then seq (begin_op s) (\<lambda>_ s. Panic ''ilock'') else Ret (if 0 = n then n else -1) s
           | Some ip \<Rightarrow> filewrite_loop f ip src 0 n s)
      | FD_NONE \<Rightarrow> Panic ''filewrite'')"

subsection \<open>A pipe is a queue of bytes\<close>

definition pipe_bytes :: "pipe \<Rightarrow> u8 list" where
  "pipe_bytes x = ring PIPESIZE (p_data x) (p_nread x) (p_nwrite x)"

definition pipe_ok :: "pipe \<Rightarrow> bool" where
  "pipe_ok x \<longleftrightarrow> unat (p_nwrite x - p_nread x) \<le> PIPESIZE"

text \<open>One byte written by \<^verbatim>\<open>pipewrite\<close>, if there is room, and one taken by \<^verbatim>\<open>piperead\<close>, if there is one.\<close>

definition pipe_push :: "u8 \<Rightarrow> pipe \<Rightarrow> pipe" where
  "pipe_push c x =
     (if p_nwrite x = p_nread x + word_of_nat PIPESIZE then x
      else x\<lparr>p_data := (p_data x)(unat (p_nwrite x) mod PIPESIZE := c), p_nwrite := p_nwrite x + 1\<rparr>)"

definition pipe_pop :: "pipe \<Rightarrow> u8 option \<times> pipe" where
  "pipe_pop x =
     (if p_nread x = p_nwrite x then (None, x)
      else (Some (p_data x (unat (p_nread x) mod PIPESIZE)), x\<lparr>p_nread := p_nread x + 1\<rparr>))"

lemma pipe_ring: "PIPESIZE dvd 4294967296" "PIPESIZE < 4294967296"
  by simp_all

lemma pipe_full_iff: "p_nwrite x = p_nread x + word_of_nat PIPESIZE \<longleftrightarrow> length (pipe_bytes x) = PIPESIZE"
  unfolding counter_ahead_iff [OF pipe_ring(2)] by (simp add: pipe_bytes_def)

lemma pipe_push_ring:
  assumes "pipe_ok x" "length (pipe_bytes x) < PIPESIZE"
  shows "pipe_ok (pipe_push c x)" "pipe_bytes (pipe_push c x) = pipe_bytes x @ [c]"
proof -
  have l: "unat (p_nwrite x - p_nread x) < PIPESIZE"
    using assms(2) by (simp add: pipe_bytes_def)
  then have "pipe_push c x = x\<lparr>p_data := (p_data x)(unat (p_nwrite x) mod PIPESIZE := c), p_nwrite := p_nwrite x + 1\<rparr>"
    unfolding pipe_push_def pipe_full_iff using assms(2) by simp
  then show "pipe_ok (pipe_push c x)" "pipe_bytes (pipe_push c x) = pipe_bytes x @ [c]"
    using l ring_push [OF pipe_ring l, of "p_data x" c] unat_sub_next [of "p_nwrite x" "p_nread x"]
    by (simp_all add: pipe_ok_def pipe_bytes_def)
qed

lemma pipe_pop_ring:
  assumes "pipe_ok x" "pipe_bytes x = c # cs"
  shows "fst (pipe_pop x) = Some c" "pipe_bytes (snd (pipe_pop x)) = cs" "pipe_ok (snd (pipe_pop x))"
proof -
  have ne: "p_nwrite x \<noteq> p_nread x"
    using assms(2) by (auto simp: pipe_bytes_def)
  have "pipe_bytes x = p_data x (unat (p_nread x) mod PIPESIZE) # ring PIPESIZE (p_data x) (p_nread x + 1) (p_nwrite x)"
    unfolding pipe_bytes_def by (rule ring_pop [OF ne])
  then show "fst (pipe_pop x) = Some c" "pipe_bytes (snd (pipe_pop x)) = cs"
    using ne assms(2) by (auto simp: pipe_pop_def pipe_bytes_def)
  show "pipe_ok (snd (pipe_pop x))"
    using ne assms(1) by (simp add: pipe_pop_def pipe_ok_def unat_sub_Suc)
qed

interpretation pq: bounded_fifo pipe_ok pipe_bytes PIPESIZE pipe_push pipe_pop
proof
  fix x :: pipe and c d :: u8 and cs
  assume ok: "pipe_ok x"
  then have le: "length (pipe_bytes x) \<le> PIPESIZE"
    by (simp add: pipe_ok_def pipe_bytes_def)
  show "pipe_ok (pipe_push c x)"
    "pipe_bytes (pipe_push c x) = (if length (pipe_bytes x) < PIPESIZE then pipe_bytes x @ [c] else pipe_bytes x)"
    using pipe_push_ring [OF ok, of c] le ok pipe_full_iff [of x] by (auto simp: pipe_push_def not_less)
  show "pipe_bytes x = [] \<Longrightarrow> pipe_pop x = (None, x)"
    by (auto simp: pipe_bytes_def pipe_pop_def)
  then show "pipe_ok (snd (pipe_pop x))"
    using pipe_pop_ring(3) [OF ok] ok by (cases "pipe_bytes x") auto
  show "fst (pipe_pop x) = Some d \<and> pipe_bytes (snd (pipe_pop x)) = cs" if "pipe_bytes x = d # cs"
    using pipe_pop_ring [OF ok that] by simp
qed

lemma pipewrite_loop_push:
  assumes "pipe_ok (pipes s p)" "length (pipe_bytes (pipes s p)) + length cs \<le> PIPESIZE"
  shows "pipewrite_loop p cs s = Ret True (upd_pipe p (fold pipe_push cs) s)"
  using assms
proof (induction cs arbitrary: s)
  case (Cons c cs)
  have n: "p_nwrite (pipes s p) \<noteq> p_nread (pipes s p) + word_of_nat PIPESIZE"
    unfolding pipe_full_iff using Cons.prems(2) by simp
  then have put: "pipe_put p c s = upd_pipe p (pipe_push c) s"
    by (simp add: pipe_put_def upd_pipe_def pipe_push_def)
  have "pipewrite_loop p cs (upd_pipe p (pipe_push c) s)
      = Ret True (upd_pipe p (fold pipe_push cs) (upd_pipe p (pipe_push c) s))"
    using Cons.prems by (intro Cons.IH) (simp_all add: upd_pipe_def pq.push_ok pq.push_list)
  then show ?case
    using n put by (simp add: upd_pipe_def)
qed (simp add: upd_pipe_def)

lemma pipe_take_pops:
  "pipe_take n p out s = (out @ fst (pops pipe_pop n (pipes s p)), upd_pipe p (\<lambda>x. snd (pops pipe_pop n x)) s)"
  by (induction n arbitrary: out s) (auto simp: upd_pipe_def pipe_pop_def fun_upd_idem)

lemma upd_pipe_sel [simp]:
  "mach (upd_pipe p g s) = mach s" "procs (upd_pipe p g s) = procs s" "files (upd_pipe p g s) = files s"
  "pipes (upd_pipe p g s) = (pipes s)(p := g (pipes s p))"
  by (simp_all add: upd_pipe_def)

lemma pipes_wakeup1 [simp]: "pipes (wakeup1 ch s) = pipes s" "mach (wakeup1 ch s) = mach s"
  by (simp_all add: wakeup1_eq)

lemma pipewrite_room:
  assumes "quiet (mach s) q" "pipe_ok (pipes s p)" "length (pipe_bytes (pipes s p)) + length src \<le> PIPESIZE"
  shows "\<exists>t. pipewrite p src (int (length src)) s = Ret (int (length src)) t \<and> mach t = mach s
     \<and> pipe_ok (pipes t p) \<and> pipe_bytes (pipes t p) = pipe_bytes (pipes s p) @ src
     \<and> p_writeopen (pipes t p) = p_writeopen (pipes s p)"
proof -
  let ?s = "set_mach (enter (Lk_pipe p) (mach s)) s"
  let ?t = "upd_pipe p (fold pipe_push src) ?s"
  have w: "pipewrite_loop p src ?s = Ret True ?t"
    using assms(2,3) by (intro pipewrite_loop_push) simp_all
  have wo: "p_writeopen (fold pipe_push src x) = p_writeopen x" for x
    by (induction src arbitrary: x) (auto simp: pipe_push_def)
  have "steady (mach ?t)" "lock_free Lk_ptable (mach ?t)"
    using quietD [OF assms(1)] by simp_all
  then have k: "wakeup (Some (Ch_nread p)) ?t = Ret () (wakeup1 (Some (Ch_nread p)) ?t)"
    by (rule wakeup_eq)
  have "release (Lk_pipe p) (wakeup1 (Some (Ch_nread p)) ?t) = Ret () (set_mach (mach s) (wakeup1 (Some (Ch_nread p)) ?t))"
    using quietD [OF assms(1)] by (intro release_section) simp_all
  then show ?thesis
    using w k wo quietD [OF assms(1)] pq.push_all [OF assms(2,3)]
    by (simp add: pipewrite_def pipewrite_end_def acquire_steady)
qed

lemma piperead_some:
  assumes "quiet (mach s) q" "pipe_ok (pipes s p)" "pipe_bytes (pipes s p) \<noteq> [] \<or> \<not> p_writeopen (pipes s p)"
  shows "\<exists>t. piperead p n s = Ret (int (length (take (nat n) (pipe_bytes (pipes s p)))), take (nat n) (pipe_bytes (pipes s p))) t
     \<and> mach t = mach s \<and> pipe_ok (pipes t p) \<and> pipe_bytes (pipes t p) = drop (nat n) (pipe_bytes (pipes s p))"
proof -
  let ?s = "set_mach (enter (Lk_pipe p) (mach s)) s"
  let ?t = "upd_pipe p (\<lambda>x. snd (pops pipe_pop (nat n) x)) ?s"
  have ne: "\<not> (p_nread (pipes ?s p) = p_nwrite (pipes ?s p) \<and> p_writeopen (pipes ?s p))"
    using assms(3) by (auto simp: pipe_bytes_def)
  have loop: "piperead_loop p n ?s = (let (out, s) = pipe_take (nat n) p [] ?s in
      seq (wakeup (Some (Ch_nwrite p)) s) (\<lambda>_ s. seq (release (Lk_pipe p) s) (\<lambda>_ s. Ret (int (length out), out) s)))"
    unfolding piperead_loop_def by (rule if_not_P [OF ne])
  have "steady (mach ?t)" "lock_free Lk_ptable (mach ?t)"
    using quietD [OF assms(1)] by simp_all
  then have k: "wakeup (Some (Ch_nwrite p)) ?t = Ret () (wakeup1 (Some (Ch_nwrite p)) ?t)"
    by (rule wakeup_eq)
  have "release (Lk_pipe p) (wakeup1 (Some (Ch_nwrite p)) ?t) = Ret () (set_mach (mach s) (wakeup1 (Some (Ch_nwrite p)) ?t))"
    using quietD [OF assms(1)] by (intro release_section) simp_all
  then have "piperead p n s = Ret (int (length (take (nat n) (pipe_bytes (pipes s p)))), take (nat n) (pipe_bytes (pipes s p)))
      (set_mach (mach s) (wakeup1 (Some (Ch_nwrite p)) ?t))"
    using k quietD [OF assms(1)] pq.pops_list(1) [OF assms(2), of "nat n"]
    by (simp add: piperead_def loop pipe_take_pops acquire_steady)
  then show ?thesis
    using pq.pops_list(2,3) [OF assms(2), of "nat n"] by simp
qed

text \<open>C7 (refinement). A pipe carries its bytes in order through its 512-byte ring, whose 32-bit counters run
  freely: when what is written fits beside what the pipe holds, \<^verbatim>\<open>pipewrite\<close> returns the number of bytes written, and
  a following \<^verbatim>\<open>piperead\<close> of \<open>n\<close> bytes returns the first \<open>n\<close> of the earlier contents followed by the
  written bytes, or all of them if there are fewer, and leaves the others in the pipe in order.\<close>

theorem pipe_passes_bytes_in_order:
  assumes "quiet (mach s) q" "pipe_ok (pipes s p)" "length (pipe_bytes (pipes s p)) + length src \<le> PIPESIZE"
    "pipe_bytes (pipes s p) @ src \<noteq> []" "0 \<le> n"
  shows "\<exists>t u. pipewrite p src (int (length src)) s = Ret (int (length src)) t
     \<and> piperead p n t = Ret (min n (int (length (pipe_bytes (pipes s p)) + length src)),
         take (nat n) (pipe_bytes (pipes s p) @ src)) u
     \<and> pipe_bytes (pipes u p) = drop (nat n) (pipe_bytes (pipes s p) @ src) \<and> pipe_ok (pipes u p)"
proof -
  obtain t where t: "pipewrite p src (int (length src)) s = Ret (int (length src)) t" "mach t = mach s"
      "pipe_ok (pipes t p)" "pipe_bytes (pipes t p) = pipe_bytes (pipes s p) @ src"
    using pipewrite_room [OF assms(1-3)] by blast
  obtain u where "piperead p n t = Ret (int (length (take (nat n) (pipe_bytes (pipes t p)))),
        take (nat n) (pipe_bytes (pipes t p))) u"
      "pipe_ok (pipes u p)" "pipe_bytes (pipes u p) = drop (nat n) (pipe_bytes (pipes t p))"
    using piperead_some [of t q p n] t assms(1,4) by auto
  moreover have "int (length (take (nat n) (pipe_bytes (pipes t p))))
      = min n (int (length (pipe_bytes (pipes s p)) + length src))"
    using assms(5) t(4) by auto
  ultimately show ?thesis
    using t by simp
qed

text \<open>A table with no open file and a pipe whose counters are about to wrap around.\<close>

definition file0 :: kfile where
  "file0 = kcons.extend cons0
     (kfile.fields (\<lambda>_. \<lparr>f_type = FD_NONE, f_ref = 0, f_readable = False, f_writable = False, f_pipe = 0, f_ip = None, f_off = 0\<rparr>)
        (\<lambda>_. \<lparr>p_data = (\<lambda>_. 7), p_nread = 0xFFFFFFFE, p_nwrite = 0xFFFFFFFF, p_readopen = True, p_writeopen = True\<rparr>))"

lemma file0_sel [simp]:
  "pipes file0 p = \<lparr>p_data = (\<lambda>_. 7), p_nread = 0xFFFFFFFE, p_nwrite = 0xFFFFFFFF, p_readopen = True, p_writeopen = True\<rparr>"
  "f_ref (files file0 f) = 0"
  by (simp_all add: file0_def kcons.defs kfile.defs)

lemma mach_file0: "mach file0 = mach log0"
  unfolding mach_cons0 [symmetric] by (rule machine.equality) (simp_all add: file0_def kcons.defs kfile.defs)

lemma quiet_file0 [simp]: "quiet (mach file0) 0"
  unfolding mach_file0 by (rule bcache_okD(1) [OF log_okD(1) [OF log0_ok(1)]])

lemma pipe_bytes_file0: "pipe_bytes (pipes file0 p) = [7]"
  by (simp add: pipe_bytes_def ring_def)

theorem pipe_passes_bytes_in_order_witness:
  "\<exists>t u. pipewrite 0x80400000 [1, 2, 3] 3 file0 = Ret 3 t \<and> piperead 0x80400000 2 t = Ret (2, [7, 1]) u
     \<and> pipe_bytes (pipes u 0x80400000) = [2, 3]"
  using pipe_passes_bytes_in_order [of file0 0 "0x80400000" "[1, 2, 3]" 2]
  unfolding pipe_bytes_file0 by (simp add: pipe_ok_def) blast

end
