(* ===== verification/Process.thy ===== *)
theory Process
  imports File
begin

section \<open>Processes and kernel threads (proc.c, first half)\<close>

text \<open>
  Creation, growth and end of processes, and the kernel threads that share an address space: \<^verbatim>\<open>fork\<close>, \<^verbatim>\<open>KT_Create\<close>,
  \<^verbatim>\<open>clone\<close>, \<^verbatim>\<open>exit\<close>, \<^verbatim>\<open>wait\<close> and \<^verbatim>\<open>KT_Join\<close>. Trap frames and contexts are bytes of memory at the
  addresses the code computes; \<open>tf_eax\<close> and the like are the offsets of their fields. A process that sleeps in
  \<^verbatim>\<open>wait\<close> or \<^verbatim>\<open>KT_Join\<close> goes on with \<open>wait_resume\<close> or \<open>KT_Join_resume\<close>; \<^verbatim>\<open>sleep\<close> itself ends with the switch, so
  what follows it in the first part is never reached.
\<close>

abbreviation (input) tf_eax :: addr where "tf_eax \<equiv> 28"
abbreviation (input) tf_es :: addr where "tf_es \<equiv> 40"
abbreviation (input) tf_ds :: addr where "tf_ds \<equiv> 44"
abbreviation (input) tf_trapno :: addr where "tf_trapno \<equiv> 48"
abbreviation (input) tf_err :: addr where "tf_err \<equiv> 52"
abbreviation (input) tf_eip :: addr where "tf_eip \<equiv> 56"
abbreviation (input) tf_cs :: addr where "tf_cs \<equiv> 60"
abbreviation (input) tf_eflags :: addr where "tf_eflags \<equiv> 64"
abbreviation (input) tf_esp :: addr where "tf_esp \<equiv> 68"
abbreviation (input) tf_ss :: addr where "tf_ss \<equiv> 72"
abbreviation (input) tf_size :: u32 where "tf_size \<equiv> 76"
abbreviation (input) context_size :: u32 where "context_size \<equiv> 20"
abbreviation (input) context_eip :: addr where "context_eip \<equiv> 16"

text \<open>Two-byte stores, and a whole local array of the code stored at an address.\<close>

definition st16 :: "mem \<Rightarrow> addr \<Rightarrow> u16 \<Rightarrow> mem" where
  "st16 m a v = m(a := ucast v, a + 1 := ucast (drop_bit 8 v))"

definition ld16 :: "mem \<Rightarrow> addr \<Rightarrow> u16" where
  "ld16 m a = ucast (m a) OR push_bit 8 (ucast (m (a + 1)))"

definition put_bytes :: "mem \<Rightarrow> addr \<Rightarrow> u8 list \<Rightarrow> mem" where
  "put_bytes m a bs = (\<lambda>x. if unat (x - a) < length bs then bs ! unat (x - a) else m x)"

text \<open>The bytes of an array of words, as they lie in memory.\<close>

definition word_bytes :: "u32 list \<Rightarrow> u8 list" where
  "word_bytes ws = concat (map (\<lambda>w. put32 (replicate 4 0) 0 w) ws)"

text \<open>\<^verbatim>\<open>copyout\<close> of a local array or string of the caller, given by its bytes.\<close>

function copyout_bytes :: "addr \<Rightarrow> addr \<Rightarrow> u8 list \<Rightarrow> 'x kvm_scheme \<Rightarrow> (int, 'x kvm_scheme) outcome" where
  "copyout_bytes d va buf s =
     (if buf \<noteq> [] then
        let va0 = PGROUNDDOWN va in
        seq (uva2ka d va0 s) (\<lambda>pa0 s.
        if pa0 = 0 then Ret (-1) s
        else let n = min (length buf) (4096 - unat (va - va0));
                 s = s\<lparr>ram := put_bytes (ram s) (pa0 + (va - va0)) (take n buf)\<rparr> in
             copyout_bytes d (va0 + PGSIZE) (drop n buf) s)
      else Ret 0 s)"
  by pat_completeness auto
termination
  by (relation "measure (\<lambda>(d, va, buf, s). length buf)") (simp_all add: va_offset)

declare copyout_bytes.simps [simp del]

definition tf_store :: "nat \<Rightarrow> addr \<Rightarrow> u32 \<Rightarrow> 'x kproc_scheme \<Rightarrow> 'x kproc_scheme" where
  "tf_store p off v s = s\<lparr>ram := st32 (ram s) (tf (procs s p) + off) v\<rparr>"

definition tf_load :: "nat \<Rightarrow> addr \<Rightarrow> 'x kproc_scheme \<Rightarrow> u32" where
  "tf_load p off s = ld32 (ram s) (tf (procs s p) + off)"

definition tf_store16 :: "nat \<Rightarrow> addr \<Rightarrow> u16 \<Rightarrow> 'x kproc_scheme \<Rightarrow> 'x kproc_scheme" where
  "tf_store16 p off v s = s\<lparr>ram := st16 (ram s) (tf (procs s p) + off) v\<rparr>"

subsection \<open>Allocation of a slot\<close>

text \<open>The kernel stack of a new slot, with the trap frame at its top and the context that starts in \<^verbatim>\<open>forkret\<close>.\<close>

definition proc_stack :: "nat \<Rightarrow> 'x kproc_scheme \<Rightarrow> (nat option, 'x kproc_scheme) outcome" where
  "proc_stack p s =
     seq (kalloc s) (\<lambda>k s.
     let s = upd_proc p (\<lambda>q. q\<lparr>kstack := k\<rparr>) s in
     if k = 0 then Ret None (upd_proc p (\<lambda>q. q\<lparr>pstate := UNUSED\<rparr>) s)
     else let sp = k + KSTACKSIZE;
              sp = sp - tf_size;
              s = upd_proc p (\<lambda>q. q\<lparr>tf := sp\<rparr>) s;
              sp = sp - 4;
              s = s\<lparr>ram := st32 (ram s) sp (trapret_addr s)\<rparr>;
              sp = sp - context_size;
              s = upd_proc p (\<lambda>q. q\<lparr>context_p := sp\<rparr>) s;
              s = s\<lparr>ram := memset (ram s) sp 0 context_size\<rparr>;
              s = s\<lparr>ram := st32 (ram s) (sp + context_eip) (forkret_addr s)\<rparr>
          in Ret (Some p) s)"

definition allocproc :: "'x kproc_scheme \<Rightarrow> (nat option, 'x kproc_scheme) outcome" where
  "allocproc s =
     seq (acquire Lk_ptable s) (\<lambda>_ s.
     case find (\<lambda>p. pstate (procs s p) = UNUSED) [0..<NPROC] of
       None \<Rightarrow> seq (release Lk_ptable s) (\<lambda>_ s. Ret None s)
     | Some p \<Rightarrow>
         let s = upd_proc p (\<lambda>q. q\<lparr>pstate := EMBRYO, pid := nextpid s\<rparr>) s;
             s = s\<lparr>nextpid := nextpid s + 1\<rparr>;
             s = init_proc_metrics p s
         in seq (release Lk_ptable s) (\<lambda>_ s. proc_stack p s))"

definition tallocproc :: "'x kproc_scheme \<Rightarrow> (nat option, 'x kproc_scheme) outcome" where
  "tallocproc s =
     seq (acquire Lk_ptable s) (\<lambda>_ s.
     case find (\<lambda>p. pstate (procs s p) = UNUSED) [0..<NPROC] of
       None \<Rightarrow> seq (release Lk_ptable s) (\<lambda>_ s. Ret None s)
     | Some p \<Rightarrow>
         let s = upd_proc p (\<lambda>q. q\<lparr>pstate := EMBRYO\<rparr>) s;
             s = init_proc_metrics p s
         in seq (release Lk_ptable s) (\<lambda>_ s. proc_stack p s))"

text \<open>The end of the functions that start a process: under the lock it becomes runnable.\<close>

definition make_runnable :: "nat \<Rightarrow> 'x kproc_scheme \<Rightarrow> (unit, 'x kproc_scheme) outcome" where
  "make_runnable p s =
     seq (acquire Lk_ptable s) (\<lambda>_ s. release Lk_ptable (upd_proc p (\<lambda>q. q\<lparr>pstate := RUNNABLE\<rparr>) s))"

subsection \<open>The first process\<close>

definition userinit :: "u8 list \<Rightarrow> 'x kfile_scheme \<Rightarrow> (unit, 'x kfile_scheme) outcome" where
  "userinit stk s =
     seq (allocproc s) (\<lambda>po s.
     let s = s\<lparr>initproc := po\<rparr> in
     seq (deref ''userinit: p'' po s) (\<lambda>p s.
     seq (setupkvm s) (\<lambda>d s.
     let s = upd_proc p (\<lambda>q. q\<lparr>pgdir := d\<rparr>) s in
     if d = 0 then Panic ''userinit: out of memory?''
     else seq (inituvm d (initcode s) (initcode_size s) s) (\<lambda>_ s.
     let s = upd_proc p (\<lambda>q. q\<lparr>sz := PGSIZE\<rparr>) s;
         s = s\<lparr>ram := memset (ram s) (tf (procs s p)) 0 tf_size\<rparr>;
         s = tf_store16 p tf_cs 0x1B s;
         s = tf_store16 p tf_ds 0x23 s;
         s = tf_store16 p tf_es (ld16 (ram s) (tf (procs s p) + tf_ds)) s;
         s = tf_store16 p tf_ss (ld16 (ram s) (tf (procs s p) + tf_ds)) s;
         s = tf_store p tf_eflags 0x200 s;
         s = tf_store p tf_esp PGSIZE s;
         s = tf_store p tf_eip 0 s;
         s = upd_proc p (\<lambda>q. q\<lparr>pname := ''initcode''\<rparr>) s
     in seq (namei stk [47] s) (\<lambda>d s.
        make_runnable p (upd_proc p (\<lambda>q. q\<lparr>cwd := d\<rparr>) s))))))"

definition growproc :: "int \<Rightarrow> 'x kproc_scheme \<Rightarrow> (int, 'x kproc_scheme) outcome" where
  "growproc n s =
     seq (curproc s) (\<lambda>p s.
     let z = sz (procs s p) in
     seq (if n > 0 then allocuvm (pgdir (procs s p)) z (z + word_of_int n) s
          else if n < 0 then deallocuvm (pgdir (procs s p)) z (z + word_of_int n) s
          else Ret z s) (\<lambda>z s.
     if n \<noteq> 0 \<and> z = 0 then Ret (-1) s
     else seq (switchuvm (Some p) (upd_proc p (\<lambda>q. q\<lparr>sz := z\<rparr>) s)) (\<lambda>_ s. Ret 0 s)))"

subsection \<open>Copies of a process\<close>

text \<open>The loop over the open files, and the working directory.\<close>

definition copy_files :: "nat \<Rightarrow> nat \<Rightarrow> 'x kfile_scheme \<Rightarrow> (unit, 'x kfile_scheme) outcome" where
  "copy_files cur np s =
     seq (for_each [0..<NOFILE] (\<lambda>i s.
       case ofile (procs s cur) i of
         None \<Rightarrow> Ret () s
       | Some f \<Rightarrow> seq (filedup f s) (\<lambda>f s.
           Ret () (upd_proc np (\<lambda>q. q\<lparr>ofile := (ofile q)(i := Some f)\<rparr>) s))) s) (\<lambda>_ s.
     seq (deref ''idup'' (cwd (procs s cur)) s) (\<lambda>d s.
     seq (idup d s) (\<lambda>d s. Ret () (upd_proc np (\<lambda>q. q\<lparr>cwd := Some d\<rparr>) s))))"

definition fork :: "'x kfile_scheme \<Rightarrow> (int, 'x kfile_scheme) outcome" where
  "fork s =
     seq (curproc s) (\<lambda>cur s.
     seq (allocproc s) (\<lambda>po s.
     case po of
       None \<Rightarrow> Ret (-1) s
     | Some np \<Rightarrow>
         let i = (if psl (procs s cur) \<noteq> None then slindex (procs s cur) else 0) in
         seq (copyuvm (pgdir (procs s cur)) (sz (procs s cur)) i s) (\<lambda>d s.
         let s = upd_proc np (\<lambda>q. q\<lparr>pgdir := d\<rparr>) s in
         if d = 0
         then seq (kfree (kstack (procs s np)) s) (\<lambda>_ s.
              Ret (-1) (upd_proc np (\<lambda>q. q\<lparr>kstack := 0, pstate := UNUSED\<rparr>) s))
         else
           let s = upd_proc np (\<lambda>q. q\<lparr>sz := sz (procs s cur), parent := Some cur\<rparr>) s;
               s = s\<lparr>ram := memmove (ram s) (tf (procs s np)) (tf (procs s cur)) tf_size\<rparr>;
               s = tf_store np tf_eax 0 s;
               s = tf_store np tf_esp (tf_load np tf_esp s + word_of_int i * 2 * PGSIZE) s
           in seq (copy_files cur np s) (\<lambda>_ s.
              let s = upd_proc np (\<lambda>q. q\<lparr>pname := take 15 (pname (procs s cur))\<rparr>) s;
                  n = pid (procs s np)
              in seq (make_runnable np s) (\<lambda>_ s. Ret n s)))))"

definition clone :: "addr \<Rightarrow> int \<Rightarrow> addr \<Rightarrow> addr \<Rightarrow> 'x kfile_scheme \<Rightarrow> (int, 'x kfile_scheme) outcome" where
  "clone sp i fnc arg s =
     seq (curproc s) (\<lambda>cur s.
     seq (tallocproc s) (\<lambda>po s.
     case po of
       None \<Rightarrow> Ret (-1) s
     | Some nt \<Rightarrow>
         let s = upd_proc nt (\<lambda>q. q\<lparr>pthread := Some cur, psl := psl (procs s cur), slindex := i,
                   pgdir := pgdir (procs s cur), sz := sz (procs s cur)\<rparr>) s;
             s = s\<lparr>ram := memmove (ram s) (tf (procs s nt)) (tf (procs s cur)) tf_size\<rparr>
         in seq (copy_files cur nt s) (\<lambda>_ s.
            let s = upd_proc nt (\<lambda>q. q\<lparr>pname := take 15 (pname (procs s cur))\<rparr>) s;
                s = upd_proc nt (\<lambda>q. q\<lparr>pid := pid (procs s cur), tid := tid (procs s cur) + 1\<rparr>) s;
                sp = sp - 8
            in seq (copyout_bytes (pgdir (procs s nt)) sp (word_bytes [0xffffffff, arg]) s) (\<lambda>r s.
               if r < 0 then Ret (-1) s
               else let s = tf_store nt tf_eip fnc s;
                        s = tf_store nt tf_esp sp s
                    in seq (make_runnable nt s) (\<lambda>_ s. Ret (tid (procs s nt)) s)))))"

subsection \<open>Threads\<close>

text \<open>
  The stack of a new thread: its top and its index in the stack list, or \<open>None\<close> when the code goes to \<^verbatim>\<open>bad\<close>. The
  first thread of a process takes a list from the table; when none is free the stack pointer stays null and the
  index -1.
\<close>

definition kt_first_stack :: "nat \<Rightarrow> 'x kproc_scheme \<Rightarrow> ((addr \<times> int) option, 'x kproc_scheme) outcome" where
  "kt_first_stack p s =
     (case find (\<lambda>i. sl_state (psls s i) = UNUSED) [0..<KT_TABLESIZE] of
        None \<Rightarrow> Ret (Some (0, -1)) s
      | Some i \<Rightarrow>
          let s = upd_psl i (\<lambda>l. l\<lparr>sl_state := EMBRYO\<rparr>) s;
              s = upd_proc p (\<lambda>q. q\<lparr>psl := Some i\<rparr>) s;
              s = upd_psl i (\<lambda>l. l\<lparr>stackz := (stackz l)(0 := 1)\<rparr>) s;
              s = upd_proc p (\<lambda>q. q\<lparr>slindex := 0\<rparr>) s;
              s = upd_psl i (\<lambda>l. l\<lparr>thread_count := 2\<rparr>) s
          in seq (allocuvm (pgdir (procs s p)) (STACKBOTTOM - 4 * PGSIZE) (STACKBOTTOM - 2 * PGSIZE) s) (\<lambda>sp s.
             if sp = 0 then Ret None s
             else seq (clearpteu (pgdir (procs s p)) (sp - 4 * PGSIZE) s) (\<lambda>_ s.
                  Ret (Some (sp, 1)) (upd_psl i (\<lambda>l. l\<lparr>stackz := (stackz l)(1 := 1)\<rparr>) s))))"

definition kt_next_stack :: "nat \<Rightarrow> nat \<Rightarrow> 'x kproc_scheme \<Rightarrow> ((addr \<times> int) option, 'x kproc_scheme) outcome" where
  "kt_next_stack p l s =
     (let s = upd_psl l (\<lambda>x. x\<lparr>thread_count := thread_count x + 1\<rparr>) s in
      case find (\<lambda>i. stackz (psls s l) i = 0) [0..<8] of
        None \<Rightarrow> Ret (Some (0, -1)) s
      | Some i \<Rightarrow>
          seq (allocuvm (pgdir (procs s p)) (STACKBOTTOM - 2 * PGSIZE - word_of_nat i * 2 * PGSIZE)
                 (STACKBOTTOM - word_of_nat i * 2 * PGSIZE) s) (\<lambda>sp s.
          if sp = 0 then Ret None s
          else seq (clearpteu (pgdir (procs s p)) (sp - 2 * PGSIZE) s) (\<lambda>_ s.
               Ret (Some (sp, int i)) (upd_psl l (\<lambda>x. x\<lparr>stackz := (stackz x)(i := 1)\<rparr>) s))))"

definition kt_finish ::
    "nat \<Rightarrow> (addr \<times> int) option \<Rightarrow> addr \<Rightarrow> addr \<Rightarrow> 'x kfile_scheme \<Rightarrow> (int, 'x kfile_scheme) outcome" where
  "kt_finish p r fnc arg s =
     (case r of
        Some (sp, i) \<Rightarrow> seq (release Lk_sltable s) (\<lambda>_ s. clone sp i fnc arg s)
      | None \<Rightarrow>
          seq (release Lk_sltable s) (\<lambda>_ s.
          seq (whenb (pgdir (procs s p) \<noteq> 0) (freevm (pgdir (procs s p))) s) (\<lambda>_ s. Ret (-1) s)))"

definition KT_Create :: "addr \<Rightarrow> addr \<Rightarrow> 'x kfile_scheme \<Rightarrow> (int, 'x kfile_scheme) outcome" where
  "KT_Create fnc arg s =
     (if fnc = 0 then Ret (-1) s
      else seq (curproc s) (\<lambda>p s.
      seq (acquire Lk_sltable s) (\<lambda>_ s.
      case psl (procs s p) of
        Some l \<Rightarrow>
          if thread_count (psls s l) = 8 then seq (release Lk_sltable s) (\<lambda>_ s. Ret (-1) s)
          else seq (kt_next_stack p l s) (\<lambda>r s. kt_finish p r fnc arg s)
      | None \<Rightarrow> seq (kt_first_stack p s) (\<lambda>r s. kt_finish p r fnc arg s))))"

definition clear_psl :: "nat \<Rightarrow> 'x kproc_scheme \<Rightarrow> (unit, 'x kproc_scheme) outcome" where
  "clear_psl p s =
     seq (acquire Lk_sltable s) (\<lambda>_ s.
     seq (deref ''clear_psl'' (psl (procs s p)) s) (\<lambda>l s.
     let i = slindex (procs s p) in
     if i < 0 \<or> i \<ge> 8 then Fault ''stackz''
     else let s = upd_psl l (\<lambda>x. x\<lparr>stackz := (stackz x)(nat i := 0)\<rparr>) s in
     seq (deallocuvm (pgdir (procs s p)) (STACKBOTTOM - word_of_int i * 2 * PGSIZE)
            (STACKBOTTOM - 2 * PGSIZE - word_of_int i * 2 * PGSIZE) s) (\<lambda>_ s.
     let s = upd_proc p (\<lambda>q. q\<lparr>slindex := 0\<rparr>) s;
         s = upd_psl l (\<lambda>x. x\<lparr>thread_count := thread_count x - 1\<rparr>) s;
         s = upd_psl l (\<lambda>x. if thread_count x = 0 then x\<lparr>sl_state := UNUSED\<rparr> else x) s
     in release Lk_sltable s)))"

subsection \<open>End of a process\<close>

text \<open>
  The last part of \<^verbatim>\<open>exit\<close>: the children go to \<^verbatim>\<open>initproc\<close>, which is woken for each of them that is a zombie, and
  the process leaves for ever.
\<close>

definition adopt :: "nat \<Rightarrow> nat \<Rightarrow> 'x kproc_scheme \<Rightarrow> 'x kproc_scheme" where
  "adopt cur p s =
     (if parent (procs s p) = Some cur
      then let s = upd_proc p (\<lambda>q. q\<lparr>parent := initproc s\<rparr>) s in
           if pstate (procs s p) = ZOMBIE then wakeup1 (map_option Ch_proc (initproc s)) s else s
      else s)"

definition exit_finish :: "nat \<Rightarrow> 'x kproc_scheme \<Rightarrow> (unit, 'x kproc_scheme) outcome" where
  "exit_finish cur s =
     seq (acquire Lk_ptable s) (\<lambda>_ s.
     let s = wakeup1 (map_option Ch_proc (parent (procs s cur))) s;
         s = (case psl (procs s cur) of None \<Rightarrow> s | Some l \<Rightarrow> wakeup1 (Some (Ch_psl l)) s);
         s = fold (adopt cur) [0..<NPROC] s;
         s = upd_proc cur (\<lambda>q. q\<lparr>pstate := ZOMBIE\<rparr>) s
     in seq (sched s) (\<lambda>_ s. Panic ''zombie exit''))"

definition exit :: "'x kfile_scheme \<Rightarrow> (unit, 'x kfile_scheme) outcome" where
  "exit s =
     seq (myproc s) (\<lambda>po s.
     if po = initproc s then Panic ''init exiting''
     else seq (deref ''exit: curproc'' po s) (\<lambda>cur s.
     seq (for_each [0..<NOFILE] (\<lambda>fd s.
       case ofile (procs s cur) fd of
         None \<Rightarrow> Ret () s
       | Some f \<Rightarrow> seq (fileclose f s) (\<lambda>_ s.
           Ret () (upd_proc cur (\<lambda>q. q\<lparr>ofile := (ofile q)(fd := None)\<rparr>) s))) s) (\<lambda>_ s.
     seq (begin_op s) (\<lambda>_ s.
     seq (deref ''iput'' (cwd (procs s cur)) s) (\<lambda>d s.
     seq (iput d s) (\<lambda>_ s.
     seq (end_op s) (\<lambda>_ s.
     exit_finish cur (upd_proc cur (\<lambda>q. q\<lparr>cwd := None\<rparr>) s))))))))"

text \<open>The fields that \<^verbatim>\<open>wait\<close> and \<^verbatim>\<open>KT_Join\<close> clear in the slot they give back.\<close>

definition clear_slot :: "proc \<Rightarrow> proc" where
  "clear_slot q =
     q\<lparr>pid := 0, parent := None, pname := [], killed := False, tid := 0, pthread := None, psl := None,
       slindex := 0, pstate := UNUSED\<rparr>"

definition wait_reap :: "nat \<Rightarrow> 'x kproc_scheme \<Rightarrow> (int, 'x kproc_scheme) outcome" where
  "wait_reap p s =
     (let n = pid (procs s p) in
      seq (kfree (kstack (procs s p)) s) (\<lambda>_ s.
      let s = upd_proc p (\<lambda>q. q\<lparr>kstack := 0\<rparr>) s in
      seq (whenb (psl (procs s p) \<noteq> None) (clear_psl p) s) (\<lambda>_ s.
      seq (whenb (psl (procs s p) = None) (freevm (pgdir (procs s p))) s) (\<lambda>_ s.
      seq (release Lk_ptable (upd_proc p clear_slot s)) (\<lambda>_ s. Ret n s)))))"

definition wait_loop :: "nat \<Rightarrow> 'x kproc_scheme \<Rightarrow> (int, 'x kproc_scheme) outcome" where
  "wait_loop cur s =
     (case find (\<lambda>p. parent (procs s p) = Some cur \<and> pstate (procs s p) = ZOMBIE) [0..<NPROC] of
        Some p \<Rightarrow> wait_reap p s
      | None \<Rightarrow>
          if \<not> list_ex (\<lambda>p. parent (procs s p) = Some cur) [0..<NPROC] \<or> killed (procs s cur)
          then seq (release Lk_ptable s) (\<lambda>_ s. Ret (-1) s)
          else seq (sleep (Some (Ch_proc cur)) (Some Lk_ptable) s) (\<lambda>_ s. Ret (-1) s))"

definition wait :: "'x kproc_scheme \<Rightarrow> (int, 'x kproc_scheme) outcome" where
  "wait s = seq (curproc s) (\<lambda>cur s. seq (acquire Lk_ptable s) (\<lambda>_ s. wait_loop cur s))"

definition wait_resume :: "nat \<Rightarrow> 'x kproc_scheme \<Rightarrow> (int, 'x kproc_scheme) outcome" where
  "wait_resume cur s = seq (sleep_resume cur Lk_ptable s) (\<lambda>_ s. wait_loop cur s)"

definition join_reap :: "nat \<Rightarrow> 'x kproc_scheme \<Rightarrow> (int, 'x kproc_scheme) outcome" where
  "join_reap p s =
     (let n = tid (procs s p) in
      seq (kfree (kstack (procs s p)) s) (\<lambda>_ s.
      let s = upd_proc p (\<lambda>q. q\<lparr>kstack := 0\<rparr>) s in
      seq (whenb (case psl (procs s p) of None \<Rightarrow> True | Some l \<Rightarrow> thread_count (psls s l) = 0)
             (freevm (pgdir (procs s p))) s) (\<lambda>_ s.
      seq (whenb (psl (procs s p) \<noteq> None) (clear_psl p) s) (\<lambda>_ s.
      seq (release Lk_ptable (upd_proc p clear_slot s)) (\<lambda>_ s. Ret n s)))))"

definition KT_Join_loop :: "nat \<Rightarrow> 'x kproc_scheme \<Rightarrow> (int, 'x kproc_scheme) outcome" where
  "KT_Join_loop cur s =
     (case find (\<lambda>p. pthread (procs s p) = Some cur \<and> pstate (procs s p) = ZOMBIE) [0..<NPROC] of
        Some p \<Rightarrow> join_reap p s
      | None \<Rightarrow>
          if \<not> list_ex (\<lambda>p. pthread (procs s p) = Some cur) [0..<NPROC] \<or> killed (procs s cur)
          then seq (release Lk_ptable s) (\<lambda>_ s. Ret (-1) s)
          else seq (sleep (map_option Ch_psl (psl (procs s cur))) (Some Lk_ptable) s) (\<lambda>_ s. Ret (-1) s))"

definition KT_Join :: "'x kproc_scheme \<Rightarrow> (int, 'x kproc_scheme) outcome" where
  "KT_Join s = seq (curproc s) (\<lambda>cur s. seq (acquire Lk_ptable s) (\<lambda>_ s. KT_Join_loop cur s))"

definition KT_Join_resume :: "nat \<Rightarrow> 'x kproc_scheme \<Rightarrow> (int, 'x kproc_scheme) outcome" where
  "KT_Join_resume cur s = seq (sleep_resume cur Lk_ptable s) (\<lambda>_ s. KT_Join_loop cur s)"

definition forkret :: "'x kfile_scheme \<Rightarrow> (unit, 'x kfile_scheme) outcome" where
  "forkret s =
     seq (forkret_enter s) (\<lambda>first s.
     whenb first (\<lambda>s. seq (iinit ROOTDEV s) (\<lambda>_ s. initlog ROOTDEV s)) s)"

subsection \<open>The end of a process\<close>

text \<open>
  What \<open>adopt\<close> does to a slot, given whether \<^verbatim>\<open>initproc\<close> is woken: a child goes to \<open>init\<close>, and a process asleep on
  \<open>init\<close>'s own channel becomes runnable.
\<close>

definition orphan :: "nat \<Rightarrow> nat option \<Rightarrow> proc \<Rightarrow> proc" where
  "orphan cur init q = (if parent q = Some cur then q\<lparr>parent := init\<rparr> else q)"

definition woken_on :: "chan option set \<Rightarrow> proc \<Rightarrow> proc" where
  "woken_on C q = (if pstate q = SLEEPING \<and> pchan q \<in> C then q\<lparr>pstate := RUNNABLE\<rparr> else q)"

lemma woken_on_simps [simp]:
  "parent (woken_on C q) = parent q" "pchan (woken_on C q) = pchan q" "psl (woken_on C q) = psl q"
  "pstate (woken_on C q) = ZOMBIE \<longleftrightarrow> pstate q = ZOMBIE" "woken_on {} q = q"
  "woken_on C (woken_on D q) = woken_on (C \<union> D) q"
  "wake_one ch q = woken_on {ch} q"
  by (simp_all add: woken_on_def wake_one_def)

lemma orphan_simps [simp]:
  "pstate (orphan c i q) = pstate q" "pchan (orphan c i q) = pchan q" "orphan c i (woken_on C q) = woken_on C (orphan c i q)"
  by (simp_all add: orphan_def woken_on_def)

lemma wakeup1_sel [simp]:
  "mach (wakeup1 ch s) = mach s" "psls (wakeup1 ch s) = psls s" "initproc (wakeup1 ch s) = initproc s"
  "kstk_intena (wakeup1 ch s) = kstk_intena s"
  "p < NPROC \<Longrightarrow> procs (wakeup1 ch s) p = woken_on {ch} (procs s p)"
  by (simp_all add: wakeup1_eq)

lemma adopt_sel [simp]:
  "mach (adopt cur n s) = mach s" "psls (adopt cur n s) = psls s" "initproc (adopt cur n s) = initproc s"
  "kstk_intena (adopt cur n s) = kstk_intena s"
  by (simp_all add: adopt_def Let_def)

text \<open>The wakeup channels of a step: \<open>init\<close>'s when the child is a zombie already, none otherwise.\<close>

definition zombie_wake :: "nat \<Rightarrow> chan option \<Rightarrow> proc \<Rightarrow> chan option set" where
  "zombie_wake cur ch q = (if parent q = Some cur \<and> pstate q = ZOMBIE then {ch} else {})"

lemma zombie_wake_woken [simp]: "zombie_wake cur ch (woken_on C q) = zombie_wake cur ch q"
  by (simp add: zombie_wake_def)

lemma adopt_procs:
  assumes "p < NPROC"
  shows "procs (adopt cur n s) p =
    woken_on (zombie_wake cur (map_option Ch_proc (initproc s)) (procs s n))
      (if p = n then orphan cur (initproc s) (procs s p) else procs s p)"
  using assms by (cases "p = n") (simp_all add: adopt_def Let_def zombie_wake_def orphan_def)

lemma adopt_upto:
  assumes "n \<le> NPROC"
  shows "mach (fold (adopt cur) [0..<n] s) = mach s \<and> psls (fold (adopt cur) [0..<n] s) = psls s \<and>
    initproc (fold (adopt cur) [0..<n] s) = initproc s \<and>
    kstk_intena (fold (adopt cur) [0..<n] s) = kstk_intena s \<and>
    (\<forall>p < NPROC. procs (fold (adopt cur) [0..<n] s) p =
       woken_on (\<Union>q<n. zombie_wake cur (map_option Ch_proc (initproc s)) (procs s q))
         (if p < n then orphan cur (initproc s) (procs s p) else procs s p))"
  using assms
proof (induction n)
  case 0
  then show ?case by simp
next
  case (Suc n)
  let ?t = "fold (adopt cur) [0..<n] s"
  have ih: "mach ?t = mach s" "psls ?t = psls s" "initproc ?t = initproc s" "kstk_intena ?t = kstk_intena s"
     and pr: "p < NPROC \<Longrightarrow> procs ?t p =
       woken_on (\<Union>q<n. zombie_wake cur (map_option Ch_proc (initproc s)) (procs s q))
         (if p < n then orphan cur (initproc s) (procs s p) else procs s p)" for p
    using Suc by simp_all
  have n: "n < NPROC"
    using Suc.prems by simp
  show ?case
    using ih n by (auto simp: adopt_procs pr lessThan_Suc less_Suc_eq)
qed


definition exit_wakes :: "nat \<Rightarrow> 'x kproc_scheme \<Rightarrow> chan option set" where
  "exit_wakes cur s =
     {map_option Ch_proc (parent (procs s cur))}
     \<union> (case psl (procs s cur) of None \<Rightarrow> {} | Some l \<Rightarrow> {Some (Ch_psl l)})
     \<union> (\<Union>q<NPROC. zombie_wake cur (map_option Ch_proc (initproc s)) (procs s q))"

text \<open>C31 (functional). The last part of \<^verbatim>\<open>exit\<close>, entered by the running process \<open>cur\<close> with no lock held, always ends in the
  switch to the scheduler with only \<^verbatim>\<open>ptable.lock\<close> held, and what it has done to the process table is this and no
  more: \<open>cur\<close> is a zombie; every child of \<open>cur\<close> has \<open>init\<close> for its parent; whoever slept on the parent's channel
  (\<^verbatim>\<open>wait\<close>), on the thread list's channel (\<^verbatim>\<open>KT_Join\<close>) or, when a child was a zombie already, on \<open>init\<close>'s
  channel is runnable; every other field of every slot is as before.
\<close>

theorem exit_hands_children_to_init:
  assumes "runs (mach s) cur" "cur < NPROC"
  shows "\<exists>t. exit_finish cur s = Switch t \<and> mach t = enter Lk_ptable (mach s) \<and>
    procs t cur = (orphan cur (initproc s) (woken_on (exit_wakes cur s) (procs s cur)))\<lparr>pstate := ZOMBIE\<rparr> \<and>
    (\<forall>p < NPROC. p \<noteq> cur \<longrightarrow>
       procs t p = orphan cur (initproc s) (woken_on (exit_wakes cur s) (procs s p)))"
proof -
  let ?s0 = "set_mach (enter Lk_ptable (mach s)) s"
  let ?s1 = "wakeup1 (map_option Ch_proc (parent (procs s cur))) ?s0"
  let ?s2 = "case psl (procs ?s1 cur) of None \<Rightarrow> ?s1 | Some l \<Rightarrow> wakeup1 (Some (Ch_psl l)) ?s1"
  let ?s3 = "fold (adopt cur) [0..<NPROC] ?s2"
  let ?C = "case psl (procs s cur) of None \<Rightarrow> {} | Some l \<Rightarrow> {Some (Ch_psl l)}"
  let ?P = "{map_option Ch_proc (parent (procs s cur))}"
  have s2: "mach ?s2 = enter Lk_ptable (mach s)" "initproc ?s2 = initproc s"
    and p2: "p < NPROC \<Longrightarrow> procs ?s2 p = woken_on (?C \<union> ?P) (procs s p)" for p
    using assms(2) by (simp_all split: option.splits)
  have "(\<Union>q<NPROC. zombie_wake cur (map_option Ch_proc (initproc s)) (procs ?s2 q))
      = (\<Union>q<NPROC. zombie_wake cur (map_option Ch_proc (initproc s)) (procs s q))"
    by (rule SUP_cong) (simp_all add: p2)
  then have p3: "p < NPROC \<Longrightarrow> procs ?s3 p = orphan cur (initproc s) (woken_on (exit_wakes cur s) (procs s p))" for p
    using adopt_upto [of NPROC cur ?s2] s2 p2 by (simp add: exit_wakes_def Un_ac)
  have m3: "mach ?s3 = enter Lk_ptable (mach s)"
    using adopt_upto [of NPROC cur ?s2] s2 by simp
  let ?u = "upd_proc cur (\<lambda>q. q\<lparr>pstate := ZOMBIE\<rparr>) ?s3"
  have "exit_finish cur s = seq (sched ?u) (\<lambda>_ s. Panic ''zombie exit'')"
    using runs_steady [OF assms(1)] by (simp add: exit_finish_def acquire_steady Let_def cong: option.case_cong)
  moreover have "sched ?u = Switch (?u\<lparr>kstk_intena := (kstk_intena ?u)(cur := fl_if (mach s))\<rparr>)"
    using assms(1) m3 by (intro sched_switch) simp_all
  ultimately show ?thesis
    using p3 assms(2) m3 by simp
qed

theorem exit_hands_children_to_init_witness:
  "\<exists>t. exit_finish 0 (proc0\<lparr>procs := (\<lambda>_. no_proc)(0 := no_proc\<lparr>pstate := RUNNING, parent := Some 1\<rparr>,
        1 := no_proc\<lparr>pstate := SLEEPING, pchan := Some (Ch_proc 1)\<rparr>,
        2 := no_proc\<lparr>pstate := ZOMBIE, parent := Some 0\<rparr>), initproc := Some 1\<rparr>) = Switch t \<and>
     pstate (procs t 0) = ZOMBIE \<and> pstate (procs t 1) = RUNNABLE \<and>
     parent (procs t 2) = Some 1"
proof -
  let ?s = "proc0\<lparr>procs := (\<lambda>_. no_proc)(0 := no_proc\<lparr>pstate := RUNNING, parent := Some 1\<rparr>,
        1 := no_proc\<lparr>pstate := SLEEPING, pchan := Some (Ch_proc 1)\<rparr>,
        2 := no_proc\<lparr>pstate := ZOMBIE, parent := Some 0\<rparr>), initproc := Some 1\<rparr>"
  obtain t where t: "exit_finish 0 ?s = Switch t" "pstate (procs t 0) = ZOMBIE"
     and p: "p < NPROC \<Longrightarrow> p \<noteq> 0 \<Longrightarrow> procs t p = orphan 0 (initproc ?s) (woken_on (exit_wakes 0 ?s) (procs ?s p))" for p
    using exit_hands_children_to_init [of ?s 0] quietD(4) [OF quiet_user] by auto
  have "pstate (procs t 1) = RUNNABLE"
    by (simp add: p) (simp add: woken_on_def exit_wakes_def)
  moreover have "parent (procs t 2) = Some 1"
    by (simp add: p) (simp add: orphan_def)
  ultimately show ?thesis
    using t by blast
qed

end
