(* ===== verification/Exec.thy ===== *)
theory Exec
  imports Process
begin

section \<open>Program loading (exec.c, elf.h, loaduvm of vm.c)\<close>

text \<open>
  \<^verbatim>\<open>exec\<close> in the order of the code: the ELF header, the segments, the stack with its guard page, the argument
  strings and the array of pointers to them, and the switch to the new image. The headers are the bytes read from the
  file, with their fields at the offsets of elf.h. \<open>argv\<close> holds the strings the caller's array points to.
\<close>

abbreviation (input) ELF_MAGIC :: u32 where "ELF_MAGIC \<equiv> 0x464C457F"
abbreviation (input) ELF_PROG_LOAD :: u32 where "ELF_PROG_LOAD \<equiv> 1"

record elfhdr =
  elf_magic :: u32
  elf_entry :: u32
  elf_phoff :: u32
  elf_phnum :: u16

record proghdr =
  ph_type :: u32
  ph_off :: u32
  ph_vaddr :: u32
  ph_filesz :: u32
  ph_memsz :: u32

definition elfhdr_of :: "u8 list \<Rightarrow> elfhdr" where
  "elfhdr_of d = \<lparr>elf_magic = get32 d 0, elf_entry = get32 d 24, elf_phoff = get32 d 28, elf_phnum = get16 d 44\<rparr>"

definition proghdr_of :: "u8 list \<Rightarrow> proghdr" where
  "proghdr_of d =
     \<lparr>ph_type = get32 d 0, ph_off = get32 d 4, ph_vaddr = get32 d 8, ph_filesz = get32 d 16, ph_memsz = get32 d 20\<rparr>"

subsection \<open>Segments\<close>

text \<open>The bytes \<^verbatim>\<open>readi\<close> delivers are stored in the page that is mapped at the address.\<close>

function loaduvm_loop ::
    "addr \<Rightarrow> addr \<Rightarrow> nat \<Rightarrow> u32 \<Rightarrow> u32 \<Rightarrow> u32 \<Rightarrow> 'x kcons_scheme \<Rightarrow> (int, 'x kcons_scheme) outcome" where
  "loaduvm_loop d a ip offset i z s =
     (if i < z then
        seq (walkpgdir d (a + i) False s) (\<lambda>pte s.
        if pte = 0 then Panic ''loaduvm: address should exist''
        else let pa = PTE_ADDR (ld32 (ram s) pte);
                 n = (if z - i < PGSIZE then z - i else PGSIZE) in
        seq (readi ip (offset + i) n s) (\<lambda>(r, bs) s.
        let s = s\<lparr>ram := put_bytes (ram s) (P2V pa) bs\<rparr> in
        if word_of_int r \<noteq> n then Ret (-1) s
        else if i + PGSIZE \<le> i then Diverge
        else loaduvm_loop d a ip offset (i + PGSIZE) z s))
      else Ret 0 s)"
  by pat_completeness auto
termination
  by (relation "measure (\<lambda>(d, a, ip, offset, i, z, s). 4294967296 - unat i)")
    (auto simp: word_le_nat_alt not_le intro!: diff_less_mono2 unat_u32)

declare loaduvm_loop.simps [simp del]

definition loaduvm :: "addr \<Rightarrow> addr \<Rightarrow> nat \<Rightarrow> u32 \<Rightarrow> u32 \<Rightarrow> 'x kcons_scheme \<Rightarrow> (int, 'x kcons_scheme) outcome" where
  "loaduvm d a ip offset z s =
     (if a mod PGSIZE \<noteq> 0 then Panic ''loaduvm: addr must be page aligned''
      else loaduvm_loop d a ip offset 0 z s)"

text \<open>The loop over the \<open>n\<close> program headers left, from offset \<open>off\<close>; \<open>None\<close> when the code goes to \<^verbatim>\<open>bad\<close>, else the size.\<close>

fun exec_load :: "nat \<Rightarrow> addr \<Rightarrow> nat \<Rightarrow> u32 \<Rightarrow> u32 \<Rightarrow> 'x kcons_scheme \<Rightarrow> (u32 option, 'x kcons_scheme) outcome" where
  "exec_load 0 d ip off z s = Ret (Some z) s"
| "exec_load (Suc n) d ip off z s =
     seq (readi ip off 32 s) (\<lambda>(r, bs) s.
     if r \<noteq> 32 then Ret None s
     else let ph = proghdr_of bs in
     if ph_type ph \<noteq> ELF_PROG_LOAD then exec_load n d ip (off + 32) z s
     else if ph_memsz ph < ph_filesz ph then Ret None s
     else if ph_vaddr ph + ph_memsz ph < ph_vaddr ph then Ret None s
     else seq (allocuvm d z (ph_vaddr ph + ph_memsz ph) s) (\<lambda>z s.
     if z = 0 then Ret None s
     else if ph_vaddr ph mod PGSIZE \<noteq> 0 then Ret None s
     else seq (loaduvm d (ph_vaddr ph) ip (ph_off ph) (ph_filesz ph) s) (\<lambda>r s.
     if r < 0 then Ret None s else exec_load n d ip (off + 32) z s)))"

subsection \<open>Arguments\<close>

text \<open>
  The strings are pushed one after the other below \<open>sp\<close>; \<open>us\<close> are the entries of \<^verbatim>\<open>ustack\<close> from index 3 on. The
  result is the stack pointer and all of these entries with the terminating null.
\<close>

fun exec_args ::
    "addr \<Rightarrow> u8 list list \<Rightarrow> nat \<Rightarrow> addr \<Rightarrow> u32 list \<Rightarrow> 'x kvm_scheme \<Rightarrow>
     ((addr \<times> u32 list) option, 'x kvm_scheme) outcome" where
  "exec_args d [] argc sp us s = Ret (Some (sp, us @ [0])) s"
| "exec_args d (a # as) argc sp us s =
     (if argc \<ge> MAXARG then Ret None s
      else let sp = (sp - (word_of_nat (length a) + 1)) AND NOT 3 in
           seq (copyout_bytes d sp (a @ [0]) s) (\<lambda>r s.
           if r < 0 then Ret None s else exec_args d as (argc + 1) sp (us @ [sp]) s))"

definition exec_bad :: "addr \<Rightarrow> nat option \<Rightarrow> 'x kfile_scheme \<Rightarrow> (int, 'x kfile_scheme) outcome" where
  "exec_bad d ip s =
     seq (whenb (d \<noteq> 0) (freevm d) s) (\<lambda>_ s.
     seq (case ip of
            None \<Rightarrow> Ret () s
          | Some ip \<Rightarrow> seq (iunlockput ip s) (\<lambda>_ s. end_op s)) (\<lambda>_ s. Ret (-1) s))"

text \<open>The last element of the path, as the loop over it leaves \<^verbatim>\<open>last\<close>.\<close>

definition last_elem :: "u8 list \<Rightarrow> u8 list" where
  "last_elem path = rev (takeWhile (\<lambda>c. c \<noteq> 47) (rev path))"

definition exec_commit ::
    "nat \<Rightarrow> u8 list \<Rightarrow> u32 \<Rightarrow> addr \<Rightarrow> u32 \<Rightarrow> addr \<Rightarrow> 'x kproc_scheme \<Rightarrow> (int, 'x kproc_scheme) outcome" where
  "exec_commit cur path entry d z sp s =
     (let s = upd_proc cur (\<lambda>q. q\<lparr>pname := take 15 (map (\<lambda>c. char_of (unat c)) (last_elem path))\<rparr>) s;
          oldpgdir = pgdir (procs s cur);
          s = upd_proc cur (\<lambda>q. q\<lparr>pgdir := d\<rparr>) s;
          s = upd_proc cur (\<lambda>q. q\<lparr>sz := z\<rparr>) s;
          s = tf_store cur tf_eip entry s;
          s = tf_store cur tf_esp sp s;
          s = init_proc_metrics cur s
      in seq (switchuvm (Some cur) s) (\<lambda>_ s.
         seq (freevm oldpgdir s) (\<lambda>_ s. Ret 0 s)))"

definition exec_stack ::
    "nat \<Rightarrow> u8 list \<Rightarrow> u8 list list \<Rightarrow> u32 \<Rightarrow> addr \<Rightarrow> u32 \<Rightarrow> 'x kfile_scheme \<Rightarrow> (int, 'x kfile_scheme) outcome" where
  "exec_stack cur path argv entry d z s =
     seq (allocuvm d (STACKBOTTOM - 2 * PGSIZE) STACKBOTTOM s) (\<lambda>sp s.
     if sp = 0 then exec_bad d None s
     else seq (clearpteu d (sp - 2 * PGSIZE) s) (\<lambda>_ s.
     seq (exec_args d argv 0 sp [] s) (\<lambda>r s.
     case r of
       None \<Rightarrow> exec_bad d None s
     | Some (sp, us) \<Rightarrow>
         let argc = word_of_nat (length argv);
             ustack = [0xffffffff, argc, sp - (argc + 1) * 4] @ us;
             sp = sp - (3 + argc + 1) * 4
         in seq (copyout_bytes d sp (word_bytes ustack) s) (\<lambda>r s.
            if r < 0 then exec_bad d None s else exec_commit cur path entry d z sp s))))"

definition exec :: "u8 list \<Rightarrow> u8 list \<Rightarrow> u8 list list \<Rightarrow> 'x kfile_scheme \<Rightarrow> (int, 'x kfile_scheme) outcome" where
  "exec stk path argv s =
     seq (curproc s) (\<lambda>cur s.
     seq (begin_op s) (\<lambda>_ s.
     seq (namei stk path s) (\<lambda>r s.
     case r of
       None \<Rightarrow>
         seq (end_op s) (\<lambda>_ s.
         seq (cons_cprintf (map of_char ''exec: fail'' @ [10]) [] s) (\<lambda>_ s. Ret (-1) s))
     | Some ip \<Rightarrow>
         seq (ilock ip s) (\<lambda>_ s.
         seq (readi ip 0 52 s) (\<lambda>(r, bs) s.
         let elf = elfhdr_of bs in
         if r \<noteq> 52 then exec_bad 0 (Some ip) s
         else if elf_magic elf \<noteq> ELF_MAGIC then exec_bad 0 (Some ip) s
         else seq (setupkvm s) (\<lambda>d s.
         if d = 0 then exec_bad 0 (Some ip) s
         else seq (exec_load (unat (elf_phnum elf)) d ip (elf_phoff elf) 0 s) (\<lambda>z s.
         case z of
           None \<Rightarrow> exec_bad d (Some ip) s
         | Some z \<Rightarrow>
             seq (iunlockput ip s) (\<lambda>_ s.
             seq (end_op s) (\<lambda>_ s.
             exec_stack cur path argv (elf_entry elf) d (PGROUNDUP z) s)))))))))"

end
