(* ===== verification/Syscall.thy ===== *)
theory Syscall
  imports Exec
begin

section \<open>Arguments of system calls (syscall.c)\<close>

text \<open>
  The kernel reads and writes the memory of the calling process through the page table that is loaded. \<open>utrans\<close> is the
  translation of the processor: addresses from \<^verbatim>\<open>KERNBASE\<close> on are those of the model's memory, lower ones go through
  the directory in \<^verbatim>\<open>cr3\<close>, where a store needs a writable page. An access that has no translation is a page fault in
  the kernel, which \<^verbatim>\<open>trap\<close> answers with \<^verbatim>\<open>panic("trap")\<close>.
\<close>

definition utrans :: "bool \<Rightarrow> addr \<Rightarrow> 'x kvm_scheme \<Rightarrow> addr option" where
  "utrans store va s =
     (if va \<ge> KERNBASE then Some va
      else let need = (if store then PTE_P OR PTE_W else PTE_P);
               pde = ld32 (ram s) (P2V (cr3 s) + 4 * PDX va)
           in if pde AND need \<noteq> need then None
              else let pte = ld32 (ram s) (P2V (PTE_ADDR pde) + 4 * PTX va)
                   in if pte AND need \<noteq> need then None
                      else Some (P2V (PTE_ADDR pte) + (va AND 0xFFF)))"

definition user_byte :: "addr \<Rightarrow> 'x kvm_scheme \<Rightarrow> (u8, 'x kvm_scheme) outcome" where
  "user_byte va s = (case utrans False va s of None \<Rightarrow> Panic ''trap'' | Some a \<Rightarrow> Ret (ram s a) s)"

fun user_get :: "nat \<Rightarrow> addr \<Rightarrow> 'x kvm_scheme \<Rightarrow> (u8 list, 'x kvm_scheme) outcome" where
  "user_get 0 va s = Ret [] s"
| "user_get (Suc n) va s =
     seq (user_byte va s) (\<lambda>c s. seq (user_get n (va + 1) s) (\<lambda>cs s. Ret (c # cs) s))"

fun user_put :: "u8 list \<Rightarrow> addr \<Rightarrow> 'x kvm_scheme \<Rightarrow> (unit, 'x kvm_scheme) outcome" where
  "user_put [] va s = Ret () s"
| "user_put (c # cs) va s =
     (case utrans True va s of
        None \<Rightarrow> Panic ''trap''
      | Some a \<Rightarrow> user_put cs (va + 1) (s\<lparr>ram := (ram s)(a := c)\<rparr>))"

definition fetchint :: "addr \<Rightarrow> 'x kvm_scheme \<Rightarrow> (int option, 'x kvm_scheme) outcome" where
  "fetchint a s =
     (if a \<ge> KERNBASE \<or> a + 4 > KERNBASE then Ret None s
      else seq (user_get 4 a s) (\<lambda>bs s. Ret (Some (sint (get32 bs 0))) s))"

text \<open>The loop of \<^verbatim>\<open>fetchstr\<close>: the bytes up to the terminating zero, or \<open>None\<close> when the kernel is reached.\<close>

function fetchstr_loop :: "addr \<Rightarrow> u8 list \<Rightarrow> 'x kvm_scheme \<Rightarrow> (u8 list option, 'x kvm_scheme) outcome" where
  "fetchstr_loop a cs s =
     (if a < KERNBASE then
        seq (user_byte a s) (\<lambda>c s.
        if c = 0 then Ret (Some cs) s else fetchstr_loop (a + 1) (cs @ [c]) s)
      else Ret None s)"
  by pat_completeness auto
termination
proof (relation "measure (\<lambda>(a, cs, s). 4294967296 - unat a)", goal_cases)
  case (2 a cs s c s1)
  then have "unat a < 0x80000000"
    by (auto simp: word_less_nat_alt)
  moreover from this have "unat (a + 1) = unat a + 1"
    using unat_add_of_nat [of a 1] by simp
  ultimately show ?case
    by simp
qed simp

declare fetchstr_loop.simps [simp del]

definition fetchstr :: "addr \<Rightarrow> 'x kvm_scheme \<Rightarrow> (u8 list option, 'x kvm_scheme) outcome" where
  "fetchstr a s = (if a \<ge> KERNBASE then Ret None s else fetchstr_loop a [] s)"

definition argint :: "nat \<Rightarrow> 'x kproc_scheme \<Rightarrow> (int option, 'x kproc_scheme) outcome" where
  "argint n s = seq (curproc s) (\<lambda>p s. fetchint (tf_load p tf_esp s + 4 + 4 * word_of_nat n) s)"

definition argptr :: "nat \<Rightarrow> int \<Rightarrow> 'x kproc_scheme \<Rightarrow> (addr option, 'x kproc_scheme) outcome" where
  "argptr n len s =
     seq (argint n s) (\<lambda>r s.
     case r of
       None \<Rightarrow> Ret None s
     | Some i \<Rightarrow>
         let a = word_of_int i in
         if len < 0 \<or> a \<ge> KERNBASE \<or> a + word_of_int len > KERNBASE then Ret None s else Ret (Some a) s)"

definition argstr :: "nat \<Rightarrow> 'x kproc_scheme \<Rightarrow> (u8 list option, 'x kproc_scheme) outcome" where
  "argstr n s =
     seq (argint n s) (\<lambda>r s. case r of None \<Rightarrow> Ret None s | Some i \<Rightarrow> fetchstr (word_of_int i) s)"

subsection \<open>Arguments stay in user memory\<close>

lemma fetchstr_loop_user:
  "fetchstr_loop a cs s = Ret (Some ds) t \<Longrightarrow>
     \<exists>es. ds = cs @ es \<and> 0 \<notin> set es \<and> unat a + length es < 0x80000000"
proof (induction a cs s rule: fetchstr_loop.induct)
  case (1 a cs s)
  have lt: "a < KERNBASE"
    using 1(2) by (subst (asm) fetchstr_loop.simps) (auto split: if_splits)
  then have u: "unat a < 0x80000000"
    by (simp add: word_less_nat_alt)
  obtain c s1 where c: "user_byte a s = Ret c s1"
    using 1(2) lt by (subst (asm) fetchstr_loop.simps) (cases "user_byte a s", auto)
  show ?case
  proof (cases "c = 0")
    case True
    then show ?thesis
      using 1(2) lt c u by (subst (asm) fetchstr_loop.simps) simp
  next
    case False
    then have "fetchstr_loop (a + 1) (cs @ [c]) s1 = Ret (Some ds) t"
      using 1(2) lt c by (subst (asm) fetchstr_loop.simps) simp
    then obtain es where es: "ds = (cs @ [c]) @ es" "0 \<notin> set es" "unat (a + 1) + length es < 0x80000000"
      using 1(1) [OF lt c False] by blast
    have "unat (a + 1) = unat a + 1"
      using unat_add_of_nat [of a 1] u by simp
    then show ?thesis
      using es False by (intro exI [of _ "c # es"]) simp
  qed
qed

lemma argptr_user:
  assumes "argptr n len s = Ret (Some a) t" "len < 2 ^ 31"
  shows "0 \<le> len \<and> unat a + nat len \<le> 0x80000000"
proof -
  have b: "\<not> len < 0" "\<not> a \<ge> KERNBASE" "\<not> a + word_of_int len > KERNBASE"
    using assms(1) by (auto simp: argptr_def seq_Ret_iff Let_def split: option.splits if_splits)
  have "word_of_int len = (word_of_nat (nat len) :: u32)"
    using b(1) by simp
  moreover have "unat a < 0x80000000" "nat len < 0x80000000"
    using b assms(2) by (simp_all add: word_le_nat_alt nat_less_iff)
  ultimately have "unat (a + word_of_int len) = unat a + nat len"
    using unat_add_of_nat [of a "nat len"] by simp
  then show ?thesis
    using b by (simp add: word_less_nat_alt)
qed

text \<open>
  A process whose first page is mapped: the directory at the start of physical memory, a table and a page
  after it, then a trap frame with the stack pointer. The stack holds one argument, 0x200, and there is a string.
\<close>

definition user_ram :: mem where
  "user_ram = (st32 (st32 (st32 (st32 (\<lambda>_. 0) 0x80000000 0x1007) 0x80001000 0x2007) 0x80003044 0x100) 0x80002104 0x200)
     (0x80002200 := 104, 0x80002201 := 105)"

definition user0 :: kproc where
  "user0 = proc0\<lparr>ram := user_ram, procs := (procs proc0)(0 := (procs proc0 0)\<lparr>tf := 0x80003000\<rparr>)\<rparr>"

lemma user0_sel [simp]: "mach user0 = user_machine" "ram user0 = user_ram" "tf (procs user0 0) = 0x80003000" "cr3 user0 = 0"
  using mach_sel(3) [of user0]
  by (simp_all add: user0_def) (simp add: user_machine_def boot_machine_def proc0_def machine.defs)

lemma user_ram_sel:
  "ld32 user_ram 0x80000000 = 0x1007" "ld32 user_ram 0x80001000 = 0x2007" "ld32 user_ram 0x80003044 = 0x100"
  by (simp_all add: user_ram_def ld32_def st32_def)

lemma utrans_user0:
  assumes "va < 0x1000"
  shows "utrans st va user0 = Some (0x80002000 + (va AND 0xFFF))"
proof -
  have "unat va < 4096"
    using assms by (simp add: word_less_nat_alt)
  then have "drop_bit 12 va = 0" "drop_bit 22 va = 0"
    by (simp_all add: word_unat_eq_iff drop_bit_eq_div unat_div)
  then have "PDX va = 0" "PTX va = 0"
    by (simp_all add: PDX_def PTX_def)
  moreover have "\<not> va \<ge> KERNBASE"
    using assms by (simp add: word_less_nat_alt word_le_nat_alt)
  ultimately show ?thesis
    by (simp add: utrans_def P2V_def PTE_ADDR_def user_ram_sel Let_def)
qed

lemma user_byte_user0: "va < 0x1000 \<Longrightarrow> user_byte va user0 = Ret (user_ram (0x80002000 + (va AND 0xFFF))) user0"
  by (simp add: user_byte_def utrans_user0)

text \<open>C29 (bounds). What the kernel takes from a system call's arguments lies below \<^verbatim>\<open>KERNBASE\<close>: a pointer that
  \<^verbatim>\<open>argptr\<close> accepts begins a block of the requested, non-negative length that ends at or before \<^verbatim>\<open>KERNBASE\<close>, the sum not
  wrapping around, and a string that \<^verbatim>\<open>fetchstr\<close> accepts ends, with the zero byte after it, below \<^verbatim>\<open>KERNBASE\<close>.\<close>

theorem arguments_stay_in_user_memory:
  assumes "len < 2 ^ 31" "argptr n len s = Ret (Some a) t" "fetchstr b u = Ret (Some cs) v"
  shows "0 \<le> len \<and> unat a + nat len \<le> unat KERNBASE \<and> unat b + length cs < unat KERNBASE \<and> 0 \<notin> set cs"
  using argptr_user [OF assms(2,1)] fetchstr_loop_user [of b "[]" u cs v] assms(3)
  by (auto simp: fetchstr_def split: if_splits)

lemma user_get_4:
  "user_get 4 va s =
     seq (user_byte va s) (\<lambda>a s. seq (user_byte (va + 1) s) (\<lambda>b s. seq (user_byte (va + 2) s) (\<lambda>c s.
     seq (user_byte (va + 3) s) (\<lambda>d s. Ret [a, b, c, d] s))))"
  by (simp add: numeral_eq_Suc seq_assoc add.commute)

lemma user0_args:
  "argptr 0 16 user0 = Ret (Some 0x200) user0" "fetchstr 0x200 user0 = Ret (Some [104, 105]) user0"
proof -
  have "user_get 4 0x104 user0 = Ret [user_ram 0x80002104, user_ram 0x80002105, user_ram 0x80002106, user_ram 0x80002107] user0"
    using user_byte_user0 [of "0x104"] user_byte_user0 [of "0x105"] user_byte_user0 [of "0x106"] user_byte_user0 [of "0x107"]
    by (simp add: user_get_4)
  moreover have "[user_ram 0x80002104, user_ram 0x80002105, user_ram 0x80002106, user_ram 0x80002107] = [0, 2, 0, 0]"
    by (simp add: user_ram_def st32_def)
  ultimately have "fetchint 0x104 user0 = Ret (Some 0x200) user0"
    by (simp add: fetchint_def get32_def)
  then show "argptr 0 16 user0 = Ret (Some 0x200) user0"
    by (simp add: argptr_def argint_def curproc_steady tf_load_def user_ram_sel)
  show "fetchstr 0x200 user0 = Ret (Some [104, 105]) user0"
    by (simp add: fetchstr_def fetchstr_loop.simps user_byte_user0 user_ram_def st32_def)
qed

theorem arguments_stay_in_user_memory_witness:
  "argptr 0 16 user0 = Ret (Some 0x200) user0 \<and> fetchstr 0x200 user0 = Ret (Some [104, 105]) user0
    \<and> unat (0x200 :: addr) + 16 \<le> unat KERNBASE"
  using arguments_stay_in_user_memory [OF _ user0_args] user0_args by simp

end
