(* ===== verification/Semaphore.thy ===== *)
theory Semaphore
  imports Sched Fifo
begin

section \<open>Kernel semaphores (proc.c, sysproc.c)\<close>

text \<open>
  The counting semaphores of proc.c with their circular waiting queues, and the system calls on them.
  A call that puts the thread to sleep ends with \<open>Switch\<close>; \<open>sem_sleep_resume\<close>, \<open>sem_wait_resume\<close> and
  \<open>sys_sem_wait_resume\<close> are the rest of the calls once the thread runs again. The argument of a system
  call is given as the result of \<^verbatim>\<open>argint\<close>: \<open>None\<close> when it failed.
\<close>

subsection \<open>The queue\<close>

definition isEmpty :: "queue \<Rightarrow> bool" where
  "isEmpty que = (que_count que = 0)"

definition isFull :: "queue \<Rightarrow> bool" where
  "isFull que = (que_count que = int MAXQ)"

definition push_back :: "nat option \<Rightarrow> queue \<Rightarrow> queue" where
  "push_back p que =
     (if \<not> isFull que then
        let que = (if que_back que = int MAXQ - 1 then que\<lparr>que_back := -1\<rparr> else que);
            que = que\<lparr>que_back := que_back que + 1\<rparr>;
            que = que\<lparr>que_q := (que_q que)(nat (que_back que) := p)\<rparr>
        in que\<lparr>que_count := que_count que + 1\<rparr>
      else que)"

definition pop_front :: "queue \<Rightarrow> nat option \<times> queue" where
  "pop_front que =
     (if isEmpty que then (None, que)
      else let p = que_q que (nat (que_front que));
               que = que\<lparr>que_front := que_front que + 1\<rparr>;
               que = (if que_front que = int MAXQ then que\<lparr>que_front := 0\<rparr> else que)
           in (p, que\<lparr>que_count := que_count que - 1\<rparr>))"

subsection \<open>Operations on semaphores\<close>

text \<open>\<^verbatim>\<open>&semtable.sem[index]\<close>: an index outside the table is an access C leaves undefined.\<close>

definition sem_ref :: "int \<Rightarrow> 's \<Rightarrow> (nat, 's) outcome" where
  "sem_ref index s =
     (if 0 \<le> index \<and> index < int KT_TABLESIZE then Ret (nat index) s else Fault ''semtable.sem[index]'')"

definition sem_init :: "nat \<Rightarrow> int \<Rightarrow> 'x kproc_scheme \<Rightarrow> 'x kproc_scheme" where
  "sem_init i initCount s =
     (let s = initlock (Lk_sem i) ''semaphore lock'' s;
          s = upd_sem i (\<lambda>e. e\<lparr>sem_count := initCount\<rparr>) s;
          s = upd_sem i (\<lambda>e. e\<lparr>sem_queue := (sem_queue e)\<lparr>que_count := 0, que_front := 0, que_back := -1\<rparr>\<rparr>) s;
          s = upd_sem i (\<lambda>e. e\<lparr>sem_state := EMBRYO\<rparr>) s
      in upd_sem i (\<lambda>e. e\<lparr>sem_queue :=
           fold (\<lambda>k q. q\<lparr>que_q := (que_q q)(k := None)\<rparr>) [0..<MAXQ] (sem_queue e)\<rparr>) s)"

definition sem_initialize :: "int \<Rightarrow> 'x kproc_scheme \<Rightarrow> (int, 'x kproc_scheme) outcome" where
  "sem_initialize initCount s =
     seq (acquire Lk_semtable s) (\<lambda>_ s.
     case find (\<lambda>i. sem_state (sems s i) = UNUSED) [0..<KT_TABLESIZE] of
       Some i \<Rightarrow>
         let s = sem_init i initCount s in
         seq (release Lk_semtable s) (\<lambda>_ s. Ret (int i) s)
     | None \<Rightarrow> seq (release Lk_semtable s) (\<lambda>_ s. Ret (-1) s))"

definition sem_wakeup :: "nat \<Rightarrow> 'x kproc_scheme \<Rightarrow> (unit, 'x kproc_scheme) outcome" where
  "sem_wakeup i s =
     seq (acquire Lk_ptable s) (\<lambda>_ s.
     let r = pop_front (sem_queue (sems s i));
         s = upd_sem i (\<lambda>e. e\<lparr>sem_queue := snd r\<rparr>) s;
         s = (case fst r of None \<Rightarrow> s | Some p \<Rightarrow> upd_proc p (\<lambda>q. q\<lparr>pstate := RUNNABLE\<rparr>) s)
     in release Lk_ptable s)"

definition sem_signal :: "int \<Rightarrow> 'x kproc_scheme \<Rightarrow> (int, 'x kproc_scheme) outcome" where
  "sem_signal index s =
     seq (sem_ref index s) (\<lambda>i s.
     if sem_state (sems s i) = UNUSED then Ret (-1) s
     else seq (acquire (Lk_sem i) s) (\<lambda>_ s.
          let s = upd_sem i (\<lambda>e. e\<lparr>sem_count := sem_count e + 1\<rparr>) s in
          seq (sem_wakeup i s) (\<lambda>_ s.
          seq (release (Lk_sem i) s) (\<lambda>_ s. Ret 0 s))))"

definition sem_sleep :: "nat \<Rightarrow> 'x kproc_scheme \<Rightarrow> (unit, 'x kproc_scheme) outcome" where
  "sem_sleep i s =
     seq (myproc s) (\<lambda>po s.
     case po of
       None \<Rightarrow> Panic ''sem_sleep''
     | Some p \<Rightarrow>
         seq (acquire Lk_ptable s) (\<lambda>_ s.
         let s = upd_sem i (\<lambda>e. e\<lparr>sem_queue := push_back (Some p) (sem_queue e)\<rparr>) s in
         seq (release (Lk_sem i) s) (\<lambda>_ s.
         let s = upd_proc p (\<lambda>q. q\<lparr>pstate := SEM_SLEEPING\<rparr>) s in
         seq (popcli s) (\<lambda>_ s. sched s))))"

definition sem_sleep_resume :: "nat \<Rightarrow> nat \<Rightarrow> 'x kproc_scheme \<Rightarrow> (unit, 'x kproc_scheme) outcome" where
  "sem_sleep_resume p i s =
     seq (sched_resume p s) (\<lambda>_ s.
     seq (pushcli s) (\<lambda>_ s.
     seq (release Lk_ptable s) (\<lambda>_ s. acquire (Lk_sem i) s)))"

definition sem_wait :: "int \<Rightarrow> 'x kproc_scheme \<Rightarrow> (int, 'x kproc_scheme) outcome" where
  "sem_wait index s =
     seq (sem_ref index s) (\<lambda>i s.
     if sem_state (sems s i) = UNUSED then Ret (-1) s
     else seq (acquire (Lk_sem i) s) (\<lambda>_ s.
          seq (if sem_count (sems s i) \<le> 0
               then sem_sleep i (upd_sem i (\<lambda>e. e\<lparr>sem_count := sem_count e - 1\<rparr>) s)
               else Ret () (upd_sem i (\<lambda>e. e\<lparr>sem_count := sem_count e - 1\<rparr>) s)) (\<lambda>_ s.
          seq (release (Lk_sem i) s) (\<lambda>_ s. Ret 0 s))))"

definition sem_wait_resume :: "nat \<Rightarrow> nat \<Rightarrow> 'x kproc_scheme \<Rightarrow> (int, 'x kproc_scheme) outcome" where
  "sem_wait_resume p i s =
     seq (sem_sleep_resume p i s) (\<lambda>_ s. seq (release (Lk_sem i) s) (\<lambda>_ s. Ret 0 s))"

definition sem_free :: "int \<Rightarrow> 'x kproc_scheme \<Rightarrow> (unit, 'x kproc_scheme) outcome" where
  "sem_free index s =
     seq (sem_ref index s) (\<lambda>i s.
     seq (acquire (Lk_sem i) s) (\<lambda>_ s.
     let s = upd_sem i (\<lambda>e. e\<lparr>sem_state := UNUSED\<rparr>) s in
     release (Lk_sem i) s))"

subsection \<open>The system calls (sysproc.c)\<close>

definition sys_sem_initialize :: "int option \<Rightarrow> 'x kproc_scheme \<Rightarrow> (int, 'x kproc_scheme) outcome" where
  "sys_sem_initialize arg s =
     (case arg of
        None \<Rightarrow> Ret (-1) s
      | Some initCount \<Rightarrow>
          if initCount \<le> 0 \<and> initCount \<ge> 6 then Ret (-1) s else sem_initialize initCount s)"

definition sys_sem_wait :: "int option \<Rightarrow> 'x kproc_scheme \<Rightarrow> (int, 'x kproc_scheme) outcome" where
  "sys_sem_wait arg s =
     (case arg of
        None \<Rightarrow> Ret (-1) s
      | Some index \<Rightarrow>
          if index < 0 \<or> index \<ge> int NPROC then Ret (-1) s
          else seq (pushcli s) (\<lambda>_ s.
               seq (sem_wait index s) (\<lambda>wait_res s.
               seq (popcli s) (\<lambda>_ s. Ret wait_res s))))"

definition sys_sem_wait_resume :: "nat \<Rightarrow> nat \<Rightarrow> 'x kproc_scheme \<Rightarrow> (int, 'x kproc_scheme) outcome" where
  "sys_sem_wait_resume p i s =
     seq (sem_wait_resume p i s) (\<lambda>wait_res s.
     seq (popcli s) (\<lambda>_ s. Ret wait_res s))"

definition sys_sem_signal :: "int option \<Rightarrow> 'x kproc_scheme \<Rightarrow> (int, 'x kproc_scheme) outcome" where
  "sys_sem_signal arg s =
     (case arg of
        None \<Rightarrow> Ret (-1) s
      | Some index \<Rightarrow>
          if index < 0 \<or> index > int NPROC then Ret (-1) s
          else seq (pushcli s) (\<lambda>_ s.
               seq (sem_signal index s) (\<lambda>signal_res s.
               seq (popcli s) (\<lambda>_ s. Ret signal_res s))))"

definition sys_sem_free :: "int option \<Rightarrow> 'x kproc_scheme \<Rightarrow> (int, 'x kproc_scheme) outcome" where
  "sys_sem_free arg s =
     (case arg of
        None \<Rightarrow> Ret (-1) s
      | Some index \<Rightarrow>
          if index < 0 \<or> index > int NPROC then Ret (-1) s
          else seq (sem_free index s) (\<lambda>_ s. Ret 0 s))"

subsection \<open>The circular queue refines a bounded queue\<close>

definition queue_at :: "queue \<Rightarrow> nat \<Rightarrow> nat" where
  "queue_at q k = nat ((que_front q + int k) mod int MAXQ)"

definition queue_ok :: "queue \<Rightarrow> bool" where
  "queue_ok q \<longleftrightarrow>
     0 \<le> que_front q \<and> que_front q < int MAXQ \<and> 0 \<le> que_count q \<and> que_count q \<le> int MAXQ
     \<and> -1 \<le> que_back q \<and> que_back q < int MAXQ
     \<and> (que_back q + 1) mod int MAXQ = (que_front q + que_count q) mod int MAXQ
     \<and> (\<forall>k < nat (que_count q). que_q q (queue_at q k) \<noteq> None)"

definition queue_list :: "queue \<Rightarrow> nat list" where
  "queue_list q = map (\<lambda>k. the (que_q q (queue_at q k))) [0..<nat (que_count q)]"

lemma length_queue_list [simp]: "length (queue_list q) = nat (que_count q)"
  by (simp add: queue_list_def)

lemma queue_at_neq:
  assumes "k < n" "n < MAXQ"
  shows "queue_at q k \<noteq> queue_at q n"
proof
  assume "queue_at q k = queue_at q n"
  then have "(que_front q + int n) mod 7 = (que_front q + int k) mod 7"
    by (simp add: queue_at_def eq_nat_nat_iff)
  then have "7 dvd int n - int k"
    by (simp add: mod_eq_dvd_iff)
  then show False
    using assms zdvd_not_zless [of "int n - int k" 7] by simp
qed

lemma push_back_fields:
  assumes "queue_ok q" "\<not> isFull q"
  shows "push_back p q =
    q\<lparr>que_back := int (queue_at q (nat (que_count q))),
      que_q := (que_q q)(queue_at q (nat (que_count q)) := p), que_count := que_count q + 1\<rparr>"
proof -
  have b: "(que_back q + 1) mod 7 = (que_front q + que_count q) mod 7" "-1 \<le> que_back q" "que_back q < 7"
    "0 \<le> que_count q"
    using assms(1) by (simp_all add: queue_ok_def)
  have "(if que_back q = 6 then -1 else que_back q) + 1 = (que_back q + 1) mod 7"
    using b(2,3) by simp
  then have "(if que_back q = 6 then -1 else que_back q) + 1 = int (queue_at q (nat (que_count q)))"
    using b by (simp add: queue_at_def)
  then show ?thesis
    using assms(2) by (auto simp: push_back_def Let_def)
qed

lemma push_back_refines:
  assumes "queue_ok q"
  shows "queue_ok (push_back (Some p) q)"
    "queue_list (push_back (Some p) q) =
       (if length (queue_list q) < MAXQ then queue_list q @ [p] else queue_list q)"
proof -
  let ?n = "nat (que_count q)" and ?q = "push_back (Some p) q"
  have c: "0 \<le> que_count q" "que_count q \<le> 7"
    using assms by (simp_all add: queue_ok_def)
  have full: "?q = q" if "\<not> ?n < MAXQ"
    using that c by (simp add: push_back_def isFull_def)
  have notfull: "queue_ok ?q \<and> queue_list ?q = queue_list q @ [p]" if n: "?n < MAXQ"
  proof -
    have q: "?q = q\<lparr>que_back := int (queue_at q ?n), que_q := (que_q q)(queue_at q ?n := Some p),
        que_count := que_count q + 1\<rparr>"
      using push_back_fields [OF assms, of "Some p"] n by (simp add: isFull_def)
    have at: "queue_at ?q k = queue_at q k" for k
      by (simp add: q queue_at_def)
    have s: "nat (que_count ?q) = Suc ?n"
      using c by (simp add: q)
    have old: "que_q ?q (queue_at q k) = que_q q (queue_at q k)" if "k < ?n" for k
      using queue_at_neq [OF that n, of q] by (simp add: q)
    have new: "que_q ?q (queue_at q ?n) = Some p"
      by (simp add: q)
    have "queue_list ?q = queue_list q @ [p]"
      unfolding queue_list_def s at using old new by simp
    moreover have "(que_back ?q + 1) mod 7 = (que_front q + (que_count q + 1)) mod 7"
      using c by (simp add: q queue_at_def mod_simps add.assoc)
    moreover have "que_front ?q = que_front q" "que_count ?q = que_count q + 1"
        "que_back ?q = int (queue_at q ?n)" "queue_at q ?n < 7"
      by (simp_all add: q) (simp add: queue_at_def)
    moreover have "\<forall>k < nat (que_count ?q). que_q ?q (queue_at ?q k) \<noteq> None"
      unfolding s at using old new assms by (auto simp: queue_ok_def less_Suc_eq)
    moreover have "0 \<le> que_front q" "que_front q < 7" "que_count q + 1 \<le> 7"
      using assms n c by (simp_all add: queue_ok_def)
    ultimately show ?thesis
      using c(1) unfolding queue_ok_def by simp
  qed
  show "queue_ok ?q" "queue_list ?q =
      (if length (queue_list q) < MAXQ then queue_list q @ [p] else queue_list q)"
    using full notfull assms by (cases "?n < MAXQ"; simp)+
qed

lemma pop_front_refines:
  assumes "queue_ok q" "queue_list q = p # ps"
  shows "queue_ok (snd (pop_front q))" "fst (pop_front q) = Some p"
    "queue_list (snd (pop_front q)) = ps"
proof -
  let ?q = "snd (pop_front q)"
  have c: "0 < que_count q" "que_count q \<le> 7" "0 \<le> que_front q" "que_front q < 7"
    using assms length_queue_list [of q] by (auto simp: queue_ok_def)
  have f: "que_front ?q = (que_front q + 1) mod 7" "que_count ?q = que_count q - 1"
      "que_q ?q = que_q q" "que_back ?q = que_back q"
    using c by (auto simp: pop_front_def Let_def isEmpty_def)
  have at: "queue_at ?q k = queue_at q (Suc k)" for k
    by (simp add: queue_at_def f mod_simps algebra_simps)
  have n: "nat (que_count q) = Suc (nat (que_count ?q))"
    using c f by simp
  have "queue_list q = the (que_q q (queue_at q 0)) # queue_list ?q"
    unfolding queue_list_def n by (simp add: upt_conv_Cons map_Suc_upt [symmetric] at f(3) del: upt_Suc)
  then show "queue_list ?q = ps"
    using assms(2) by simp
  have "fst (pop_front q) = que_q q (queue_at q 0)"
    using c by (auto simp: pop_front_def Let_def isEmpty_def queue_at_def)
  then show "fst (pop_front q) = Some p"
    using assms n by (auto simp: queue_ok_def queue_list_def upt_conv_Cons simp del: upt_Suc)
  show "queue_ok ?q"
    using assms(1) c n at f by (auto simp: queue_ok_def mod_simps)
qed

interpretation sq: bounded_fifo queue_ok queue_list MAXQ "\<lambda>p. push_back (Some p)" pop_front
proof
  fix q x xs
  show "queue_ok q \<Longrightarrow> queue_ok (snd (pop_front q))"
    using pop_front_refines(1) [of q] by (cases "queue_list q") (auto simp: pop_front_def isEmpty_def queue_list_def queue_ok_def)
  show "queue_ok q \<Longrightarrow> queue_list q = [] \<Longrightarrow> pop_front q = (None, q)"
    by (auto simp: pop_front_def isEmpty_def queue_list_def queue_ok_def)
qed (simp_all add: push_back_refines pop_front_refines)

declare length_queue_list [simp del]

subsection \<open>The operations in a steady state\<close>

lemma upd_sem_sel [simp]:
  "mach (upd_sem i f s) = mach s" "procs (upd_sem i f s) = procs s"
  "sems (upd_sem i f s) = (sems s)(i := f (sems s i))" "kstk_intena (upd_sem i f s) = kstk_intena s"
  "set_mach m (upd_sem i f s) = upd_sem i f (set_mach m s)"
  "upd_sem i f (upd_sem i g s) = upd_sem i (\<lambda>e. f (g e)) s"
  by (simp_all add: upd_sem_def)

lemma sem_ref_ok [simp]: "i < KT_TABLESIZE \<Longrightarrow> sem_ref (int i) s = Ret i s"
  by (simp add: sem_ref_def)

text \<open>What a wait does to the semaphore itself, and what a signal does.\<close>

definition wait_sem :: "nat \<Rightarrow> semaphore \<Rightarrow> semaphore" where
  "wait_sem p e =
     (if sem_count e \<le> 0
      then e\<lparr>sem_count := sem_count e - 1, sem_queue := push_back (Some p) (sem_queue e)\<rparr>
      else e\<lparr>sem_count := sem_count e - 1\<rparr>)"

definition signal_sem :: "semaphore \<Rightarrow> semaphore" where
  "signal_sem e = e\<lparr>sem_count := sem_count e + 1, sem_queue := snd (pop_front (sem_queue e))\<rparr>"

definition sem_usable :: "nat \<Rightarrow> 'x kproc_scheme \<Rightarrow> bool" where
  "sem_usable i s \<longleftrightarrow>
     i < KT_TABLESIZE \<and> sem_state (sems s i) \<noteq> UNUSED \<and> lock_free (Lk_sem i) (mach s)"

lemma sys_sem_wait_enters:
  assumes "runs (mach s) p" "sem_usable i s" "0 < sem_count (sems s i)"
  shows "sys_sem_wait (Some (int i)) s = Ret 0 (upd_sem i (wait_sem p) s)"
proof -
  let ?u = "upd_sem i (\<lambda>e. e\<lparr>sem_count := sem_count e - 1\<rparr>) s"
  have "upd_sem i (wait_sem p) s = ?u"
    using assms(3) by (simp add: upd_sem_def wait_sem_def)
  moreover have "popcli (set_mach (nest (mach s)) ?u) = Ret () ?u"
    using popcli_pushcli [of "set_mach (nest (mach s)) ?u" "mach s"] runs_steady [OF assms(1)] by simp
  ultimately show ?thesis
    using assms runs_steady [OF assms(1)]
    by (simp add: sys_sem_wait_def sem_wait_def sem_usable_def pushcli_steady acquire_steady
        release_section)
qed

definition sem_slept :: "nat \<Rightarrow> nat \<Rightarrow> 'x kproc_scheme \<Rightarrow> 'x kproc_scheme" where
  "sem_slept p i s =
     (upd_proc p (\<lambda>q. q\<lparr>pstate := SEM_SLEEPING\<rparr>)
       (upd_sem i (wait_sem p) (set_mach (enter Lk_ptable (mach s)) s)))
       \<lparr>kstk_intena := (kstk_intena s)(p := fl_if s)\<rparr>"

lemma sys_sem_wait_blocks:
  assumes "runs (mach s) p" "sem_usable i s" "sem_count (sems s i) \<le> 0"
  shows "sys_sem_wait (Some (int i)) s = Switch (sem_slept p i s)"
proof -
  define m where "m = mach s"
  define u where "u = upd_sem i (wait_sem p) s"
  have ru: "steady m" "running m = Some p" "lock_free Lk_ptable m" "lock_free (Lk_sem i) m"
    using assms runs_steady [OF assms(1)] by (simp_all add: m_def sem_usable_def)
  have eq: "upd_sem i (\<lambda>e. e\<lparr>sem_count := sem_count e - 1, sem_queue := push_back (Some p) (sem_queue e)\<rparr>)
      (set_mach m' s) = set_mach m' u" for m'
    using assms(3) by (simp add: u_def upd_sem_def wait_sem_def)
  have r1: "release (Lk_sem i) (set_mach (enter Lk_ptable (enter (Lk_sem i) (nest m))) u)
      = Ret () (set_mach (enter Lk_ptable (nest m)) u)"
    using release_outer [of "set_mach (enter Lk_ptable (enter (Lk_sem i) (nest m))) u" Lk_ptable
        "Lk_sem i" "nest m"] ru by simp
  let ?v = "upd_proc p (\<lambda>q. q\<lparr>pstate := SEM_SLEEPING\<rparr>) u"
  have r2: "popcli (set_mach (enter Lk_ptable (nest m)) ?v) = Ret () (set_mach (enter Lk_ptable m) ?v)"
    using popcli_outer [of "set_mach (enter Lk_ptable (nest m)) ?v" Lk_ptable m] ru by simp
  have "sched (set_mach (enter Lk_ptable m) ?v) =
      Switch ((set_mach (enter Lk_ptable m) ?v)\<lparr>kstk_intena :=
        (kstk_intena (set_mach (enter Lk_ptable m) ?v))(p := fl_if m)\<rparr>)"
    using assms(1) by (intro sched_switch) (simp_all add: m_def)
  then have "sys_sem_wait (Some (int i)) s =
      Switch ((set_mach (enter Lk_ptable m) ?v)\<lparr>kstk_intena := (kstk_intena u)(p := fl_if m)\<rparr>)"
    using assms ru eq r1 r2
    by (simp add: sys_sem_wait_def sem_wait_def sem_sleep_def sem_usable_def pushcli_steady
        acquire_steady myproc_steady m_def [symmetric])
  then show ?thesis
    by (simp add: sem_slept_def u_def m_def)
qed

definition wake_first :: "nat option \<Rightarrow> 'x kproc_scheme \<Rightarrow> 'x kproc_scheme" where
  "wake_first po s = (case po of None \<Rightarrow> s | Some p \<Rightarrow> upd_proc p (\<lambda>q. q\<lparr>pstate := RUNNABLE\<rparr>) s)"

lemma wake_first_simps [simp]:
  "mach (wake_first po s) = mach s" "sems (wake_first po s) = sems s"
  "set_mach m (wake_first po s) = wake_first po (set_mach m s)"
  by (simp_all add: wake_first_def split: option.splits)

lemma sys_sem_signal_wakes:
  assumes "runs (mach s) p" "sem_usable i s"
  shows "sys_sem_signal (Some (int i)) s =
    Ret 0 (wake_first (fst (pop_front (sem_queue (sems s i)))) (upd_sem i signal_sem s))"
proof -
  define m where "m = mach s"
  define u where "u = wake_first (fst (pop_front (sem_queue (sems s i)))) (upd_sem i signal_sem s)"
  have ru: "steady m" "lock_free Lk_ptable m" "lock_free (Lk_sem i) m" "mach u = m"
    using assms runs_steady [OF assms(1)] by (simp_all add: m_def sem_usable_def u_def)
  let ?s = "set_mach (enter (Lk_sem i) (nest m)) (upd_sem i (\<lambda>e. e\<lparr>sem_count := sem_count e + 1\<rparr>) s)"
  have w: "sem_wakeup i ?s = Ret () (set_mach (enter (Lk_sem i) (nest m)) u)"
    using ru
    by (cases "fst (pop_front (sem_queue (sems s i)))")
      (simp_all add: sem_wakeup_def acquire_steady release_section Let_def u_def wake_first_def
        upd_sem_def signal_sem_def)
  have p: "popcli (set_mach (nest m) u) = Ret () u"
    using popcli_pushcli [of "set_mach (nest m) u" m] ru set_mach_eq [of u m] by simp
  show ?thesis
    using assms ru w p
    by (simp add: sys_sem_signal_def sem_signal_def sem_usable_def pushcli_steady acquire_steady
        release_section m_def [symmetric] u_def [symmetric])
qed

lemma nest_enter: "nest (enter l m) = enter l (nest m)"
  by (rule machine.equality) (simp_all add: enter_def)

lemma sys_sem_wait_resumes:
  assumes "mach u = enter Lk_ptable m" "runs m p" "lock_free (Lk_sem i) m"
  shows "sys_sem_wait_resume p i u = Ret 0 (set_mach (resumed (kstk_intena u p) m) u)"
proof -
  define r where "r = resumed (kstk_intena u p) m"
  let ?t = "upd_cpu (this_cpu m) (\<lambda>q. q\<lparr>intena := kstk_intena u p\<rparr>) u"
  have m: "mach ?t = enter Lk_ptable r"
    unfolding r_def using assms by (intro enter_resumed) (simp_all add: runs_def)
  have t: "?t = set_mach (enter Lk_ptable r) u"
    unfolding m [symmetric] by (rule machine.equality) (simp_all add: upd_cpu_def)
  have "runs r p"
    unfolding r_def using assms(2) by (rule runs_resumed)
  then have ru: "steady r" "lock_free Lk_ptable r" "lock_free (Lk_sem i) r"
    using runs_steady [of r p] assms(3) by (simp_all add: r_def)
  have "popcli (set_mach (nest r) u) = Ret () (set_mach r u)"
    using popcli_pushcli [of "set_mach (nest r) u" r] ru by simp
  then show ?thesis
    using assms ru runs_steady [OF assms(2)]
    by (simp add: sys_sem_wait_resume_def sem_wait_resume_def sem_sleep_resume_def sched_resume_eq t
        pushcli_steady nest_enter release_section acquire_steady r_def [symmetric])
qed

subsection \<open>The counting invariant\<close>

text \<open>
  While fewer than \<open>MAXQ\<close> threads wait, a negative count is the number of threads in the queue.
\<close>

definition sem_inv :: "semaphore \<Rightarrow> bool" where
  "sem_inv e \<longleftrightarrow> queue_ok (sem_queue e) \<and> length (queue_list (sem_queue e)) = nat (- sem_count e)"

lemma sem_inv_wait:
  assumes "sem_inv e" "- int MAXQ < sem_count e"
  shows "sem_inv (wait_sem p e)"
    "queue_list (sem_queue (wait_sem p e)) =
       (if sem_count e \<le> 0 then queue_list (sem_queue e) @ [p] else queue_list (sem_queue e))"
  using assms push_back_refines [of "sem_queue e" p] by (auto simp: sem_inv_def wait_sem_def)

lemma sem_inv_signal:
  assumes "sem_inv e"
  shows "sem_inv (signal_sem e)"
    "queue_list (sem_queue (signal_sem e)) = tl (queue_list (sem_queue e))"
    "fst (pop_front (sem_queue e)) =
       (case queue_list (sem_queue e) of [] \<Rightarrow> None | p # ps \<Rightarrow> Some p)"
proof -
  have q: "queue_ok (sem_queue e)"
    using assms by (simp add: sem_inv_def)
  have 1: "queue_ok (snd (pop_front (sem_queue e)))
      \<and> queue_list (snd (pop_front (sem_queue e))) = tl (queue_list (sem_queue e))"
  proof (cases "queue_list (sem_queue e)")
    case Nil
    then show ?thesis
      using sq.pop_empty [OF q] q by simp
  next
    case (Cons p ps)
    then show ?thesis
      using pop_front_refines [OF q] by simp
  qed
  then show 2: "queue_list (sem_queue (signal_sem e)) = tl (queue_list (sem_queue e))"
    by (simp add: signal_sem_def)
  have "length (queue_list (snd (pop_front (sem_queue e)))) = nat (- (sem_count e + 1))"
    using 1 assms by (simp add: sem_inv_def)
  then show "sem_inv (signal_sem e)"
    using 1 by (simp add: sem_inv_def signal_sem_def)
  show "fst (pop_front (sem_queue e)) = (case queue_list (sem_queue e) of [] \<Rightarrow> None | p # ps \<Rightarrow> Some p)"
    using sq.pop_empty [OF q] pop_front_refines(2) [OF q] by (auto split: list.splits)
qed

subsection \<open>Histories of calls\<close>

text \<open>
  Threads calling the system calls on one semaphore, one after the other, each entered on a processor
  that holds nothing. \<open>inside\<close> collects the threads that got past their wait: those whose call returned
  and those a signal made runnable again.
\<close>

datatype sem_op = Wait nat | Signal nat

definition on_cpu :: "nat \<Rightarrow> 'x kproc_scheme \<Rightarrow> 'x kproc_scheme" where
  "on_cpu p s =
     set_mach (boot_machine\<lparr>cpus := (\<lambda>_. boot_cpu\<lparr>intena := True, cpu_proc := Some p\<rparr>), fl_if := True\<rparr>) s"

definition woken :: "'x kproc_scheme \<Rightarrow> 'x kproc_scheme \<Rightarrow> nat list" where
  "woken s t =
     filter (\<lambda>p. pstate (procs s p) = SEM_SLEEPING \<and> pstate (procs t p) = RUNNABLE) [0..<NPROC]"

fun sem_calls :: "nat \<Rightarrow> sem_op list \<Rightarrow> 'x kproc_scheme \<Rightarrow> nat list \<Rightarrow> ('x kproc_scheme \<times> nat list) option"
where
  "sem_calls i [] s inside = Some (s, inside)"
| "sem_calls i (Wait p # ops) s inside =
     (case sys_sem_wait (Some (int i)) (on_cpu p s) of
        Ret r t \<Rightarrow> sem_calls i ops t (inside @ [p])
      | Switch t \<Rightarrow> sem_calls i ops t inside
      | _ \<Rightarrow> None)"
| "sem_calls i (Signal p # ops) s inside =
     (case sys_sem_signal (Some (int i)) (on_cpu p s) of
        Ret r t \<Rightarrow> sem_calls i ops t (inside @ woken s t)
      | _ \<Rightarrow> None)"

text \<open>The threads of a history in the order of their waits, and whether the queue never overflows.\<close>

fun waits :: "sem_op list \<Rightarrow> nat list" where
  "waits [] = []"
| "waits (Wait p # ops) = p # waits ops"
| "waits (Signal p # ops) = waits ops"

fun signals :: "sem_op list \<Rightarrow> nat" where
  "signals [] = 0"
| "signals (Wait p # ops) = signals ops"
| "signals (Signal p # ops) = Suc (signals ops)"

fun room :: "int \<Rightarrow> sem_op list \<Rightarrow> bool" where
  "room c [] = True"
| "room c (Wait p # ops) = (- int MAXQ < c \<and> room (c - 1) ops)"
| "room c (Signal p # ops) = room (c + 1) ops"

lemma runs_on_cpu [simp]: "runs (mach (on_cpu p s)) p" "lock_free l (mach (on_cpu p s))"
proof -
  let ?m = "boot_machine\<lparr>cpus := (\<lambda>_. boot_cpu\<lparr>intena := True, cpu_proc := Some p\<rparr>), fl_if := True\<rparr>"
  have c: "cpu_index ?m = Some 0"
    by (simp add: cpu_index_def boot_machine_def boot_cpu_def)
  then have t: "this_cpu ?m = 0"
    by (simp add: this_cpu_def)
  show "lock_free l (mach (on_cpu p s))" for l
    by (simp add: on_cpu_def lock_free_def boot_machine_def)
  then show "runs (mach (on_cpu p s)) p"
    using c t by (simp add: runs_def on_cpu_def running_def steady_alt boot_cpu_def)
qed

lemma on_cpu_sel [simp]: "procs (on_cpu p s) = procs s" "sems (on_cpu p s) = sems s"
  by (simp_all add: on_cpu_def)

text \<open>The threads asleep in semaphores are those in the queue of semaphore \<open>i\<close>.\<close>

definition sleepers :: "nat \<Rightarrow> 'x kproc_scheme \<Rightarrow> bool" where
  "sleepers i s \<longleftrightarrow>
     distinct (queue_list (sem_queue (sems s i)))
     \<and> (\<forall>p. pstate (procs s p) = SEM_SLEEPING \<longleftrightarrow> p \<in> set (queue_list (sem_queue (sems s i))))
     \<and> (\<forall>p \<in> set (queue_list (sem_queue (sems s i))). p < NPROC)"

lemma filter_upt_eq: "filter (\<lambda>q. q = p) [0..<n] = (if p < n then [p] else [])"
  by (induction n) auto

lemma woken_one:
  assumes "sleepers i s" "queue_list (sem_queue (sems s i)) = p # ps"
    and "procs t = (procs s)(p := (procs s p)\<lparr>pstate := RUNNABLE\<rparr>)"
  shows "woken s t = [p]"
proof -
  have "p < NPROC" "pstate (procs s p) = SEM_SLEEPING"
    using assms(1,2) by (simp_all add: sleepers_def)
  moreover have "woken s t = filter (\<lambda>q. q = p) [0..<NPROC]"
    unfolding woken_def using assms calculation by (intro filter_cong) auto
  ultimately show ?thesis
    by (simp add: filter_upt_eq)
qed

lemma wait_call:
  assumes "i < KT_TABLESIZE" "sem_state (sems s i) \<noteq> UNUSED" "sem_inv (sems s i)" "sleepers i s"
    and "- int MAXQ < sem_count (sems s i)" "p \<notin> set (queue_list (sem_queue (sems s i)))" "p < NPROC"
  shows "\<exists>t. sys_sem_wait (Some (int i)) (on_cpu p s) =
      (if 0 < sem_count (sems s i) then Ret 0 t else Switch t)
    \<and> sems t = (sems s)(i := wait_sem p (sems s i)) \<and> sleepers i t"
proof -
  have us: "sem_usable i (on_cpu p s)"
    using assms by (simp add: sem_usable_def)
  note q = sem_inv_wait(2) [OF assms(3,5), of p]
  show ?thesis
  proof (cases "0 < sem_count (sems s i)")
    case True
    have "sleepers i (upd_sem i (wait_sem p) (on_cpu p s))"
      using assms(4) q True by (simp add: sleepers_def)
    then show ?thesis
      using sys_sem_wait_enters [OF runs_on_cpu(1) us] True by auto
  next
    case False
    have t: "sems (sem_slept p i (on_cpu p s)) = (sems s)(i := wait_sem p (sems s i))"
        "procs (sem_slept p i (on_cpu p s)) = (procs s)(p := (procs s p)\<lparr>pstate := SEM_SLEEPING\<rparr>)"
      by (simp_all add: sem_slept_def)
    then have "sleepers i (sem_slept p i (on_cpu p s))"
      using assms(4,6,7) q False by (auto simp: sleepers_def)
    then show ?thesis
      using sys_sem_wait_blocks [OF runs_on_cpu(1) us] False t by auto
  qed
qed

lemma signal_call:
  assumes "i < KT_TABLESIZE" "sem_state (sems s i) \<noteq> UNUSED" "sem_inv (sems s i)" "sleepers i s"
  shows "\<exists>t. sys_sem_signal (Some (int i)) (on_cpu p s) = Ret 0 t
    \<and> sems t = (sems s)(i := signal_sem (sems s i)) \<and> sleepers i t
    \<and> woken s t = take 1 (queue_list (sem_queue (sems s i)))"
proof -
  let ?e = "sems s i"
  let ?t = "wake_first (fst (pop_front (sem_queue ?e))) (upd_sem i signal_sem (on_cpu p s))"
  have us: "sem_usable i (on_cpu p s)"
    using assms by (simp add: sem_usable_def)
  have sig: "sys_sem_signal (Some (int i)) (on_cpu p s) = Ret 0 ?t"
    using sys_sem_signal_wakes [OF runs_on_cpu(1) us] by simp
  note inv = sem_inv_signal [OF assms(3)]
  have "sleepers i ?t \<and> woken s ?t = take 1 (queue_list (sem_queue ?e))"
  proof (cases "queue_list (sem_queue ?e)")
    case Nil
    then have t: "?t = upd_sem i signal_sem (on_cpu p s)"
      using inv(3) by (simp add: wake_first_def)
    show ?thesis
      using assms(4) inv(2) Nil by (auto simp: sleepers_def t woken_def filter_empty_conv)
  next
    case (Cons w ws)
    have t: "?t = upd_proc w (\<lambda>q. q\<lparr>pstate := RUNNABLE\<rparr>) (upd_sem i signal_sem (on_cpu p s))"
      using inv(3) Cons by (simp add: wake_first_def)
    have "woken s ?t = [w]"
      using assms(4) Cons by (intro woken_one) (simp_all add: t)
    then show ?thesis
      using assms(4) inv(2) Cons by (auto simp: sleepers_def t)
  qed
  then show ?thesis
    using sig by auto
qed

lemma sem_calls_fifo:
  assumes "i < KT_TABLESIZE" "sem_state (sems s i) \<noteq> UNUSED" "sem_inv (sems s i)" "sleepers i s"
    and "room (sem_count (sems s i)) ops" "distinct (queue_list (sem_queue (sems s i)) @ waits ops)"
    and "\<forall>p \<in> set (waits ops). p < NPROC"
  shows "\<exists>t inside'. sem_calls i ops s inside = Some (t, inside')
    \<and> inside' @ queue_list (sem_queue (sems t i)) = inside @ queue_list (sem_queue (sems s i)) @ waits ops
    \<and> sem_inv (sems t i)
    \<and> sem_count (sems t i) = sem_count (sems s i) + int (signals ops) - int (length (waits ops))"
  using assms(2-)
proof (induction ops arbitrary: s inside)
  case (Cons op ops)
  show ?case
  proof (cases op)
    case (Wait p)
    obtain t where t: "sys_sem_wait (Some (int i)) (on_cpu p s) =
          (if 0 < sem_count (sems s i) then Ret 0 t else Switch t)"
        "sems t = (sems s)(i := wait_sem p (sems s i))" "sleepers i t"
      using wait_call [OF assms(1), of s p] Cons.prems Wait by auto
    note inv = sem_inv_wait [OF Cons.prems(2), of p]
    have c: "sem_count (wait_sem p (sems s i)) = sem_count (sems s i) - 1"
        "sem_state (wait_sem p (sems s i)) = sem_state (sems s i)"
      by (simp_all add: wait_sem_def)
    have e: "queue_list (sem_queue (sems s i)) = []" if "0 < sem_count (sems s i)"
      using Cons.prems(2) that by (simp add: sem_inv_def flip: length_0_conv)
    show ?thesis
      using Cons.IH [of t "if 0 < sem_count (sems s i) then inside @ [p] else inside"] Cons.prems Wait t
        inv c e
      by (cases "0 < sem_count (sems s i)") auto
  next
    case (Signal p)
    obtain t where t: "sys_sem_signal (Some (int i)) (on_cpu p s) = Ret 0 t"
        "sems t = (sems s)(i := signal_sem (sems s i))" "sleepers i t"
        "woken s t = take 1 (queue_list (sem_queue (sems s i)))"
      using signal_call [OF assms(1), of s p] Cons.prems by auto
    have c: "sem_count (signal_sem (sems s i)) = sem_count (sems s i) + 1"
        "sem_state (signal_sem (sems s i)) = sem_state (sems s i)"
      by (simp_all add: signal_sem_def)
    show ?thesis
      using Cons.IH [of t "inside @ woken s t"] Cons.prems Signal t c sem_inv_signal [OF Cons.prems(2)]
      by (cases "queue_list (sem_queue (sems s i))") auto
  qed
qed simp

subsection \<open>Properties\<close>

lemma sem_init_fields:
  "sems (sem_init i n s) = (sems s)(i := (sems s i)\<lparr>sem_count := n, sem_state := EMBRYO,
     sem_queue := fold (\<lambda>k q. q\<lparr>que_q := (que_q q)(k := None)\<rparr>) [0..<MAXQ]
       ((sem_queue (sems s i))\<lparr>que_count := 0, que_front := 0, que_back := -1\<rparr>)\<rparr>)"
  "procs (sem_init i n s) = procs s"
  by (simp_all add: sem_init_def initlock_def upd_lock_def upd_sem_def Let_def)

lemma fold_clear:
  "que_count (fold (\<lambda>k q. q\<lparr>que_q := (que_q q)(k := None)\<rparr>) ks q) = que_count q"
  "que_front (fold (\<lambda>k q. q\<lparr>que_q := (que_q q)(k := None)\<rparr>) ks q) = que_front q"
  "que_back (fold (\<lambda>k q. q\<lparr>que_q := (que_q q)(k := None)\<rparr>) ks q) = que_back q"
  by (induction ks arbitrary: q) simp_all

lemma sem_init_inv:
  assumes "0 \<le> n"
  shows "sem_inv (sems (sem_init i n s) i)" "queue_list (sem_queue (sems (sem_init i n s) i)) = []"
    "sem_count (sems (sem_init i n s) i) = n" "sem_state (sems (sem_init i n s) i) = EMBRYO"
proof -
  let ?q = "sem_queue (sems (sem_init i n s) i)"
  have q: "que_count ?q = 0" "que_front ?q = 0" "que_back ?q = -1"
    by (simp_all only: sem_init_fields fun_upd_same semaphore.select_convs semaphore.update_convs
        semaphore.surjective fold_clear) (simp_all add: fold_clear)
  then show l: "queue_list ?q = []"
    by (simp add: queue_list_def)
  show c: "sem_count (sems (sem_init i n s) i) = n" "sem_state (sems (sem_init i n s) i) = EMBRYO"
    by (simp_all add: sem_init_fields)
  show "sem_inv (sems (sem_init i n s) i)"
    using q l c assms by (simp add: sem_inv_def queue_ok_def)
qed



text \<open>C17 (proc.c \<^verbatim>\<open>sem_sleep\<close>, sysproc.c \<^verbatim>\<open>sys_sem_wait\<close>): a wait on a semaphore whose count is not positive
  reaches \<^verbatim>\<open>sched\<close> without a panic, since the \<^verbatim>\<open>popcli\<close> of \<^verbatim>\<open>sem_sleep\<close> undoes the system call's own
  \<^verbatim>\<open>pushcli\<close>: only \<^verbatim>\<open>ptable.lock\<close> is held and the nesting depth is 1. When the thread is resumed the call
  returns 0 with the thread's interrupt flag restored.\<close>

theorem sem_wait_blocks_and_resumes:
  assumes "runs (mach s) p" "sem_usable i s" "sem_count (sems s i) \<le> 0"
  shows "\<exists>t. sys_sem_wait (Some (int i)) s = Switch t
    \<and> mach t = enter Lk_ptable (mach s) \<and> ncli (cpus t (this_cpu (mach s))) = 1
    \<and> pstate (procs t p) = SEM_SLEEPING \<and> sem_count (sems t i) = sem_count (sems s i) - 1
    \<and> (\<forall>u m. mach u = enter Lk_ptable m \<and> runs m p \<and> lock_free (Lk_sem i) m
           \<and> kstk_intena u p = kstk_intena t p \<longrightarrow>
         returns (sys_sem_wait_resume p i u)
           (\<lambda>r v. r = 0 \<and> mach v = resumed (fl_if s) m \<and> procs v = procs u \<and> sems v = sems u))"
proof -
  have n: "ncli (cpus (enter Lk_ptable (mach s)) (this_cpu (mach s))) = 1"
    using assms(1) ncli_enter [of Lk_ptable "mach s"] by (simp add: runs_def)
  have t: "mach (sem_slept p i s) = enter Lk_ptable (mach s)"
      "pstate (procs (sem_slept p i s) p) = SEM_SLEEPING"
      "sem_count (sems (sem_slept p i s) i) = sem_count (sems s i) - 1"
      "kstk_intena (sem_slept p i s) p = fl_if s"
    using assms(3) by (simp_all add: sem_slept_def wait_sem_def)
  then show ?thesis
    using sys_sem_wait_blocks [OF assms] n mach_eqD(1) [OF t(1)]
    by (auto simp: sys_sem_wait_resumes)
qed

definition sem_state0 :: kproc where
  "sem_state0 = upd_sem 3 (\<lambda>e. e\<lparr>sem_state := EMBRYO\<rparr>) proc0"

theorem sem_wait_blocks_and_resumes_witness:
  "\<exists>t. sys_sem_wait (Some 3) sem_state0 = Switch t \<and> pstate (procs t 0) = SEM_SLEEPING"
  using sem_wait_blocks_and_resumes [of sem_state0 0 3]
  by (auto simp: sem_state0_def sem_usable_def no_sem_def)



lemma signals_keep_asleep:
  assumes "i < KT_TABLESIZE" "sem_state (sems s i) \<noteq> UNUSED" "queue_ok (sem_queue (sems s i))"
    and "p \<notin> set (queue_list (sem_queue (sems s i)))" "pstate (procs s p) = SEM_SLEEPING"
  shows "returns (times n (\<lambda>s. seq (sys_sem_signal (Some (int i)) (on_cpu q s)) (\<lambda>_ s. Ret () s)) s)
    (\<lambda>_ t. pstate (procs t p) = SEM_SLEEPING)"
  using assms(2-)
proof (induction n arbitrary: s)
  case (Suc n)
  let ?q = "sem_queue (sems s i)"
  let ?t = "wake_first (fst (pop_front ?q)) (upd_sem i signal_sem (on_cpu q s))"
  have us: "sem_usable i (on_cpu q s)"
    using assms(1) Suc.prems by (simp add: sem_usable_def)
  have sig: "sys_sem_signal (Some (int i)) (on_cpu q s) = Ret 0 ?t"
    using sys_sem_signal_wakes [OF runs_on_cpu(1) us] by simp
  have pop: "queue_ok (snd (pop_front ?q))
      \<and> set (queue_list (snd (pop_front ?q))) \<subseteq> set (queue_list ?q) \<and> fst (pop_front ?q) \<noteq> Some p"
  proof (cases "queue_list ?q")
    case Nil
    then show ?thesis
      using sq.pop_empty [OF Suc.prems(2)] Suc.prems(2) by simp
  next
    case (Cons w ws)
    then show ?thesis
      using pop_front_refines [OF Suc.prems(2)] Suc.prems(3) by auto
  qed
  have "procs ?t p = procs s p"
    using pop by (auto simp: wake_first_def split: option.splits)
  then have "returns (times n (\<lambda>s. seq (sys_sem_signal (Some (int i)) (on_cpu q s)) (\<lambda>_ s. Ret () s)) ?t)
      (\<lambda>_ t. pstate (procs t p) = SEM_SLEEPING)"
    using Suc.prems pop by (intro Suc.IH) (auto simp: signal_sem_def)
  then show ?case
    by (simp add: sig)
qed simp

text \<open>C19 (proc.c \<^verbatim>\<open>push_back\<close>, \<^verbatim>\<open>sem_sleep\<close>): a thread that waits while \<open>MAXQ\<close> others wait is lost. \<^verbatim>\<open>push_back\<close>
  drops it because the queue is full, the thread sleeps all the same, and no number of signals ever
  makes it runnable.\<close>

theorem sem_wait_on_full_queue_is_lost:
  assumes "runs (mach s) p" "sem_usable i s" "sem_inv (sems s i)" "sem_count (sems s i) = - int MAXQ"
    and "p \<notin> set (queue_list (sem_queue (sems s i)))"
  shows "\<exists>t. sys_sem_wait (Some (int i)) s = Switch t
    \<and> returns (times n (\<lambda>s. seq (sys_sem_signal (Some (int i)) (on_cpu q s)) (\<lambda>_ s. Ret () s)) t)
        (\<lambda>_ u. pstate (procs u p) = SEM_SLEEPING)"
proof -
  let ?t = "sem_slept p i s"
  have q: "queue_ok (sem_queue (sems s i))" "length (queue_list (sem_queue (sems s i))) = MAXQ"
    using assms(3,4) by (simp_all add: sem_inv_def)
  have "queue_list (push_back (Some p) (sem_queue (sems s i))) = queue_list (sem_queue (sems s i))"
    using push_back_refines(2) [OF q(1)] q(2) by simp
  then have "returns (times n (\<lambda>s. seq (sys_sem_signal (Some (int i)) (on_cpu q s)) (\<lambda>_ s. Ret () s)) ?t)
        (\<lambda>_ u. pstate (procs u p) = SEM_SLEEPING)"
    using assms q push_back_refines(1) [OF q(1)]
    by (intro signals_keep_asleep) (simp_all add: sem_usable_def sem_slept_def wait_sem_def)
  then show ?thesis
    using sys_sem_wait_blocks [OF assms(1,2)] assms(4) by simp
qed

definition full_sem :: semaphore where
  "full_sem = \<lparr>sem_queue = \<lparr>que_q = \<lambda>k. Some (k + 10), que_front = 0, que_back = 6, que_count = 7\<rparr>,
     sem_count = -7, sem_state = EMBRYO\<rparr>"

theorem sem_wait_on_full_queue_is_lost_witness:
  "\<exists>t. sys_sem_wait (Some 3) (upd_sem 3 (\<lambda>_. full_sem) proc0) = Switch t
    \<and> returns (times 20 (\<lambda>s. seq (sys_sem_signal (Some 3) (on_cpu 5 s)) (\<lambda>_ s. Ret () s)) t)
        (\<lambda>_ u. pstate (procs u 0) = SEM_SLEEPING)"
proof -
  have "sem_inv full_sem" "0 \<notin> set (queue_list (sem_queue full_sem))"
    by (auto simp: sem_inv_def full_sem_def queue_ok_def queue_list_def)
  then show ?thesis
    using sem_wait_on_full_queue_is_lost [of "upd_sem 3 (\<lambda>_. full_sem) proc0" 0 3 20 5]
    by (simp add: sem_usable_def full_sem_def)
qed

text \<open>C20 (sysproc.c \<^verbatim>\<open>sys_sem_wait\<close>, \<^verbatim>\<open>sys_sem_initialize\<close>): the argument checks of the semaphore calls do
  not do their work. An index from \<open>KT_TABLESIZE\<close> up to \<open>NPROC - 1\<close> passes the test and leaves the table,
  and no initial count is ever refused.\<close>

theorem sem_call_checks_are_too_weak:
  assumes "steady (mach s)"
  shows "(\<forall>index. int KT_TABLESIZE \<le> index \<and> index < int NPROC \<longrightarrow>
      sys_sem_wait (Some index) s = Fault ''semtable.sem[index]'')
    \<and> (\<forall>n. sys_sem_initialize (Some n) s = sem_initialize n s)"
  using assms
  by (auto simp: sys_sem_wait_def sem_wait_def sem_ref_def pushcli_steady sys_sem_initialize_def)

theorem sem_call_checks_are_too_weak_witness:
  "sys_sem_wait (Some 100) proc0 = Fault ''semtable.sem[index]''"
  using sem_call_checks_are_too_weak [of proc0] by simp

end
