(* ===== verification/Sysproc.thy ===== *)
theory Sysproc
  imports Syscall Semaphore
begin

section \<open>System calls on processes (sysproc.c)\<close>

text \<open>
  The calls fetch their arguments from the user stack and call the functions of proc.c. A process asleep in
  \<^verbatim>\<open>sys_sleep\<close> goes on with \<open>sys_sleep_resume\<close>. The semaphore calls of \<open>Semaphore\<close> take the fetched argument.
\<close>

definition sys_fork :: "'x kfile_scheme \<Rightarrow> (int, 'x kfile_scheme) outcome" where
  "sys_fork s = fork s"

definition sys_exit :: "'x kfile_scheme \<Rightarrow> (int, 'x kfile_scheme) outcome" where
  "sys_exit s = seq (exit s) (\<lambda>_ s. Ret 0 s)"

definition sys_wait :: "'x kproc_scheme \<Rightarrow> (int, 'x kproc_scheme) outcome" where
  "sys_wait s = wait s"

definition sys_kt_join :: "'x kproc_scheme \<Rightarrow> (int, 'x kproc_scheme) outcome" where
  "sys_kt_join s = KT_Join s"

definition sys_kill :: "'x kproc_scheme \<Rightarrow> (int, 'x kproc_scheme) outcome" where
  "sys_kill s = seq (argint 0 s) (\<lambda>a s. case a of None \<Rightarrow> Ret (-1) s | Some n \<Rightarrow> kill n s)"

definition sys_getpid :: "'x kproc_scheme \<Rightarrow> (int, 'x kproc_scheme) outcome" where
  "sys_getpid s = seq (curproc s) (\<lambda>p s. Ret (pid (procs s p)) s)"

definition sys_sbrk :: "'x kproc_scheme \<Rightarrow> (int, 'x kproc_scheme) outcome" where
  "sys_sbrk s =
     seq (argint 0 s) (\<lambda>a s.
     case a of
       None \<Rightarrow> Ret (-1) s
     | Some n \<Rightarrow>
         seq (curproc s) (\<lambda>p s.
         let old = sint (sz (procs s p)) in
         seq (growproc n s) (\<lambda>r s. if r < 0 then Ret (-1) s else Ret old s)))"

text \<open>\<^verbatim>\<open>ticks - ticks0 < n\<close> compares unsigned numbers.\<close>

definition sys_sleep_loop :: "int \<Rightarrow> u32 \<Rightarrow> 'x kproc_scheme \<Rightarrow> (int, 'x kproc_scheme) outcome" where
  "sys_sleep_loop n ticks0 s =
     (if ticks s - ticks0 < word_of_int n
      then seq (curproc s) (\<lambda>p s.
           if killed (procs s p) then seq (release Lk_ticks s) (\<lambda>_ s. Ret (-1) s)
           else seq (sleep (Some Ch_ticks) (Some Lk_ticks) s) (\<lambda>_ s. Ret (-1) s))
      else seq (release Lk_ticks s) (\<lambda>_ s. Ret 0 s))"

definition sys_sleep :: "'x kproc_scheme \<Rightarrow> (int, 'x kproc_scheme) outcome" where
  "sys_sleep s =
     seq (argint 0 s) (\<lambda>a s.
     case a of
       None \<Rightarrow> Ret (-1) s
     | Some n \<Rightarrow> seq (acquire Lk_ticks s) (\<lambda>_ s. sys_sleep_loop n (ticks s) s))"

definition sys_sleep_resume :: "nat \<Rightarrow> int \<Rightarrow> u32 \<Rightarrow> 'x kproc_scheme \<Rightarrow> (int, 'x kproc_scheme) outcome" where
  "sys_sleep_resume p n ticks0 s = seq (sleep_resume p Lk_ticks s) (\<lambda>_ s. sys_sleep_loop n ticks0 s)"

definition sys_uptime :: "'x kproc_scheme \<Rightarrow> (int, 'x kproc_scheme) outcome" where
  "sys_uptime s =
     seq (acquire Lk_ticks s) (\<lambda>_ s.
     let xticks = ticks s in
     seq (release Lk_ticks s) (\<lambda>_ s. Ret (sint xticks) s))"

definition sys_kt_create :: "'x kfile_scheme \<Rightarrow> (int, 'x kfile_scheme) outcome" where
  "sys_kt_create s =
     seq (argptr 0 4 s) (\<lambda>fnc s.
     case fnc of
       None \<Rightarrow> Ret (-1) s
     | Some fnc \<Rightarrow>
         seq (argptr 1 0 s) (\<lambda>arg s.
         case arg of None \<Rightarrow> Ret (-1) s | Some arg \<Rightarrow> KT_Create fnc arg s))"

text \<open>
  The three results are stored in the order of \<^verbatim>\<open>retrieve_process_statistics\<close>, which reads the elapsed time back
  from the caller's memory for the last one.
\<close>

definition sys_retrieve_process_statistics :: "'x kproc_scheme \<Rightarrow> (int, 'x kproc_scheme) outcome" where
  "sys_retrieve_process_statistics s =
     seq (argptr 0 4 s) (\<lambda>a0 s. case a0 of None \<Rightarrow> Ret (-1) s | Some elapsed \<Rightarrow>
     seq (argptr 1 4 s) (\<lambda>a1 s. case a1 of None \<Rightarrow> Ret (-1) s | Some runtime \<Rightarrow>
     seq (argptr 2 4 s) (\<lambda>a2 s. case a2 of None \<Rightarrow> Ret (-1) s | Some waiting \<Rightarrow>
     seq (retrieve_process_statistics s) (\<lambda>r s.
     case r of
       None \<Rightarrow> Ret (-1) s
     | Some (e, _, w) \<Rightarrow>
         seq (user_put (word_bytes [e]) elapsed s) (\<lambda>_ s.
         seq (user_put (word_bytes [w]) waiting s) (\<lambda>_ s.
         seq (user_get 4 elapsed s) (\<lambda>bs s.
         seq (user_put (word_bytes [get32 bs 0 - w]) runtime s) (\<lambda>_ s. Ret 0 s))))))))"

end
