(* ===== verification/Sysfile.thy ===== *)
theory Sysfile
  imports Syscall
begin

section \<open>System calls on files (sysfile.c)\<close>

text \<open>
  Every call of sysfile.c, with its arguments fetched from the user stack. \<open>stk\<close> is what the uninitialised local
  arrays for names hold. A path is the bytes of the string the argument points to; the bytes to be written are fetched
  from the caller's buffer when the file is writable, before the file is touched.
\<close>

abbreviation (input) O_WRONLY :: u32 where "O_WRONLY \<equiv> 1"
abbreviation (input) O_RDWR :: u32 where "O_RDWR \<equiv> 2"
abbreviation (input) O_CREATE :: u32 where "O_CREATE \<equiv> 0x200"

subsection \<open>Descriptors\<close>

definition argfd :: "nat \<Rightarrow> 'x kproc_scheme \<Rightarrow> ((nat \<times> nat) option, 'x kproc_scheme) outcome" where
  "argfd n s =
     seq (argint n s) (\<lambda>a s.
     case a of
       None \<Rightarrow> Ret None s
     | Some fd \<Rightarrow>
         if fd < 0 \<or> fd \<ge> int NOFILE then Ret None s
         else seq (curproc s) (\<lambda>p s. Ret (map_option (\<lambda>f. (nat fd, f)) (ofile (procs s p) (nat fd))) s))"

definition set_fd :: "nat \<Rightarrow> nat option \<Rightarrow> 'x kproc_scheme \<Rightarrow> (unit, 'x kproc_scheme) outcome" where
  "set_fd fd f s = seq (curproc s) (\<lambda>p s. Ret () (upd_proc p (\<lambda>q. q\<lparr>ofile := (ofile q)(fd := f)\<rparr>) s))"

definition fdalloc :: "nat \<Rightarrow> 'x kproc_scheme \<Rightarrow> (nat option, 'x kproc_scheme) outcome" where
  "fdalloc f s =
     seq (curproc s) (\<lambda>p s.
     case find (\<lambda>fd. ofile (procs s p) fd = None) [0..<NOFILE] of
       Some fd \<Rightarrow> Ret (Some fd) (upd_proc p (\<lambda>q. q\<lparr>ofile := (ofile q)(fd := Some f)\<rparr>) s)
     | None \<Rightarrow> Ret None s)"

definition sys_dup :: "'x kfile_scheme \<Rightarrow> (int, 'x kfile_scheme) outcome" where
  "sys_dup s =
     seq (argfd 0 s) (\<lambda>a s.
     case a of
       None \<Rightarrow> Ret (-1) s
     | Some (_, f) \<Rightarrow>
         seq (fdalloc f s) (\<lambda>r s.
         case r of
           None \<Rightarrow> Ret (-1) s
         | Some fd \<Rightarrow> seq (filedup f s) (\<lambda>_ s. Ret (int fd) s)))"

text \<open>The arguments of \<^verbatim>\<open>read\<close> and \<^verbatim>\<open>write\<close>: the file, the buffer and its length.\<close>

definition arg_rw :: "'x kproc_scheme \<Rightarrow> ((nat \<times> addr \<times> int) option, 'x kproc_scheme) outcome" where
  "arg_rw s =
     seq (argfd 0 s) (\<lambda>a s. case a of None \<Rightarrow> Ret None s | Some (_, f) \<Rightarrow>
     seq (argint 2 s) (\<lambda>b s. case b of None \<Rightarrow> Ret None s | Some n \<Rightarrow>
     seq (argptr 1 n s) (\<lambda>c s. Ret (map_option (\<lambda>p. (f, p, n)) c) s)))"

definition sys_read :: "'x kfile_scheme \<Rightarrow> (int, 'x kfile_scheme) outcome" where
  "sys_read s =
     seq (arg_rw s) (\<lambda>a s.
     case a of
       None \<Rightarrow> Ret (-1) s
     | Some (f, p, n) \<Rightarrow>
         seq (fileread f n s) (\<lambda>(r, bs) s. seq (user_put bs p s) (\<lambda>_ s. Ret r s)))"

definition sys_write :: "'x kfile_scheme \<Rightarrow> (int, 'x kfile_scheme) outcome" where
  "sys_write s =
     seq (arg_rw s) (\<lambda>a s.
     case a of
       None \<Rightarrow> Ret (-1) s
     | Some (f, p, n) \<Rightarrow>
         seq (if f_writable (files s f) then user_get (nat n) p s else Ret [] s) (\<lambda>bs s.
         filewrite f bs n s))"

definition sys_close :: "'x kfile_scheme \<Rightarrow> (int, 'x kfile_scheme) outcome" where
  "sys_close s =
     seq (argfd 0 s) (\<lambda>a s.
     case a of
       None \<Rightarrow> Ret (-1) s
     | Some (fd, f) \<Rightarrow>
         seq (set_fd fd None s) (\<lambda>_ s.
         seq (fileclose f s) (\<lambda>_ s. Ret 0 s)))"

text \<open>\<^verbatim>\<open>struct stat\<close> in the caller's memory.\<close>

definition put_stat :: "addr \<Rightarrow> stat \<Rightarrow> 'x kvm_scheme \<Rightarrow> (unit, 'x kvm_scheme) outcome" where
  "put_stat a st s =
     seq (user_put (put32 (replicate 4 0) 0 (st_dev st)) (a + 4) s) (\<lambda>_ s.
     seq (user_put (put32 (replicate 4 0) 0 (st_ino st)) (a + 8) s) (\<lambda>_ s.
     seq (user_put (put16 (replicate 2 0) 0 (st_type st)) a s) (\<lambda>_ s.
     seq (user_put (put16 (replicate 2 0) 0 (st_nlink st)) (a + 12) s) (\<lambda>_ s.
     user_put (put32 (replicate 4 0) 0 (st_size st)) (a + 16) s))))"

definition sys_fstat :: "'x kfile_scheme \<Rightarrow> (int, 'x kfile_scheme) outcome" where
  "sys_fstat s =
     seq (argfd 0 s) (\<lambda>a s. case a of None \<Rightarrow> Ret (-1) s | Some (_, f) \<Rightarrow>
     seq (argptr 1 20 s) (\<lambda>b s. case b of None \<Rightarrow> Ret (-1) s | Some st \<Rightarrow>
     seq (filestat f s) (\<lambda>r s.
     case r of None \<Rightarrow> Ret (-1) s | Some x \<Rightarrow> seq (put_stat st x s) (\<lambda>_ s. Ret 0 s))))"

subsection \<open>Links\<close>

definition add_nlink :: "nat \<Rightarrow> u16 \<Rightarrow> 'x kfs_scheme \<Rightarrow> (unit, 'x kfs_scheme) outcome" where
  "add_nlink ip d s = iupdate ip (upd_inode ip (\<lambda>x. x\<lparr>i_nlink := i_nlink x + d\<rparr>) s)"

definition link_bad :: "nat \<Rightarrow> 'x kfs_scheme \<Rightarrow> (int, 'x kfs_scheme) outcome" where
  "link_bad ip s =
     seq (ilock ip s) (\<lambda>_ s.
     seq (add_nlink ip (-1) s) (\<lambda>_ s.
     seq (iunlockput ip s) (\<lambda>_ s.
     seq (end_op s) (\<lambda>_ s. Ret (-1) s))))"

definition link_inode :: "u8 list \<Rightarrow> u8 list \<Rightarrow> nat \<Rightarrow> 'x kcons_scheme \<Rightarrow> (int, 'x kcons_scheme) outcome" where
  "link_inode stk new ip s =
     seq (nameiparent new stk s) (\<lambda>r s.
     case r of
       None \<Rightarrow> link_bad ip s
     | Some (dp, name) \<Rightarrow>
         seq (ilock dp s) (\<lambda>_ s.
         seq (if i_dev (inodes s dp) \<noteq> i_dev (inodes s ip) then Ret (-1) s
              else dirlink dp name (i_inum (inodes s ip)) s) (\<lambda>r s.
         if r < 0 then seq (iunlockput dp s) (\<lambda>_ s. link_bad ip s)
         else seq (iunlockput dp s) (\<lambda>_ s.
              seq (iput ip s) (\<lambda>_ s.
              seq (end_op s) (\<lambda>_ s. Ret 0 s))))))"

definition sys_link :: "u8 list \<Rightarrow> 'x kfile_scheme \<Rightarrow> (int, 'x kfile_scheme) outcome" where
  "sys_link stk s =
     seq (argstr 0 s) (\<lambda>a s. case a of None \<Rightarrow> Ret (-1) s | Some old \<Rightarrow>
     seq (argstr 1 s) (\<lambda>b s. case b of None \<Rightarrow> Ret (-1) s | Some new \<Rightarrow>
     seq (begin_op s) (\<lambda>_ s.
     seq (namei stk old s) (\<lambda>r s.
     case r of
       None \<Rightarrow> seq (end_op s) (\<lambda>_ s. Ret (-1) s)
     | Some ip \<Rightarrow>
         seq (ilock ip s) (\<lambda>_ s.
         if i_type (inodes s ip) = T_DIR
         then seq (iunlockput ip s) (\<lambda>_ s. seq (end_op s) (\<lambda>_ s. Ret (-1) s))
         else seq (add_nlink ip 1 s) (\<lambda>_ s.
              seq (iunlock ip s) (\<lambda>_ s.
              link_inode stk new ip s)))))))"

text \<open>The offsets of the entries after the first two.\<close>

definition isdirempty :: "nat \<Rightarrow> 'x kcons_scheme \<Rightarrow> (bool, 'x kcons_scheme) outcome" where
  "isdirempty dp s =
     seq (for_until (drop 2 (dir_offsets (i_size (inodes s dp)))) (\<lambda>off s.
       seq (readi dp off 16 s) (\<lambda>(n, de) s.
       if n \<noteq> 16 then Panic ''isdirempty: readi''
       else if de_inum de \<noteq> 0 then Ret (Some ()) s else Ret None s)) s) (\<lambda>r s.
     Ret (r = None) s)"

definition unlink_bad :: "nat \<Rightarrow> 'x kfs_scheme \<Rightarrow> (int, 'x kfs_scheme) outcome" where
  "unlink_bad dp s = seq (iunlockput dp s) (\<lambda>_ s. seq (end_op s) (\<lambda>_ s. Ret (-1) s))"

definition unlink_entry :: "nat \<Rightarrow> nat \<Rightarrow> u32 \<Rightarrow> 'x kcons_scheme \<Rightarrow> (int, 'x kcons_scheme) outcome" where
  "unlink_entry dp ip off s =
     seq (ilock ip s) (\<lambda>_ s.
     if sint (i_nlink (inodes s ip)) < 1 then Panic ''unlink: nlink < 1''
     else seq (if i_type (inodes s ip) = T_DIR then isdirempty ip s else Ret True s) (\<lambda>e s.
     if \<not> e then seq (iunlockput ip s) (\<lambda>_ s. unlink_bad dp s)
     else seq (writei dp (replicate 16 0) off 16 s) (\<lambda>n s.
     if n \<noteq> 16 then Panic ''unlink: writei''
     else seq (whenb (i_type (inodes s ip) = T_DIR) (add_nlink dp (-1)) s) (\<lambda>_ s.
          seq (iunlockput dp s) (\<lambda>_ s.
          seq (add_nlink ip (-1) s) (\<lambda>_ s.
          seq (iunlockput ip s) (\<lambda>_ s.
          seq (end_op s) (\<lambda>_ s. Ret 0 s))))))))"

definition sys_unlink :: "u8 list \<Rightarrow> 'x kfile_scheme \<Rightarrow> (int, 'x kfile_scheme) outcome" where
  "sys_unlink stk s =
     seq (argstr 0 s) (\<lambda>a s. case a of None \<Rightarrow> Ret (-1) s | Some path \<Rightarrow>
     seq (begin_op s) (\<lambda>_ s.
     seq (nameiparent path stk s) (\<lambda>r s.
     case r of
       None \<Rightarrow> seq (end_op s) (\<lambda>_ s. Ret (-1) s)
     | Some (dp, name) \<Rightarrow>
         seq (ilock dp s) (\<lambda>_ s.
         if namecmp name [46] = 0 \<or> namecmp name [46, 46] = 0 then unlink_bad dp s
         else seq (dirlookup dp name s) (\<lambda>r s.
              case r of None \<Rightarrow> unlink_bad dp s | Some (ip, off) \<Rightarrow> unlink_entry dp ip off s)))))"

subsection \<open>Opening and creating\<close>

definition create_dots :: "nat \<Rightarrow> nat \<Rightarrow> 'x kcons_scheme \<Rightarrow> (unit, 'x kcons_scheme) outcome" where
  "create_dots dp ip s =
     seq (add_nlink dp 1 s) (\<lambda>_ s.
     seq (dirlink ip [46] (i_inum (inodes s ip)) s) (\<lambda>r s.
     if r < 0 then Panic ''create dots''
     else seq (dirlink ip [46, 46] (i_inum (inodes s dp)) s) (\<lambda>r s.
          if r < 0 then Panic ''create dots'' else Ret () s)))"

text \<open>The new inode is returned locked. \<^verbatim>\<open>ialloc\<close> does not return null: it panics when no inode is free.\<close>

definition create ::
    "u8 list \<Rightarrow> u8 list \<Rightarrow> u16 \<Rightarrow> u16 \<Rightarrow> u16 \<Rightarrow> 'x kcons_scheme \<Rightarrow> (nat option, 'x kcons_scheme) outcome" where
  "create stk path type major minor s =
     seq (nameiparent path stk s) (\<lambda>r s.
     case r of
       None \<Rightarrow> Ret None s
     | Some (dp, name) \<Rightarrow>
         seq (ilock dp s) (\<lambda>_ s.
         seq (dirlookup dp name s) (\<lambda>r s.
         case r of
           Some (ip, _) \<Rightarrow>
             seq (iunlockput dp s) (\<lambda>_ s.
             seq (ilock ip s) (\<lambda>_ s.
             if type = T_FILE \<and> i_type (inodes s ip) = T_FILE then Ret (Some ip) s
             else seq (iunlockput ip s) (\<lambda>_ s. Ret None s)))
         | None \<Rightarrow>
             seq (ialloc (i_dev (inodes s dp)) type s) (\<lambda>ip s.
             seq (ilock ip s) (\<lambda>_ s.
             let s = upd_inode ip (\<lambda>x. x\<lparr>i_major := major, i_minor := minor, i_nlink := 1\<rparr>) s in
             seq (iupdate ip s) (\<lambda>_ s.
             seq (whenb (type = T_DIR) (create_dots dp ip) s) (\<lambda>_ s.
             seq (dirlink dp name (i_inum (inodes s ip)) s) (\<lambda>r s.
             if r < 0 then Panic ''create: dirlink''
             else seq (iunlockput dp s) (\<lambda>_ s. Ret (Some ip) s)))))))))"

text \<open>The inode that \<^verbatim>\<open>sys_open\<close> opens, locked, or \<open>None\<close> when the call fails before a file is allocated.\<close>

definition open_inode :: "u8 list \<Rightarrow> u8 list \<Rightarrow> u32 \<Rightarrow> 'x kcons_scheme \<Rightarrow> (nat option, 'x kcons_scheme) outcome" where
  "open_inode stk path omode s =
     (if omode AND O_CREATE \<noteq> 0
      then seq (create stk path T_FILE 0 0 s) (\<lambda>r s.
           case r of None \<Rightarrow> seq (end_op s) (\<lambda>_ s. Ret None s) | Some ip \<Rightarrow> Ret (Some ip) s)
      else seq (namei stk path s) (\<lambda>r s.
           case r of
             None \<Rightarrow> seq (end_op s) (\<lambda>_ s. Ret None s)
           | Some ip \<Rightarrow>
               seq (ilock ip s) (\<lambda>_ s.
               if i_type (inodes s ip) = T_DIR \<and> omode \<noteq> 0
               then seq (iunlockput ip s) (\<lambda>_ s. seq (end_op s) (\<lambda>_ s. Ret None s))
               else Ret (Some ip) s)))"

definition open_file :: "nat \<Rightarrow> u32 \<Rightarrow> nat \<Rightarrow> file_t \<Rightarrow> file_t" where
  "open_file ip omode f x =
     x\<lparr>f_type := FD_INODE, f_ip := Some ip, f_off := 0, f_readable := (omode AND O_WRONLY = 0),
       f_writable := (omode AND O_WRONLY \<noteq> 0 \<or> omode AND O_RDWR \<noteq> 0)\<rparr>"

definition sys_open :: "u8 list \<Rightarrow> 'x kfile_scheme \<Rightarrow> (int, 'x kfile_scheme) outcome" where
  "sys_open stk s =
     seq (argstr 0 s) (\<lambda>a s. case a of None \<Rightarrow> Ret (-1) s | Some path \<Rightarrow>
     seq (argint 1 s) (\<lambda>b s. case b of None \<Rightarrow> Ret (-1) s | Some omode \<Rightarrow>
     let omode = word_of_int omode in
     seq (begin_op s) (\<lambda>_ s.
     seq (open_inode stk path omode s) (\<lambda>r s.
     case r of
       None \<Rightarrow> Ret (-1) s
     | Some ip \<Rightarrow>
         seq (filealloc s) (\<lambda>fo s.
         seq (case fo of None \<Rightarrow> Ret None s | Some f \<Rightarrow> fdalloc f s) (\<lambda>fd s.
         case fd of
           None \<Rightarrow>
             seq (case fo of None \<Rightarrow> Ret () s | Some f \<Rightarrow> fileclose f s) (\<lambda>_ s.
             seq (iunlockput ip s) (\<lambda>_ s.
             seq (end_op s) (\<lambda>_ s. Ret (-1) s)))
         | Some fd \<Rightarrow>
             seq (iunlock ip s) (\<lambda>_ s.
             seq (end_op s) (\<lambda>_ s.
             seq (deref ''f'' fo s) (\<lambda>f s.
             Ret (int fd) (upd_file f (open_file ip omode f) s))))))))))"

text \<open>The end of \<^verbatim>\<open>sys_mkdir\<close> and \<^verbatim>\<open>sys_mknod\<close>.\<close>

definition created :: "nat option \<Rightarrow> 'x kfs_scheme \<Rightarrow> (int, 'x kfs_scheme) outcome" where
  "created r s =
     (case r of
        None \<Rightarrow> seq (end_op s) (\<lambda>_ s. Ret (-1) s)
      | Some ip \<Rightarrow> seq (iunlockput ip s) (\<lambda>_ s. seq (end_op s) (\<lambda>_ s. Ret 0 s)))"

definition sys_mkdir :: "u8 list \<Rightarrow> 'x kfile_scheme \<Rightarrow> (int, 'x kfile_scheme) outcome" where
  "sys_mkdir stk s =
     seq (begin_op s) (\<lambda>_ s.
     seq (argstr 0 s) (\<lambda>a s. case a of None \<Rightarrow> created None s | Some path \<Rightarrow>
     seq (create stk path T_DIR 0 0 s) created))"

definition sys_mknod :: "u8 list \<Rightarrow> 'x kfile_scheme \<Rightarrow> (int, 'x kfile_scheme) outcome" where
  "sys_mknod stk s =
     seq (begin_op s) (\<lambda>_ s.
     seq (argstr 0 s) (\<lambda>a s. case a of None \<Rightarrow> created None s | Some path \<Rightarrow>
     seq (argint 1 s) (\<lambda>b s. case b of None \<Rightarrow> created None s | Some major \<Rightarrow>
     seq (argint 2 s) (\<lambda>c s. case c of None \<Rightarrow> created None s | Some minor \<Rightarrow>
     seq (create stk path T_DEV (word_of_int major) (word_of_int minor) s) created))))"

definition sys_chdir :: "u8 list \<Rightarrow> 'x kfile_scheme \<Rightarrow> (int, 'x kfile_scheme) outcome" where
  "sys_chdir stk s =
     seq (curproc s) (\<lambda>p s.
     seq (begin_op s) (\<lambda>_ s.
     seq (argstr 0 s) (\<lambda>a s.
     seq (case a of None \<Rightarrow> Ret None s | Some path \<Rightarrow> namei stk path s) (\<lambda>r s.
     case r of
       None \<Rightarrow> seq (end_op s) (\<lambda>_ s. Ret (-1) s)
     | Some ip \<Rightarrow>
         seq (ilock ip s) (\<lambda>_ s.
         if i_type (inodes s ip) \<noteq> T_DIR
         then seq (iunlockput ip s) (\<lambda>_ s. seq (end_op s) (\<lambda>_ s. Ret (-1) s))
         else seq (iunlock ip s) (\<lambda>_ s.
              seq (deref ''iput'' (cwd (procs s p)) s) (\<lambda>d s.
              seq (iput d s) (\<lambda>_ s.
              seq (end_op s) (\<lambda>_ s.
              Ret 0 (upd_proc p (\<lambda>q. q\<lparr>cwd := Some ip\<rparr>) s))))))))))"

subsection \<open>Programs and pipes\<close>

text \<open>The loop that collects the argument strings; \<open>n\<close> is how many entries of \<^verbatim>\<open>argv\<close> are left.\<close>

fun exec_argv :: "nat \<Rightarrow> addr \<Rightarrow> u8 list list \<Rightarrow> 'x kvm_scheme \<Rightarrow> (u8 list list option, 'x kvm_scheme) outcome" where
  "exec_argv 0 ua argv s = Ret None s"
| "exec_argv (Suc n) ua argv s =
     seq (fetchint ua s) (\<lambda>a s.
     case a of
       None \<Rightarrow> Ret None s
     | Some uarg \<Rightarrow>
         if uarg = 0 then Ret (Some argv) s
         else seq (fetchstr (word_of_int uarg) s) (\<lambda>t s.
              case t of None \<Rightarrow> Ret None s | Some t \<Rightarrow> exec_argv n (ua + 4) (argv @ [t]) s))"

definition sys_exec :: "u8 list \<Rightarrow> 'x kfile_scheme \<Rightarrow> (int, 'x kfile_scheme) outcome" where
  "sys_exec stk s =
     seq (argstr 0 s) (\<lambda>a s. case a of None \<Rightarrow> Ret (-1) s | Some path \<Rightarrow>
     seq (argint 1 s) (\<lambda>b s. case b of None \<Rightarrow> Ret (-1) s | Some uargv \<Rightarrow>
     seq (exec_argv MAXARG (word_of_int uargv) [] s) (\<lambda>r s.
     case r of None \<Rightarrow> Ret (-1) s | Some argv \<Rightarrow> exec stk path argv s)))"

definition pipe_fail :: "nat option \<Rightarrow> nat \<Rightarrow> nat \<Rightarrow> 'x kfile_scheme \<Rightarrow> (int, 'x kfile_scheme) outcome" where
  "pipe_fail fd0 rdf wrf s =
     seq (case fd0 of None \<Rightarrow> Ret () s | Some fd0 \<Rightarrow> set_fd fd0 None s) (\<lambda>_ s.
     seq (fileclose rdf s) (\<lambda>_ s.
     seq (fileclose wrf s) (\<lambda>_ s. Ret (-1) s)))"

definition sys_pipe :: "'x kfile_scheme \<Rightarrow> (int, 'x kfile_scheme) outcome" where
  "sys_pipe s =
     seq (argptr 0 8 s) (\<lambda>a s. case a of None \<Rightarrow> Ret (-1) s | Some fd \<Rightarrow>
     seq (pipealloc s) (\<lambda>r s. case r of None \<Rightarrow> Ret (-1) s | Some (rdf, wrf) \<Rightarrow>
     seq (fdalloc rdf s) (\<lambda>fd0 s.
     case fd0 of
       None \<Rightarrow> pipe_fail None rdf wrf s
     | Some n0 \<Rightarrow>
         seq (fdalloc wrf s) (\<lambda>fd1 s.
         case fd1 of
           None \<Rightarrow> pipe_fail (Some n0) rdf wrf s
         | Some n1 \<Rightarrow>
             seq (user_put (word_bytes [word_of_nat n0]) fd s) (\<lambda>_ s.
             seq (user_put (word_bytes [word_of_nat n1]) (fd + 4) s) (\<lambda>_ s. Ret 0 s))))))"

end
