(* ===== verification/Trap.thy ===== *)
theory Trap
  imports Sysproc Sysfile
begin

section \<open>Traps and the system call table (trap.c, syscall, memide.c, main.c)\<close>

text \<open>
  \<^verbatim>\<open>syscall\<close> looks the number in \<^verbatim>\<open>eax\<close> up in its table and stores the result there; \<^verbatim>\<open>trap\<close> is the handler of
  every interrupt and exception. What the devices deliver is an argument: the characters that the keyboard or the
  serial port gives to \<^verbatim>\<open>consoleintr\<close> and the value of the register \<^verbatim>\<open>cr2\<close>. Acknowledging an interrupt
  at the local interrupt controller leaves no trace in the model's state.
\<close>

definition text_chars :: "string \<Rightarrow> int list" where
  "text_chars t = map of_char t"

text \<open>The entries of the table, by number.\<close>

definition syscalls :: "u8 list \<Rightarrow> int \<Rightarrow> ('x kfile_scheme \<Rightarrow> (int, 'x kfile_scheme) outcome) option" where
  "syscalls stk num =
     (if num = 1 then Some sys_fork
      else if num = 2 then Some sys_exit
      else if num = 3 then Some sys_wait
      else if num = 4 then Some sys_pipe
      else if num = 5 then Some sys_read
      else if num = 6 then Some sys_kill
      else if num = 7 then Some (sys_exec stk)
      else if num = 8 then Some sys_fstat
      else if num = 9 then Some (sys_chdir stk)
      else if num = 10 then Some sys_dup
      else if num = 11 then Some sys_getpid
      else if num = 12 then Some sys_sbrk
      else if num = 13 then Some sys_sleep
      else if num = 14 then Some sys_uptime
      else if num = 15 then Some (sys_open stk)
      else if num = 16 then Some sys_write
      else if num = 17 then Some (sys_mknod stk)
      else if num = 18 then Some (sys_unlink stk)
      else if num = 19 then Some (sys_link stk)
      else if num = 20 then Some (sys_mkdir stk)
      else if num = 21 then Some sys_close
      else if num = 22 then Some sys_kt_create
      else if num = 23 then Some (\<lambda>s. seq (argint 0 s) sys_sem_initialize)
      else if num = 24 then Some (\<lambda>s. seq (argint 0 s) sys_sem_wait)
      else if num = 25 then Some (\<lambda>s. seq (argint 0 s) sys_sem_signal)
      else if num = 26 then Some (\<lambda>s. seq (argint 0 s) sys_sem_free)
      else if num = 27 then Some sys_kt_join
      else if num = 28 then Some sys_retrieve_process_statistics
      else None)"

definition syscall :: "u8 list \<Rightarrow> 'x kfile_scheme \<Rightarrow> (unit, 'x kfile_scheme) outcome" where
  "syscall stk s =
     seq (curproc s) (\<lambda>p s.
     let num = sint (tf_load p tf_eax s) in
     case syscalls stk num of
       Some f \<Rightarrow> seq (f s) (\<lambda>r s. Ret () (tf_store p tf_eax (word_of_int r) s))
     | None \<Rightarrow>
         seq (cons_cprintf (text_chars ''%d %s: unknown sys call %d'' @ [10])
                [Num (word_of_int (pid (procs s p))), Text (Some (text_chars (pname (procs s p)))),
                 Num (word_of_int num)] s) (\<lambda>_ s.
         Ret () (tf_store p tf_eax (-1) s)))"

subsection \<open>Interrupts\<close>

text \<open>The in-memory disk needs no interrupt.\<close>

definition ideintr :: "'x kfile_scheme \<Rightarrow> (unit, 'x kfile_scheme) outcome" where
  "ideintr s = Ret () s"

definition clock_tick :: "'x kproc_scheme \<Rightarrow> (unit, 'x kproc_scheme) outcome" where
  "clock_tick s =
     seq (cpuid s) (\<lambda>c s.
     whenb (c = 0) (\<lambda>s.
       seq (acquire Lk_ticks s) (\<lambda>_ s.
       let s = s\<lparr>ticks := ticks s + 1\<rparr> in
       seq (wakeup (Some Ch_ticks) s) (\<lambda>_ s. release Lk_ticks s))) s)"

definition trap_spurious :: "addr \<Rightarrow> 'x kcons_scheme \<Rightarrow> (unit, 'x kcons_scheme) outcome" where
  "trap_spurious tfa s =
     seq (cpuid s) (\<lambda>c s.
     cons_cprintf (text_chars ''cpu%d: spurious interrupt at %x:%x'' @ [10])
       [Num (word_of_nat c), Num (ucast (ld16 (ram s) (tfa + tf_cs))), Num (ld32 (ram s) (tfa + tf_eip))] s)"

definition trap_unexpected :: "u32 \<Rightarrow> addr \<Rightarrow> 'x kcons_scheme \<Rightarrow> (unit, 'x kcons_scheme) outcome" where
  "trap_unexpected cr2 tfa s =
     seq (myproc s) (\<lambda>po s.
     let no = ld32 (ram s) (tfa + tf_trapno); eip = ld32 (ram s) (tfa + tf_eip) in
     if po = None \<or> ld16 (ram s) (tfa + tf_cs) AND 3 = 0
     then seq (cpuid s) (\<lambda>c s.
          seq (cons_cprintf (text_chars ''unexpected trap %d from cpu %d eip %x (cr2=0x%x)'' @ [10])
                 [Num no, Num (word_of_nat c), Num eip, Num cr2] s) (\<lambda>_ s.
          Panic ''trap''))
     else seq (curproc s) (\<lambda>p s.
          seq (cpuid s) (\<lambda>c s.
          seq (cons_cprintf (text_chars ''pid %d %s: trap %d err %d on cpu %d eip 0x%x addr 0x%x--kill proc'' @ [10])
                 [Num (word_of_int (pid (procs s p))), Text (Some (text_chars (pname (procs s p)))), Num no,
                  Num (ld32 (ram s) (tfa + tf_err)), Num (word_of_nat c), Num eip, Num cr2] s) (\<lambda>_ s.
          seq (curproc s) (\<lambda>p s. Ret () (upd_proc p (\<lambda>q. q\<lparr>killed := True\<rparr>) s))))))"

text \<open>The \<^verbatim>\<open>switch\<close> on the trap number. Listing the processes on control-P is not modelled.\<close>

definition trap_dispatch :: "u32 \<Rightarrow> int list \<Rightarrow> addr \<Rightarrow> 'x kfile_scheme \<Rightarrow> (unit, 'x kfile_scheme) outcome" where
  "trap_dispatch cr2 input tfa s =
     (let no = ld32 (ram s) (tfa + tf_trapno) in
      if no = 32 then clock_tick s
      else if no = 46 then ideintr s
      else if no = 47 then Ret () s
      else if no = 33 \<or> no = 36 then seq (consoleintr input s) (\<lambda>_ s. Ret () s)
      else if no = 39 \<or> no = 63 then trap_spurious tfa s
      else trap_unexpected cr2 tfa s)"

definition exit_if_killed :: "addr \<Rightarrow> 'x kfile_scheme \<Rightarrow> (unit, 'x kfile_scheme) outcome" where
  "exit_if_killed tfa s =
     seq (myproc s) (\<lambda>po s.
     case po of
       None \<Rightarrow> Ret () s
     | Some p \<Rightarrow> whenb (killed (procs s p) \<and> ld16 (ram s) (tfa + tf_cs) AND 3 = 3) exit s)"

definition trap_syscall :: "u8 list \<Rightarrow> addr \<Rightarrow> 'x kfile_scheme \<Rightarrow> (unit, 'x kfile_scheme) outcome" where
  "trap_syscall stk tfa s =
     seq (curproc s) (\<lambda>p s.
     seq (whenb (killed (procs s p)) exit s) (\<lambda>_ s.
     seq (curproc s) (\<lambda>p s.
     seq (syscall stk (upd_proc p (\<lambda>q. q\<lparr>tf := tfa\<rparr>) s)) (\<lambda>_ s.
     seq (curproc s) (\<lambda>p s.
     whenb (killed (procs s p)) exit s)))))"

definition trap :: "u8 list \<Rightarrow> u32 \<Rightarrow> int list \<Rightarrow> addr \<Rightarrow> 'x kfile_scheme \<Rightarrow> (unit, 'x kfile_scheme) outcome" where
  "trap stk cr2 input tfa s =
     (if ld32 (ram s) (tfa + tf_trapno) = 64 then trap_syscall stk tfa s
      else
        seq (trap_dispatch cr2 input tfa s) (\<lambda>_ s.
        seq (exit_if_killed tfa s) (\<lambda>_ s.
        seq (myproc s) (\<lambda>po s.
        seq (case po of
               None \<Rightarrow> Ret () s
             | Some p \<Rightarrow>
                 whenb (pstate (procs s p) = RUNNING \<and> ld32 (ram s) (tfa + tf_trapno) = 32) yield s) (\<lambda>_ s.
        exit_if_killed tfa s)))))"

text \<open>A process preempted by the clock goes on after \<^verbatim>\<open>yield\<close>.\<close>

definition trap_resume :: "nat \<Rightarrow> addr \<Rightarrow> 'x kfile_scheme \<Rightarrow> (unit, 'x kfile_scheme) outcome" where
  "trap_resume p tfa s = seq (yield_resume p s) (\<lambda>_ s. exit_if_killed tfa s)"

subsection \<open>Unmapped arguments\<close>

lemma utrans_cong: "ram t = ram s \<Longrightarrow> cr3 t = cr3 s \<Longrightarrow> utrans w va t = utrans w va s"
  by (simp add: utrans_def cong: if_cong)

lemma steady_cr3 [simp]:
  "steady (m\<lparr>cr3 := r\<rparr>) = steady m" "running (m\<lparr>cr3 := r\<rparr>) = running m"
  by (simp_all add: steady_def cpu_index_def running_def this_cpu_def split: option.splits)


definition bad_call :: kfile where
  "bad_call = file0\<lparr>cr3 := 0, procs := (\<lambda>_. no_proc),
     ram := st32 (st32 (st32 (\<lambda>_. 0) 0x80003030 64) 0x8000301C 6) 0x80003044 0x10000\<rparr>"


end
