(* ===== verification/PageTable.thy ===== *)
theory PageTable
  imports Vm
begin

section \<open>What a page table maps\<close>

text \<open>
  The two-level tables in memory as a partial function from virtual pages to page table entries, and what
  \<^verbatim>\<open>walkpgdir\<close>, \<^verbatim>\<open>mappages\<close> and \<^verbatim>\<open>allocuvm\<close> do to that function. The page directory and the page tables are pages
  of their own, apart from each other and from the allocator's free pages.
\<close>

definition present :: "u32 \<Rightarrow> bool" where
  "present e \<longleftrightarrow> e AND PTE_P \<noteq> 0"

definition pde_at :: "mem \<Rightarrow> addr \<Rightarrow> u32 \<Rightarrow> u32" where
  "pde_at m d i = ld32 m (d + 4 * i)"

definition table_at :: "mem \<Rightarrow> addr \<Rightarrow> u32 \<Rightarrow> addr" where
  "table_at m d i = P2V (PTE_ADDR (pde_at m d i))"

text \<open>The entry that maps the page of \<open>x\<close>, if there is one.\<close>

definition maps :: "mem \<Rightarrow> addr \<Rightarrow> addr \<Rightarrow> u32 option" where
  "maps m d x =
     (if present (pde_at m d (PDX x))
      then let e = ld32 m (table_at m d (PDX x) + 4 * PTX x) in if present e then Some e else None
      else None)"

definition pt_ok :: "'x kvm_scheme \<Rightarrow> addr \<Rightarrow> addr list \<Rightarrow> bool" where
  "pt_ok s d as \<longleftrightarrow>
     avail s as \<and> aligned 4096 d \<and> d \<notin> set as
     \<and> (\<forall>i. unat i < 1024 \<longrightarrow> present (pde_at (ram s) d i) \<longrightarrow>
          table_at (ram s) d i \<noteq> 0 \<and> table_at (ram s) d i \<noteq> d \<and> table_at (ram s) d i \<notin> set as
          \<and> (\<forall>j. unat j < 1024 \<longrightarrow> present (pde_at (ram s) d j) \<longrightarrow> table_at (ram s) d i = table_at (ram s) d j \<longrightarrow> i = j))"

subsection \<open>Indices and offsets\<close>

lemma unat_PDX: "unat (PDX x) = unat x div 4194304" and unat_PTX: "unat (PTX x) = unat x div 4096 mod 1024"
proof -
  have m: "(0x3FF :: u32) = mask 10"
    by (simp add: mask_eq_exp_minus_1)
  have "unat (drop_bit 22 x) = unat x div 4194304" "unat (drop_bit 12 x) = unat x div 4096"
    by (simp_all add: unat_drop_bit_eq [where 'a = 32] drop_bit_eq_div unat_div)
  moreover have "unat x div 4194304 < 1024"
    using unat_u32 [of x] by (simp add: div_less_iff_less_mult)
  ultimately show "unat (PDX x) = unat x div 4194304" "unat (PTX x) = unat x div 4096 mod 1024"
    unfolding PDX_def PTX_def m take_bit_eq_mask [symmetric] by (simp_all add: take_bit_eq_mod unat_mod)
qed

lemma index_bounds: "unat (PDX x) < 1024" "unat (PTX x) < 1024"
  using unat_u32 [of x] by (simp_all add: unat_PDX unat_PTX div_less_iff_less_mult)

lemma div_mod_iff: "(a :: nat) = b \<longleftrightarrow> a div k = b div k \<and> a mod k = b mod k"
  by (metis div_mult_mod_eq)

lemma same_page_iff: "PDX x = PDX y \<and> PTX x = PTX y \<longleftrightarrow> unat x div 4096 = unat y div 4096"
proof -
  have d: "unat z div 4194304 = unat z div 4096 div 1024" for z :: u32
    by (simp flip: div_mult2_eq)
  have "unat x div 4096 = unat y div 4096 \<longleftrightarrow>
      unat x div 4096 div 1024 = unat y div 4096 div 1024 \<and> unat x div 4096 mod 1024 = unat y div 4096 mod 1024"
    by (rule div_mod_iff)
  then show ?thesis
    by (simp add: word_unat_eq_iff unat_PDX unat_PTX d)
qed

lemma entry_addr:
  fixes i :: u32
  assumes "unat i < 1024"
  shows "unat (4 * i) = 4 * unat i" "4 * i = word_of_nat (4 * unat i)"
proof -
  show "unat (4 * i) = 4 * unat i"
    using assms by (simp add: unat_word_ariths)
  then show "4 * i = word_of_nat (4 * unat i)"
    using assms by (simp add: word_unat_eq_iff unat_of_nat)
qed

lemma unat_entry:
  assumes "aligned 4096 p" "unat i < 1024"
  shows "unat (p + 4 * i) = unat p + 4 * unat i"
  using unat_page_add [OF assms(1), of "4 * unat i"] assms(2) unfolding entry_addr(2) [OF assms(2)] by simp

lemma entry_aligned:
  assumes "aligned 4096 p" "unat i < 1024"
  shows "aligned 4 (p + 4 * i)"
  using aligned_4096_4 [OF assms(1)] unfolding aligned_def unat_entry [OF assms] by simp

lemma entry_inj:
  fixes i j p :: u32
  assumes "unat i < 1024" "unat j < 1024" "p + 4 * i = p + 4 * j"
  shows "i = j"
proof -
  have "unat (4 * i) = unat (4 * j)"
    using assms(3) by (simp only: add_left_cancel)
  then show ?thesis
    using entry_addr(1) [OF assms(1)] entry_addr(1) [OF assms(2)] by (simp add: word_unat_eq_iff)
qed

lemma entry_page_neq:
  assumes "aligned 4096 p" "aligned 4096 q" "p \<noteq> q" "unat i < 1024" "unat j < 1024"
  shows "p + 4 * i \<noteq> q + 4 * j"
proof
  assume e: "p + 4 * i = q + 4 * j"
  have u: "unat (p + 4 * i) = unat p + 4 * unat i" "unat (q + 4 * j) = unat q + 4 * unat j"
    using unat_entry [OF assms(1,4)] unat_entry [OF assms(2,5)] by simp_all
  obtain k where k: "unat p = 4096 * k"
    by (rule page_eqn [OF assms(1)])
  obtain l where l: "unat q = 4096 * l"
    by (rule page_eqn [OF assms(2)])
  have "4096 * k + 4 * unat i = 4096 * l + 4 * unat j"
    using u e k l by simp
  then have "k = l"
    using assms(4,5) by linarith
  then show False
    using assms(3) k l by (simp add: word_unat_eq_iff)
qed


subsection \<open>Writes to one page\<close>

lemma entry_byte:
  fixes p i :: u32
  assumes "unat i < 1024" "j < 4"
  shows "p + 4 * i + word_of_nat j = p + word_of_nat (4 * unat i + j)" "unat (word_of_nat (4 * unat i + j) :: u32) = 4 * unat i + j"
  using assms by (simp_all only: unat_of_nat) (simp_all add: add.assoc)

lemma same_off_page_entry:
  assumes "same_off_page v m m'" "aligned 4096 a" "aligned 4096 v" "a \<noteq> v" "unat i < 1024"
  shows "ld32 m' (a + 4 * i) = ld32 m (a + 4 * i)"
proof -
  have "m' (a + 4 * i + word_of_nat j) = m (a + 4 * i + word_of_nat j)" if "j < 4" for j
    using page_offset [OF assms(2-4), of "4 * unat i + j"] assms(1,5) that
    unfolding entry_byte(1) [OF assms(5) that] same_off_page_def by simp
  from this [of 0] this [of 1] this [of 2] this [of 3] show ?thesis
    by (simp add: ld32_def)
qed

lemma same_off_page_st32_entry:
  assumes "unat i < 1024"
  shows "same_off_page v m (st32 m (v + 4 * i) w)"
  unfolding same_off_page_def
proof (intro allI impI)
  fix x
  assume x: "4096 \<le> unat (x - v)"
  have "x \<noteq> v + 4 * i + word_of_nat j" if "j < 4" for j
  proof
    assume "x = v + 4 * i + word_of_nat j"
    then have "x - v = word_of_nat (4 * unat i + j)"
      unfolding entry_byte(1) [OF assms that] by simp
    then have "unat (x - v) = 4 * unat i + j"
      using entry_byte(2) [OF assms that] by (simp only:)
    then show False
      using x assms that by simp
  qed
  from this [of 0] this [of 1] this [of 2] this [of 3] show "st32 m (v + 4 * i) w x = m x"
    by (simp add: st32_def)
qed

lemma same_off_page_at:
  assumes "same_off_page v m m'" "aligned 4096 v" "PGROUNDDOWN y \<noteq> v"
  shows "m' y = m y"
proof -
  have "y = PGROUNDDOWN y + word_of_nat (unat y mod 4096)"
    using unat_u32 [of y] by (simp add: word_unat_eq_iff unat_word_ariths unat_of_nat unat_PGROUNDDOWN)
  then have "4096 \<le> unat (y - v)"
    using page_offset [of "PGROUNDDOWN y" v "unat y mod 4096"] assms(2,3) by simp
  then show ?thesis
    using assms(1) by (simp add: same_off_page_def)
qed

lemma avail_frame:
  assumes "avail s as" "same_off_page v (ram s) m" "aligned 4096 v" "v \<notin> set as"
  shows "avail (s\<lparr>ram := m\<rparr>) as"
  using assms free_list_frame [OF assms(2,3)] by (auto simp: avail_def page_ok_def)

text \<open>A new directory entry.\<close>

lemma table_entry:
  assumes "aligned 4096 t"
  shows "P2V (PTE_ADDR (V2P t OR 7)) = t" "present (V2P t OR 7)"
proof -
  have "unat (V2P t) mod 4096 = 0"
    using assms unat_sub_word [of "0x80000000" t] by (auto simp: V2P_def aligned_def mod_eq_0_iff_dvd)
  then have "aligned 4096 (V2P t)"
    by (simp add: aligned_def)
  then have "V2P t AND NOT 0xFFF = V2P t"
    using PGROUNDDOWN_aligned [of "V2P t"] by (simp add: PGROUNDDOWN_def)
  then have "PTE_ADDR (V2P t OR 7) = V2P t"
    unfolding PTE_ADDR_def by (simp add: bit.conj_disj_distrib2)
  then show "P2V (PTE_ADDR (V2P t OR 7)) = t"
    by (simp add: P2V_def V2P_def)
  show "present (V2P t OR 7)"
    unfolding present_def by (simp add: bit.conj_disj_distrib2 or_eq_0_iff)
qed

lemma present_pte: "present (pa OR perm OR PTE_P)"
  unfolding present_def by (simp add: bit.conj_disj_distrib2 or_eq_0_iff)


subsection \<open>Steps on a page table\<close>

text \<open>The pages that belong to a table or that it may still get.\<close>

definition pt_pages :: "'x kvm_scheme \<Rightarrow> addr \<Rightarrow> addr list \<Rightarrow> addr set" where
  "pt_pages s d as = insert d (set as \<union> {table_at (ram s) d i | i. unat i < 1024 \<and> present (pde_at (ram s) d i)})"

text \<open>From \<open>s\<close> with free pages \<open>as\<close> to \<open>t\<close> with \<open>as'\<close>, nothing but those pages is written.\<close>

definition pt_step :: "addr \<Rightarrow> 'x kvm_scheme \<Rightarrow> addr list \<Rightarrow> 'x kvm_scheme \<Rightarrow> addr list \<Rightarrow> bool" where
  "pt_step d s as t as' \<longleftrightarrow>
     pt_ok t d as' \<and> set as' \<subseteq> set as \<and> pt_pages t d as' \<subseteq> pt_pages s d as
     \<and> (\<forall>y. PGROUNDDOWN y \<notin> pt_pages s d as \<longrightarrow> ram t y = ram s y)"

lemma pt_step_refl: "pt_ok s d as \<Longrightarrow> pt_step d s as s as"
  by (simp add: pt_step_def)

lemma pt_step_trans: "pt_step d s as t bs \<Longrightarrow> pt_step d t bs u cs \<Longrightarrow> pt_step d s as u cs"
  unfolding pt_step_def by (metis subset_iff)

lemma pt_step_empty: "pt_step d s [] t as \<Longrightarrow> as = [] \<and> pt_step d s [] t []"
  by (auto simp: pt_step_def)

lemma pt_okD:
  assumes "pt_ok s d as"
  shows "avail s as" "aligned 4096 d" "d \<notin> set as"
    "unat i < 1024 \<Longrightarrow> present (pde_at (ram s) d i) \<Longrightarrow>
       table_at (ram s) d i \<noteq> 0 \<and> table_at (ram s) d i \<noteq> d \<and> table_at (ram s) d i \<notin> set as"
    "unat i < 1024 \<Longrightarrow> present (pde_at (ram s) d i) \<Longrightarrow> unat j < 1024 \<Longrightarrow> present (pde_at (ram s) d j) \<Longrightarrow>
       table_at (ram s) d i = table_at (ram s) d j \<Longrightarrow> i = j"
  using assms unfolding pt_ok_def by blast+

lemma aligned_P2V:
  assumes "aligned 4096 a"
  shows "aligned 4096 (P2V a)"
proof -
  have "unat (P2V a) mod 4096 = (unat a + 2147483648) mod 4096"
    by (simp add: P2V_def unat_word_ariths mod_mod_cancel)
  then show ?thesis
    using assms by (simp add: aligned_def mod_add_eq [symmetric])
qed

lemma aligned_table [simp]: "aligned 4096 (table_at m d i)"
  by (simp add: table_at_def aligned_P2V)

text \<open>Writing an entry of a table that is there.\<close>

lemma store_pte:
  fixes e :: u32
  assumes ok: "pt_ok s d as" and i: "unat i < 1024" "present (pde_at (ram s) d i)" and k: "unat k < 1024"
    and t_def: "t = s\<lparr>ram := st32 (ram s) (table_at (ram s) d i + 4 * k) e\<rparr>"
  shows "pt_step d s as t as"
    "maps (ram t) d x = (if PDX x = i \<and> PTX x = k then (if present e then Some e else None) else maps (ram s) d x)"
proof -
  let ?T = "table_at (ram s) d i"
  have T: "?T \<noteq> 0" "?T \<noteq> d" "?T \<notin> set as"
    using pt_okD(4) [OF ok i] by simp_all
  have off: "same_off_page ?T (ram s) (ram t)"
    unfolding t_def by (simp add: same_off_page_st32_entry k)
  have pde: "unat j < 1024 \<Longrightarrow> pde_at (ram t) d j = pde_at (ram s) d j" for j
    unfolding pde_at_def using same_off_page_entry [OF off pt_okD(2) [OF ok] aligned_table] T(2) by metis
  then have tab: "unat j < 1024 \<Longrightarrow> table_at (ram t) d j = table_at (ram s) d j" for j
    by (simp add: table_at_def)
  have "avail t as"
    unfolding t_def using off T(3) pt_okD(1) [OF ok] by (intro avail_frame) (simp_all add: t_def)
  then have "pt_ok t d as"
    using ok unfolding pt_ok_def by (simp add: pde tab)
  moreover have "{table_at (ram t) d j | j. unat j < 1024 \<and> present (pde_at (ram t) d j)}
      = {table_at (ram s) d j | j. unat j < 1024 \<and> present (pde_at (ram s) d j)}"
    by (intro Collect_cong ex_cong1) (auto simp: pde tab)
  then have "pt_pages t d as = pt_pages s d as"
    by (simp add: pt_pages_def)
  moreover have "?T \<in> pt_pages s d as"
    using i by (auto simp: pt_pages_def)
  ultimately show "pt_step d s as t as"
    unfolding pt_step_def using same_off_page_at [OF off aligned_table] by (metis order_refl)
  have "ld32 (ram t) (table_at (ram s) d j + 4 * l) =
      (if j = i \<and> l = k then e else ld32 (ram s) (table_at (ram s) d j + 4 * l))"
    if "unat j < 1024" "present (pde_at (ram s) d j)" "unat l < 1024" for j l
  proof (cases "j = i")
    case True
    have "l \<noteq> k \<Longrightarrow> ld32 (st32 (ram s) (?T + 4 * k) e) (?T + 4 * l) = ld32 (ram s) (?T + 4 * l)"
      using entry_inj [OF k that(3), of ?T]
      by (intro ld32_st32_other entry_aligned aligned_table k that(3)) blast
    then show ?thesis
      using True by (simp add: t_def)
  next
    case False
    then have "table_at (ram s) d j \<noteq> ?T"
      using pt_okD(5) [OF ok that(1,2) i] by blast
    then show ?thesis
      using False same_off_page_entry [OF off aligned_table aligned_table _ that(3)] by simp
  qed
  from this [OF index_bounds(1) _ index_bounds(2), of x x]
  show "maps (ram t) d x = (if PDX x = i \<and> PTX x = k then (if present e then Some e else None) else maps (ram s) d x)"
    using i(2) by (auto simp: maps_def pde tab index_bounds Let_def)
qed


lemma ld32_filled:
  assumes "unat k < 1024"
  shows "ld32 (fill m p 4096 0) (p + 4 * k) = 0"
proof -
  have "fill m p 4096 0 (p + 4 * k + word_of_nat j) = 0" if "j < 4" for j
  proof -
    have "p + 4 * k + word_of_nat j - p = word_of_nat (4 * unat k + j)"
      unfolding entry_byte(1) [OF assms that] by simp
    then show ?thesis
      using entry_byte(2) [OF assms that] assms that unfolding fill_def by simp
  qed
  from this [of 0] this [of 1] this [of 2] this [of 3] show ?thesis
    by (simp add: ld32_def)
qed

text \<open>Linking a new, cleared table into the directory.\<close>

lemma new_table:
  assumes ok: "pt_ok s d (T # as)" and i: "unat i < 1024" "\<not> present (pde_at (ram s) d i)"
    and t_def: "t = s\<lparr>freelist := ld32 (ram s) T, ram := st32 (fill (ram s) T 4096 0) (d + 4 * i) (V2P T OR 7)\<rparr>"
  shows "pt_step d s (T # as) t as" "present (pde_at (ram t) d i)" "table_at (ram t) d i = T" "T \<noteq> 0"
    "maps (ram t) d x = maps (ram s) d x"
proof -
  let ?m = "fill (ram s) T 4096 0"
  have av: "avail s (T # as)" and d: "aligned 4096 d" "d \<noteq> T" "d \<notin> set as"
    using pt_okD(1-3) [OF ok] by auto
  have T: "aligned 4096 T" "T \<noteq> 0" "T \<notin> set as"
    using av by (auto simp: avail_def page_ok_def)
  have off: "same_off_page T (ram s) ?m" "same_off_page d ?m (ram t)"
    unfolding t_def by (simp_all add: same_off_page_fill same_off_page_st32_entry i)
  have other: "ld32 (ram t) (p + 4 * k) = ld32 (ram s) (p + 4 * k)"
    if "aligned 4096 p" "p \<noteq> T" "p \<noteq> d" "unat k < 1024" for p k
    using same_off_page_entry [OF off(2) that(1) d(1) that(3,4)] same_off_page_entry [OF off(1) that(1) T(1) that(2,4)]
    by simp
  have pdi: "pde_at (ram t) d i = V2P T OR 7"
    by (simp add: pde_at_def t_def)
  then show pi: "present (pde_at (ram t) d i)" "table_at (ram t) d i = T"
    using table_entry [OF T(1)] by (simp_all add: table_at_def)
  have pdj: "pde_at (ram t) d j = pde_at (ram s) d j" if "unat j < 1024" "j \<noteq> i" for j
  proof -
    have "d + 4 * i \<noteq> d + 4 * j"
      using entry_inj [OF i(1) that(1)] that(2) by blast
    then have "ld32 (ram t) (d + 4 * j) = ld32 ?m (d + 4 * j)"
      unfolding t_def by (simp add: entry_aligned [OF d(1)] i(1) that(1))
    also have "\<dots> = ld32 (ram s) (d + 4 * j)"
      by (rule same_off_page_entry [OF off(1) d(1) T(1) d(2) that(1)])
    finally show ?thesis
      by (simp add: pde_at_def)
  qed
  have tabj: "table_at (ram t) d j = table_at (ram s) d j" if "unat j < 1024" "j \<noteq> i" for j
    using pdj [OF that] by (simp add: table_at_def)
  have tj: "table_at (ram s) d j \<noteq> 0 \<and> table_at (ram s) d j \<noteq> d \<and> table_at (ram s) d j \<notin> set as \<and> table_at (ram s) d j \<noteq> T"
    if "unat j < 1024" "present (pde_at (ram s) d j)" for j
    using pt_okD(4) [OF ok that] by simp
  have "avail (s\<lparr>freelist := ld32 (ram s) T\<rparr>) as"
    using av by (simp add: avail_def)
  then have "avail (s\<lparr>freelist := ld32 (ram s) T, ram := ?m\<rparr>) as"
    using avail_frame [of "s\<lparr>freelist := ld32 (ram s) T\<rparr>" as T ?m] off(1) T by simp
  then have av': "avail t as"
    using avail_frame [of "s\<lparr>freelist := ld32 (ram s) T, ram := ?m\<rparr>" as d "ram t"] off(2) d unfolding t_def by simp
  show "T \<noteq> 0"
    by (rule T(2))
  have pres: "present (pde_at (ram t) d j) \<Longrightarrow> unat j < 1024 \<Longrightarrow> j \<noteq> i \<Longrightarrow> present (pde_at (ram s) d j)" for j
    using pdj by simp
  have tt: "unat j < 1024 \<Longrightarrow> present (pde_at (ram t) d j) \<Longrightarrow> table_at (ram t) d j = (if j = i then T else table_at (ram s) d j)" for j
    using tabj pi(2) by simp
  have ok': "pt_ok t d as"
    unfolding pt_ok_def
  proof (intro conjI allI impI)
    fix j
    assume j: "unat j < 1024" "present (pde_at (ram t) d j)"
    show "table_at (ram t) d j \<noteq> 0" "table_at (ram t) d j \<noteq> d" "table_at (ram t) d j \<notin> set as"
      using tt [OF j] tj [OF j(1) pres [OF j(2,1)]] T d by (cases "j = i"; simp)+
    fix l
    assume l: "unat l < 1024" "present (pde_at (ram t) d l)" "table_at (ram t) d j = table_at (ram t) d l"
    show "j = l"
      using l(3) tt [OF j] tt [OF l(1,2)] tj [OF j(1) pres [OF j(2,1)]] tj [OF l(1) pres [OF l(2,1)]]
        pt_okD(5) [OF ok j(1) pres [OF j(2,1)] l(1) pres [OF l(2,1)]]
      by (cases "j = i"; cases "l = i"; simp)
  qed (use av' d in simp_all)
  have sub: "pt_pages t d as \<subseteq> pt_pages s d (T # as)"
    unfolding pt_pages_def using tt pres by (auto split: if_splits)
  have "ram t y = ram s y" if "PGROUNDDOWN y \<notin> pt_pages s d (T # as)" for y
    using same_off_page_at [OF off(1) T(1), of y] same_off_page_at [OF off(2) d(1), of y] that
    by (simp add: pt_pages_def)
  then show "pt_step d s (T # as) t as"
    unfolding pt_step_def using ok' sub by auto
  show "maps (ram t) d x = maps (ram s) d x"
  proof (cases "PDX x = i")
    case True
    have "ld32 (ram t) (T + 4 * PTX x) = ld32 ?m (T + 4 * PTX x)"
      by (rule same_off_page_entry [OF off(2) T(1) d(1) d(2) [symmetric] index_bounds(2)])
    then have "ld32 (ram t) (T + 4 * PTX x) = 0"
      using ld32_filled [OF index_bounds(2)] by simp
    then show ?thesis
      using True pi i(2) by (simp add: maps_def present_def)
  next
    case False
    then show ?thesis
      using pdj [OF index_bounds(1)] tabj [OF index_bounds(1)] tj [OF index_bounds(1)]
        other [OF aligned_table _ _ index_bounds(2), of "ram s" d "PDX x" x] by (simp add: maps_def)
  qed
qed

subsection \<open>Walking and mapping\<close>

lemma walkpgdir_present:
  "present (pde_at (ram s) d (PDX a)) \<Longrightarrow> walkpgdir d a alloc s = Ret (table_at (ram s) d (PDX a) + 4 * PTX a) s"
  by (simp add: walkpgdir_def Let_def present_def pde_at_def table_at_def)

lemma walkpgdir_absent:
  "\<not> present (pde_at (ram s) d (PDX a)) \<Longrightarrow> walkpgdir d a False s = Ret 0 s"
  by (simp add: walkpgdir_def Let_def present_def pde_at_def)

lemma walkpgdir_alloc:
  assumes "pt_ok s d as"
  shows "returns (walkpgdir d a True s) (\<lambda>p t.
    p = 0 \<and> t = s \<and> as = [] \<or>
    p \<noteq> 0 \<and> present (pde_at (ram t) d (PDX a)) \<and> p = table_at (ram t) d (PDX a) + 4 * PTX a \<and>
      (\<forall>x. maps (ram t) d x = maps (ram s) d x) \<and> (\<exists>as'. pt_step d s as t as' \<and> length as \<le> Suc (length as')))"
proof -
  have nz: "table_at (ram u) d (PDX a) + 4 * PTX a \<noteq> 0" if "table_at (ram u) d (PDX a) \<noteq> 0" for u :: "'a kvm_scheme"
    using unat_entry [OF aligned_table index_bounds(2), of "ram u" d "PDX a" a] that
    by (auto simp: word_unat_eq_iff)
  show ?thesis
  proof (cases "present (pde_at (ram s) d (PDX a))")
    case True
    then show ?thesis
      using walkpgdir_present [OF True, of True] pt_step_refl [OF assms] nz [of s] pt_okD(4) [OF assms index_bounds(1) True]
      by auto
  next
    case False
    have av: "avail s as"
      by (rule pt_okD(1) [OF assms])
    show ?thesis
    proof (cases as)
      case Nil
      then show ?thesis
        using False kmem.alloc_empty [of s] av
        by (simp add: walkpgdir_def Let_def present_def pde_at_def)
    next
      case (Cons T as')
      let ?t = "s\<lparr>freelist := ld32 (ram s) T, ram := st32 (fill (ram s) T 4096 0) (d + 4 * PDX a) (V2P T OR 7)\<rparr>"
      have f: "freelist s = T" "T \<noteq> 0"
        using av Cons by (simp_all add: avail_def)
      have k: "kalloc s = Ret T (s\<lparr>freelist := ld32 (ram s) T\<rparr>)"
        using av f by (simp add: kalloc_eq avail_def)
      have "walkpgdir d a True s = Ret (T + 4 * PTX a) ?t"
        using False f(2) by (simp add: walkpgdir_def Let_def present_def pde_at_def k memset_fill)
      then show ?thesis
        using new_table [OF assms [unfolded Cons] index_bounds(1) False refl] nz [of ?t] Cons by auto
    qed
  qed
qed


text \<open>The entry for the page of \<open>x\<close> when \<open>a\<close> is mapped to \<open>pa\<close>.\<close>

definition entry_for :: "addr \<Rightarrow> u32 \<Rightarrow> u32 \<Rightarrow> addr \<Rightarrow> u32" where
  "entry_for a pa perm x = (pa + (PGROUNDDOWN x - a)) OR perm OR PTE_P"

text \<open>One round of the loop.\<close>

lemma map_one:
  assumes ok: "pt_ok s d as" and a: "aligned 4096 a" and none: "maps (ram s) d a = None"
  shows "returns (seq (walkpgdir d a True s) (\<lambda>pte s.
      if pte = 0 then Ret (-1) s
      else if ld32 (ram s) pte AND PTE_P \<noteq> 0 then Panic ''remap''
      else Ret (0::int) (s\<lparr>ram := st32 (ram s) pte (pa OR perm OR PTE_P)\<rparr>)))
    (\<lambda>r t. \<exists>as'. pt_step d s as t as' \<and> length as \<le> Suc (length as') \<and>
       (r = 0 \<and> (\<forall>x. maps (ram t) d x = (if unat x div 4096 = unat a div 4096 then Some (pa OR perm OR PTE_P) else maps (ram s) d x))
        \<or> r = -1 \<and> as = []))"
  unfolding returns_seq
proof (rule returns_mono [OF walkpgdir_alloc [OF ok, of a]])
  fix p t
  assume w: "p = 0 \<and> t = s \<and> as = [] \<or> p \<noteq> 0 \<and> present (pde_at (ram t) d (PDX a)) \<and>
      p = table_at (ram t) d (PDX a) + 4 * PTX a \<and> (\<forall>x. maps (ram t) d x = maps (ram s) d x) \<and>
      (\<exists>as'. pt_step d s as t as' \<and> length as \<le> Suc (length as'))"
  let ?post = "\<lambda>r u. \<exists>as'. pt_step d s as u as' \<and> length as \<le> Suc (length as') \<and>
      (r = (0::int) \<and> (\<forall>x. maps (ram u) d x = (if unat x div 4096 = unat a div 4096 then Some (pa OR perm OR PTE_P) else maps (ram s) d x))
        \<or> r = -1 \<and> as = [])"
  show "returns (if p = 0 then Ret (-1) t else if ld32 (ram t) p AND PTE_P \<noteq> 0 then Panic ''remap''
      else Ret 0 (t\<lparr>ram := st32 (ram t) p (pa OR perm OR PTE_P)\<rparr>)) ?post"
  proof (cases "p = 0")
    case True
    then show ?thesis
      using w pt_step_refl [OF ok] by auto
  next
    case False
    then obtain as' where t: "present (pde_at (ram t) d (PDX a))" "p = table_at (ram t) d (PDX a) + 4 * PTX a"
        "\<And>x. maps (ram t) d x = maps (ram s) d x" "pt_step d s as t as'" "length as \<le> Suc (length as')"
      using w by auto
    have okt: "pt_ok t d as'"
      using t(4) by (simp add: pt_step_def)
    have np: "\<not> present (ld32 (ram t) p)"
      using none t(1,2) t(3) [of a] by (auto simp: maps_def Let_def split: if_splits)
    let ?u = "t\<lparr>ram := st32 (ram t) p (pa OR perm OR PTE_P)\<rparr>"
    note sp = store_pte [OF okt index_bounds(1) t(1) index_bounds(2), of ?u a "pa OR perm OR PTE_P", folded t(2), OF refl]
    have "maps (ram ?u) d x = (if unat x div 4096 = unat a div 4096 then Some (pa OR perm OR PTE_P) else maps (ram s) d x)" for x
      using sp(2) [of x] present_pte [of pa perm] same_page_iff [of x a] t(3) by simp
    moreover have "pt_step d s as ?u as'"
      by (rule pt_step_trans [OF t(4) sp(1)])
    ultimately show ?thesis
      using False np t(5) by (auto simp: present_def)
  qed
qed


lemma mappages_loop_Suc:
  "mappages_loop (Suc n) d a pa perm s =
     seq (mappages_loop 0 d a pa perm s) (\<lambda>r s.
       if r < 0 then Ret r s else mappages_loop n d (a + PGSIZE) (pa + PGSIZE) perm s)"
  by (cases "walkpgdir d a True s") (simp_all add: Let_def)

lemma same_page_bounds:
  assumes "aligned 4096 a"
  shows "unat x div 4096 = unat a div 4096 \<longleftrightarrow> unat a \<le> unat x \<and> unat x < unat a + 4096"
    "unat x div 4096 = unat a div 4096 \<Longrightarrow> PGROUNDDOWN x = a"
proof -
  obtain k where k: "unat a = 4096 * k"
    by (rule page_eqn [OF assms])
  define q r where "q = unat x div 4096" and "r = unat x mod 4096"
  have x: "unat x = 4096 * q + r" "r < 4096"
    by (simp_all add: q_def r_def)
  have "q = k \<longleftrightarrow> 4096 * k \<le> 4096 * q + r \<and> 4096 * q + r < 4096 * k + 4096"
    using x(2) by linarith
  then show "unat x div 4096 = unat a div 4096 \<longleftrightarrow> unat a \<le> unat x \<and> unat x < unat a + 4096"
    unfolding x(1) [symmetric] k [symmetric] using k by (simp add: q_def)
  show "unat x div 4096 = unat a div 4096 \<Longrightarrow> PGROUNDDOWN x = a"
    using k by (simp add: word_unat_eq_iff unat_PGROUNDDOWN)
qed

lemma mappages_loop_maps:
  assumes "pt_ok s d as" "aligned 4096 a" "unat a + 4096 * n < 4294967296"
    "\<And>x. unat a \<le> unat x \<Longrightarrow> unat x < unat a + 4096 * (n + 1) \<Longrightarrow> maps (ram s) d x = None"
  shows "returns (mappages_loop n d a pa perm s) (\<lambda>r t. \<exists>as'. pt_step d s as t as' \<and>
    (r = 0 \<and> (\<forall>x. maps (ram t) d x =
        (if unat a \<le> unat x \<and> unat x < unat a + 4096 * (n + 1) then Some (entry_for a pa perm x) else maps (ram s) d x))
     \<or> r = -1 \<and> as' = []))"
  using assms
proof (induction n arbitrary: s as a pa)
  case 0
  have "maps (ram s) d a = None"
    using 0(4) [of a] by simp
  from map_one [OF 0(1,2) this, of pa perm] show ?case
    unfolding mappages_loop.simps
    by (rule returns_mono) (use same_page_bounds [OF 0(2)] in \<open>auto simp: entry_for_def dest: pt_step_empty\<close>)
next
  case (Suc n)
  have a: "unat (a + 4096) = unat a + 4096"
    using Suc.prems(3) unat_add_cases [of a 4096] by auto
  then have al: "aligned 4096 (a + 4096)"
    using Suc.prems(2) by (simp add: aligned_def)
  have none: "maps (ram s) d a = None"
    using Suc.prems(4) [of a] by simp
  show ?case
    unfolding mappages_loop_Suc returns_seq
  proof (rule returns_mono [OF map_one [OF Suc.prems(1,2) none, folded mappages_loop.simps(1)]], elim exE conjE disjE)
    fix r t as'
    assume "pt_step d s as t as'" "r = (-1 :: int)" "as = []"
    then have "pt_step d s as t as'" "r = -1" "as' = []"
      by (auto simp: pt_step_def)
    then show "returns (if r < 0 then Ret r t else mappages_loop n d (a + PGSIZE) (pa + PGSIZE) perm t) (\<lambda>r t. \<exists>as'. pt_step d s as t as' \<and>
        (r = 0 \<and> (\<forall>x. maps (ram t) d x =
          (if unat a \<le> unat x \<and> unat x < unat a + 4096 * (Suc n + 1) then Some (entry_for a pa perm x) else maps (ram s) d x))
         \<or> r = -1 \<and> as' = []))"
      by auto
  next
    fix r t as1
    assume st: "pt_step d s as t as1" and r: "r = (0 :: int)" and
      m: "\<forall>x. maps (ram t) d x = (if unat x div 4096 = unat a div 4096 then Some (pa OR perm OR PTE_P) else maps (ram s) d x)"
    have pre: "maps (ram t) d x = None" if "unat (a + 4096) \<le> unat x" "unat x < unat (a + 4096) + 4096 * (n + 1)" for x
      using m same_page_bounds(1) [OF Suc.prems(2), of x] that a Suc.prems(4) [of x] by simp
    have ih: "returns (mappages_loop n d (a + 4096) (pa + 4096) perm t) (\<lambda>r u. \<exists>as'. pt_step d t as1 u as' \<and>
      (r = 0 \<and> (\<forall>x. maps (ram u) d x =
          (if unat (a + 4096) \<le> unat x \<and> unat x < unat (a + 4096) + 4096 * (n + 1) then Some (entry_for (a + 4096) (pa + 4096) perm x)
           else maps (ram t) d x))
       \<or> r = -1 \<and> as' = []))"
      by (rule Suc.IH) (use st al a Suc.prems(3) pre in \<open>simp_all add: pt_step_def\<close>)
    have e: "entry_for (a + 4096) (pa + 4096) perm x = entry_for a pa perm x" for x
      by (simp add: entry_for_def)
    have one: "unat x div 4096 = unat a div 4096 \<Longrightarrow> pa OR perm OR PTE_P = entry_for a pa perm x" for x
      using same_page_bounds(2) [OF Suc.prems(2), of x] by (simp add: entry_for_def)
    have comb: "(if unat (a + 4096) \<le> unat x \<and> unat x < unat (a + 4096) + 4096 * (n + 1) then Some (entry_for (a + 4096) (pa + 4096) perm x)
        else maps (ram t) d x) =
       (if unat a \<le> unat x \<and> unat x < unat a + 4096 * (Suc n + 1) then Some (entry_for a pa perm x) else maps (ram s) d x)" for x
      using m one [of x] same_page_bounds(1) [OF Suc.prems(2), of x] unfolding a e by auto
    show "returns (if r < 0 then Ret r t else mappages_loop n d (a + PGSIZE) (pa + PGSIZE) perm t) (\<lambda>r t. \<exists>as'. pt_step d s as t as' \<and>
        (r = 0 \<and> (\<forall>x. maps (ram t) d x =
          (if unat a \<le> unat x \<and> unat x < unat a + 4096 * (Suc n + 1) then Some (entry_for a pa perm x) else maps (ram s) d x))
         \<or> r = -1 \<and> as' = []))"
      using ih r unfolding comb by (auto elim!: returns_mono intro: pt_step_trans [OF st])
  qed
qed


subsection \<open>Growing a process\<close>

text \<open>A page all of whose bytes are zero.\<close>

definition zero_page :: "mem \<Rightarrow> addr \<Rightarrow> bool" where
  "zero_page m p \<longleftrightarrow> (\<forall>y. PGROUNDDOWN y = p \<longrightarrow> m y = 0)"

lemma zero_page_fill: "aligned 4096 p \<Longrightarrow> zero_page (fill m p 4096 0) p"
  unfolding zero_page_def
proof (intro allI impI)
  fix y
  assume "aligned 4096 p" "PGROUNDDOWN y = p"
  then have "y - p = word_of_nat (unat y mod 4096)"
    using unat_u32 [of y] unat_PGROUNDDOWN [of y] minus_mult_div_eq_mod [of "unat y" 4096] by (auto simp: word_unat_eq_iff unat_sub_if' unat_of_nat word_le_nat_alt)
  then have "unat (y - p) < 4096"
    by (simp add: unat_of_nat)
  then show "fill m p 4096 0 y = 0"
    by (simp add: fill_def)
qed

lemma maps_frame:
  assumes "pt_ok s d as" "same_off_page v (ram s) m" "aligned 4096 v" "v \<noteq> d"
    "\<And>i. unat i < 1024 \<Longrightarrow> present (pde_at (ram s) d i) \<Longrightarrow> table_at (ram s) d i \<noteq> v"
  shows "unat i < 1024 \<Longrightarrow> pde_at m d i = pde_at (ram s) d i" "maps m d x = maps (ram s) d x"
proof -
  show p: "unat i < 1024 \<Longrightarrow> pde_at m d i = pde_at (ram s) d i" for i
    using same_off_page_entry [OF assms(2) pt_okD(2) [OF assms(1)] assms(3)] assms(4) by (auto simp: pde_at_def)
  show "maps m d x = maps (ram s) d x"
    using p [OF index_bounds(1), of x] assms(5) [OF index_bounds(1), of x]
      same_off_page_entry [OF assms(2) aligned_table assms(3) _ index_bounds(2), of "ram s" d "PDX x" x]
    by (simp add: maps_def table_at_def)
qed

text \<open>Taking a page from the allocator and clearing it.\<close>

lemma take_page:
  assumes ok: "pt_ok s d (p # as)" and t_def: "t = s\<lparr>freelist := ld32 (ram s) p, ram := fill (ram s) p 4096 0\<rparr>"
  shows "kalloc s = Ret p (s\<lparr>freelist := ld32 (ram s) p\<rparr>)" "p \<noteq> 0" "aligned 4096 p" "pt_ok t d as"
    "maps (ram t) d x = maps (ram s) d x" "pt_pages t d as \<subseteq> pt_pages s d (p # as) - {p}" "zero_page (ram t) p"
    "PGROUNDDOWN y \<noteq> p \<Longrightarrow> ram t y = ram s y"
proof -
  have av: "avail s (p # as)"
    by (rule pt_okD(1) [OF ok])
  then show k: "kalloc s = Ret p (s\<lparr>freelist := ld32 (ram s) p\<rparr>)" and p: "p \<noteq> 0" "aligned 4096 p"
    by (simp_all add: kalloc_eq avail_def page_ok_def)
  have off: "same_off_page p (ram s) (ram t)"
    unfolding t_def by (simp add: same_off_page_fill)
  have d: "aligned 4096 d" "p \<noteq> d" "d \<notin> set as" "p \<notin> set as"
    using pt_okD(2,3) [OF ok] av by (auto simp: avail_def)
  have tab: "unat i < 1024 \<Longrightarrow> present (pde_at (ram s) d i) \<Longrightarrow> table_at (ram s) d i \<noteq> p" for i
    using pt_okD(4) [OF ok] by auto
  note fr = maps_frame [OF ok off p(2) d(2) tab]
  show "maps (ram t) d x = maps (ram s) d x"
    by (rule fr(2))
  have pde: "unat i < 1024 \<Longrightarrow> pde_at (ram t) d i = pde_at (ram s) d i" for i
    by (rule fr(1))
  then have tb: "unat i < 1024 \<Longrightarrow> table_at (ram t) d i = table_at (ram s) d i" for i
    by (simp add: table_at_def)
  have "avail (s\<lparr>freelist := ld32 (ram s) p\<rparr>) as"
    using av by (simp add: avail_def)
  then have "avail t as"
    using avail_frame [of "s\<lparr>freelist := ld32 (ram s) p\<rparr>" as p "ram t"] off p d(4) unfolding t_def by simp
  then show "pt_ok t d as"
    using ok unfolding pt_ok_def by (simp add: pde tb)
  have e: "{table_at (ram t) d j | j. unat j < 1024 \<and> present (pde_at (ram t) d j)}
      = {table_at (ram s) d j | j. unat j < 1024 \<and> present (pde_at (ram s) d j)}"
    by (intro Collect_cong ex_cong1) (auto simp: pde tb)
  show "pt_pages t d as \<subseteq> pt_pages s d (p # as) - {p}"
    unfolding pt_pages_def e using d tab by auto
  show "zero_page (ram t) p"
    unfolding t_def using zero_page_fill [OF p(2)] by simp
  show "PGROUNDDOWN y \<noteq> p \<Longrightarrow> ram t y = ram s y"
    by (rule same_off_page_at [OF off p(2)])
qed


lemma mappages_page: "aligned 4096 a \<Longrightarrow> mappages d a PGSIZE pa perm s = mappages_loop 0 d a pa perm s"
  using PGROUNDUP_aligned [of a] by (simp add: mappages_def PGROUNDUP_alt add.commute del: mappages_loop.simps)

lemma pt_stepD:
  assumes "pt_step d s as t as'"
  shows "pt_ok t d as'" "set as' \<subseteq> set as" "pt_pages t d as' \<subseteq> pt_pages s d as"
    "PGROUNDDOWN y \<notin> pt_pages s d as \<Longrightarrow> ram t y = ram s y"
  using assms by (simp_all add: pt_step_def)

text \<open>The entry of a user page that \<^verbatim>\<open>allocuvm\<close> maps.\<close>

abbreviation user_entry :: "addr \<Rightarrow> u32" where
  "user_entry p \<equiv> V2P p OR (PTE_W OR PTE_U) OR PTE_P"

lemma alloc_one:
  assumes ok: "pt_ok s d (p # as)" and as: "as \<noteq> []" and a: "aligned 4096 a" and none: "maps (ram s) d a = None"
  shows "\<exists>t as'. mappages d a PGSIZE (V2P p) (PTE_W OR PTE_U) (s\<lparr>freelist := ld32 (ram s) p, ram := fill (ram s) p 4096 0\<rparr>) = Ret 0 t \<and>
    pt_ok t d as' \<and> set as' \<subseteq> set as \<and> length as \<le> Suc (length as') \<and> pt_pages t d as' \<subseteq> pt_pages s d (p # as) - {p} \<and> zero_page (ram t) p \<and>
    (\<forall>x. maps (ram t) d x = (if unat x div 4096 = unat a div 4096 then Some (user_entry p) else maps (ram s) d x)) \<and>
    (\<forall>y. PGROUNDDOWN y \<notin> pt_pages s d (p # as) \<longrightarrow> ram t y = ram s y)"
proof -
  let ?s = "s\<lparr>freelist := ld32 (ram s) p, ram := fill (ram s) p 4096 0\<rparr>"
  note tp = take_page [OF ok refl]
  have none': "maps (ram ?s) d a = None"
    using none tp(5) by simp
  obtain r t where m: "mappages d a PGSIZE (V2P p) (PTE_W OR PTE_U) ?s = Ret r t"
    and r: "\<exists>as'. pt_step d ?s as t as' \<and> length as \<le> Suc (length as') \<and>
       (r = 0 \<and> (\<forall>x. maps (ram t) d x = (if unat x div 4096 = unat a div 4096 then Some (user_entry p) else maps (ram ?s) d x))
        \<or> r = -1 \<and> as = [])"
    using map_one [OF tp(4) a none', of "V2P p" "PTE_W OR PTE_U"]
    unfolding mappages_page [OF a] mappages_loop.simps(1) by (rule returnsE)
  then obtain as' where st: "pt_step d ?s as t as'" "length as \<le> Suc (length as')" "r = 0"
      and mp: "\<forall>x. maps (ram t) d x = (if unat x div 4096 = unat a div 4096 then Some (user_entry p) else maps (ram ?s) d x)"
    using as by auto
  have pin: "p \<in> pt_pages s d (p # as)"
    by (simp add: pt_pages_def)
  have sub: "pt_pages t d as' \<subseteq> pt_pages s d (p # as) - {p}"
    by (rule subset_trans [OF pt_stepD(3) [OF st(1)] tp(6)])
  have out: "p \<notin> pt_pages ?s d as"
    using subsetD [OF tp(6), of p] by blast
  have zero: "zero_page (ram t) p"
    using tp(7) pt_stepD(4) [OF st(1)] out unfolding zero_page_def by metis
  have fr: "\<forall>y. PGROUNDDOWN y \<notin> pt_pages s d (p # as) \<longrightarrow> ram t y = ram s y"
  proof (intro allI impI)
    fix y
    assume y: "PGROUNDDOWN y \<notin> pt_pages s d (p # as)"
    then have n: "PGROUNDDOWN y \<notin> pt_pages ?s d as" "PGROUNDDOWN y \<noteq> p"
      using subsetD [OF tp(6), of "PGROUNDDOWN y"] pin by auto
    show "ram t y = ram s y"
      by (rule trans [OF pt_stepD(4) [OF st(1) n(1)] tp(8) [OF n(2)]])
  qed
  show ?thesis
    using m pt_stepD(1,2) [OF st(1)] st(2) sub zero mp fr unfolding st(3) tp(5) by (intro exI conjI)
qed


text \<open>
  What a successful run of the loop of \<^verbatim>\<open>allocuvm\<close> leaves: the pages \<open>ps\<close>, taken from the free pages \<open>as\<close>, are
  zeroed, belong no more to the tables or to the free pages, and are what the addresses from \<open>a\<close> on are mapped to.
\<close>

definition grown :: "addr \<Rightarrow> 'x kvm_scheme \<Rightarrow> addr list \<Rightarrow> addr \<Rightarrow> addr list \<Rightarrow> 'x kvm_scheme \<Rightarrow> addr list \<Rightarrow> bool" where
  "grown d s as a ps t as' \<longleftrightarrow>
     pt_step d s as t as' \<and> distinct ps \<and> set ps \<subseteq> set as \<and> set ps \<inter> pt_pages t d as' = {}
     \<and> (\<forall>p \<in> set ps. zero_page (ram t) p)
     \<and> (\<forall>x. maps (ram t) d x =
          (if unat a \<le> unat x \<and> unat x < unat a + 4096 * length ps then Some (user_entry (ps ! ((unat x - unat a) div 4096)))
           else maps (ram s) d x))"

lemma grown_Nil: "pt_ok s d as \<Longrightarrow> grown d s as a [] s as"
  by (auto simp: grown_def pt_step_refl)

lemma pt_pages_free: "set as \<subseteq> pt_pages s d as"
  by (auto simp: pt_pages_def)

lemma index_Cons:
  assumes "(m :: nat) + 4096 \<le> n"
  shows "(p # ps) ! ((n - m) div 4096) = ps ! ((n - (m + 4096)) div 4096)"
proof -
  obtain k where "n = m + 4096 + k"
    using assms nat_le_iff_add by auto
  then show ?thesis
    using div_add_self1 [of 4096 k] by simp
qed

lemma grown_Cons:
  assumes st: "pt_step d s (p # as) t1 as1" and as1: "set as1 \<subseteq> set as"
    and p: "p \<notin> pt_pages t1 d as1" "zero_page (ram t1) p"
    and m: "\<forall>x. maps (ram t1) d x = (if unat x div 4096 = unat a div 4096 then Some (user_entry p) else maps (ram s) d x)"
    and a: "aligned 4096 a" "unat (a + 4096) = unat a + 4096"
    and g: "grown d t1 as1 (a + 4096) ps t as'"
  shows "grown d s (p # as) a (p # ps) t as'"
proof -
  have g1: "pt_step d t1 as1 t as'" and g2: "distinct ps" "set ps \<subseteq> set as1" and g3: "set ps \<inter> pt_pages t d as' = {}"
    and g4: "\<And>q. q \<in> set ps \<Longrightarrow> zero_page (ram t) q"
    and g5: "\<And>x. maps (ram t) d x = (if unat (a + 4096) \<le> unat x \<and> unat x < unat (a + 4096) + 4096 * length ps
           then Some (user_entry (ps ! ((unat x - unat (a + 4096)) div 4096))) else maps (ram t1) d x)"
    using g unfolding grown_def by blast+
  have pn: "p \<notin> set ps"
    using g2(2) pt_pages_free [of as1 t1 d] p(1) by blast
  have pt: "p \<notin> pt_pages t d as'"
    using pt_stepD(3) [OF g1] p(1) by blast
  have z: "zero_page (ram t) p"
    using p pt_stepD(4) [OF g1] unfolding zero_page_def by metis
  have mp: "maps (ram t) d x = (if unat a \<le> unat x \<and> unat x < unat a + 4096 * length (p # ps)
      then Some (user_entry ((p # ps) ! ((unat x - unat a) div 4096))) else maps (ram s) d x)" for x
  proof (cases "unat a + 4096 \<le> unat x")
    case True
    then show ?thesis
      unfolding g5 [of x] a(2) index_Cons [OF True] using m same_page_bounds(1) [OF a(1), of x] by auto
  next
    case False
    then have "(unat x - unat a) div 4096 = 0"
      by simp
    then show ?thesis
      unfolding g5 [of x] a(2) using m same_page_bounds(1) [OF a(1), of x] False by auto
  qed
  have sub: "set (p # ps) \<subseteq> set (p # as)" "set (p # ps) \<inter> pt_pages t d as' = {}" "distinct (p # ps)"
    "\<forall>q \<in> set (p # ps). zero_page (ram t) q"
    using g2 g3 g4 pn pt z as1 by auto
  show ?thesis
    unfolding grown_def using pt_step_trans [OF st g1] sub mp by (intro conjI allI)
qed


lemma allocuvm_loop_step:
  assumes ok: "pt_ok s d (p # as)" and as: "as \<noteq> []" and a: "aligned 4096 a" "a < newsz" "newsz < KERNBASE"
    and none: "maps (ram s) d a = None"
  obtains t as' where "allocuvm_loop d a oldsz newsz s = allocuvm_loop d (a + 4096) oldsz newsz t"
    "pt_step d s (p # as) t as'" "set as' \<subseteq> set as" "length as \<le> Suc (length as')" "p \<notin> pt_pages t d as'" "zero_page (ram t) p"
    "\<forall>x. maps (ram t) d x = (if unat x div 4096 = unat a div 4096 then Some (user_entry p) else maps (ram s) d x)"
proof -
  note tp = take_page [OF ok refl]
  obtain t as' where m: "mappages d a PGSIZE (V2P p) (PTE_W OR PTE_U) (s\<lparr>freelist := ld32 (ram s) p, ram := fill (ram s) p 4096 0\<rparr>) = Ret 0 t"
    and t: "pt_ok t d as'" "set as' \<subseteq> set as" "length as \<le> Suc (length as')" "pt_pages t d as' \<subseteq> pt_pages s d (p # as) - {p}" "zero_page (ram t) p"
    and mp: "\<forall>x. maps (ram t) d x = (if unat x div 4096 = unat a div 4096 then Some (user_entry p) else maps (ram s) d x)"
    and fr: "\<forall>y. PGROUNDDOWN y \<notin> pt_pages s d (p # as) \<longrightarrow> ram t y = ram s y"
    using alloc_one [OF ok as a(1) none] by (elim exE conjE)
  have st: "pt_step d s (p # as) t as'"
    unfolding pt_step_def using t(1) fr subset_trans [OF t(2) set_subset_Cons] subset_trans [OF t(4) Diff_subset] by (intro conjI)
  have p: "p \<notin> pt_pages t d as'"
    using subsetD [OF t(4), of p] by blast
  have "allocuvm_loop d a oldsz newsz s = allocuvm_loop d (a + 4096) oldsz newsz t"
    using a(2,3) tp(2) m by (subst allocuvm_loop.simps) (simp add: tp(1) memset_fill)
  then show thesis
    using st t(2,3) p t(5) mp by (rule that)
qed

lemma allocuvm_loop_fresh:
  assumes "pt_ok s d as" "aligned 4096 a" "newsz < KERNBASE" "unat newsz \<le> unat a + 4096 * n"
    "0 < n \<Longrightarrow> unat a + 4096 * n < unat newsz + 4096" "2 * n \<le> length as"
    "\<And>x. unat a \<le> unat x \<Longrightarrow> unat x < unat a + 4096 * n \<Longrightarrow> maps (ram s) d x = None"
  shows "\<exists>t as' ps. allocuvm_loop d a oldsz newsz s = Ret None t \<and> length ps = n \<and> grown d s as a ps t as'"
  using assms
proof (induction n arbitrary: s as a)
  case 0
  then have "\<not> a < newsz"
    by (simp add: word_less_nat_alt)
  then have "allocuvm_loop d a oldsz newsz s = Ret None s"
    by (subst allocuvm_loop.simps) simp
  then show ?case
    using grown_Nil [OF 0(1), of a] by (intro exI [of _ s] exI [of _ as] exI [of _ "[]"]) simp
next
  case (Suc n)
  obtain p as1 where as: "as = p # as1" "as1 \<noteq> []"
    using Suc.prems(6) by (cases as; cases "tl as") auto
  have lt: "unat a < unat newsz" "unat newsz < 2147483648"
    using Suc.prems(3,5) by (simp_all add: word_less_nat_alt)
  then have lt': "a < newsz" and a: "unat (a + 4096) = unat a + 4096"
    using unat_add_cases [of a 4096] by (auto simp: word_less_nat_alt)
  then have al: "aligned 4096 (a + 4096)"
    using Suc.prems(2) by (simp add: aligned_def)
  have none: "maps (ram s) d a = None"
    using Suc.prems(7) [of a] by simp
  obtain t as' where l: "allocuvm_loop d a oldsz newsz s = allocuvm_loop d (a + 4096) oldsz newsz t"
    and st: "pt_step d s (p # as1) t as'" "set as' \<subseteq> set as1" "length as1 \<le> Suc (length as')" "p \<notin> pt_pages t d as'" "zero_page (ram t) p"
    and mp: "\<forall>x. maps (ram t) d x = (if unat x div 4096 = unat a div 4096 then Some (user_entry p) else maps (ram s) d x)"
    by (rule allocuvm_loop_step [OF Suc.prems(1) [unfolded as(1)] as(2) Suc.prems(2) lt' Suc.prems(3) none])
  have pre: "maps (ram t) d x = None" if "unat (a + 4096) \<le> unat x" "unat x < unat (a + 4096) + 4096 * n" for x
    using mp same_page_bounds(1) [OF Suc.prems(2), of x] that a Suc.prems(7) [of x] by simp
  have len: "2 * n \<le> length as'"
    using Suc.prems(6) st(3) as(1) by simp
  have up: "unat newsz \<le> unat (a + 4096) + 4096 * n" "0 < n \<Longrightarrow> unat (a + 4096) + 4096 * n < unat newsz + 4096"
    using Suc.prems(4,5) a by simp_all
  obtain u as2 ps where r: "allocuvm_loop d (a + 4096) oldsz newsz t = Ret None u" "length ps = n"
    and g: "grown d t as' (a + 4096) ps u as2"
    using Suc.IH [OF pt_stepD(1) [OF st(1)] al Suc.prems(3) up len pre] by blast
  have "grown d s as a (p # ps) u as2"
    unfolding as(1) by (rule grown_Cons [OF st(1,2,4,5) mp Suc.prems(2) a g])
  then show ?case
    using l r by (intro exI [of _ u] exI [of _ as2] exI [of _ "p # ps"]) simp
qed


lemma new_pages_count:
  assumes "oldsz \<le> newsz" "newsz < KERNBASE"
  obtains n where "unat (PGROUNDUP newsz) = unat (PGROUNDUP oldsz) + 4096 * n"
    "unat newsz \<le> unat (PGROUNDUP oldsz) + 4096 * n" "0 < n \<Longrightarrow> unat (PGROUNDUP oldsz) + 4096 * n < unat newsz + 4096"
proof -
  define u v where "u = (unat oldsz + 4095) div 4096" and "v = (unat newsz + 4095) div 4096"
  have b: "unat oldsz \<le> unat newsz" "unat newsz < 2147483648"
    using assms by (simp_all add: word_le_nat_alt word_less_nat_alt)
  then have e: "unat (PGROUNDUP oldsz) = 4096 * u" "unat (PGROUNDUP newsz) = 4096 * v" and "u \<le> v"
    using unat_PGROUNDUP [of oldsz] unat_PGROUNDUP [of newsz] by (auto simp: u_def v_def intro: div_le_mono)
  moreover have "unat newsz \<le> 4096 * v" "4096 * v < unat newsz + 4096"
    using mult_div_mod_eq [of 4096 "unat newsz + 4095"] mod_less_divisor [of 4096 "unat newsz + 4095"]
    unfolding v_def by linarith+
  ultimately show thesis
    by (intro that [of "v - u"]) (simp_all add: e diff_mult_distrib2)
qed

text \<open>C11 (functional). \<^verbatim>\<open>allocuvm\<close> gives a process fresh memory. When the addresses it grows over are unmapped and
  two free pages are there for each page it needs, one for the page and at most one for its table, it returns the new
  size. Then page by page the new range is mapped, writable and open to the user, to pages that were free, that are all
  different, that hold zeros and that are neither tables nor free any more. No other address changes what it is mapped
  to, and no byte outside the tables and the pages that were free is written.\<close>

theorem allocuvm_maps_fresh_pages:
  assumes "pt_ok s d as" "oldsz \<le> newsz" "newsz < KERNBASE"
    and "\<And>x. PGROUNDUP oldsz \<le> x \<Longrightarrow> x < PGROUNDUP newsz \<Longrightarrow> maps (ram s) d x = None"
    and "2 * (unat (PGROUNDUP newsz) - unat (PGROUNDUP oldsz)) \<le> 4096 * length as"
  shows "\<exists>t as' ps. allocuvm d oldsz newsz s = Ret newsz t
    \<and> 4096 * length ps = unat (PGROUNDUP newsz) - unat (PGROUNDUP oldsz)
    \<and> grown d s as (PGROUNDUP oldsz) ps t as'"
proof -
  obtain n where n: "unat (PGROUNDUP newsz) = unat (PGROUNDUP oldsz) + 4096 * n"
    "unat newsz \<le> unat (PGROUNDUP oldsz) + 4096 * n" "0 < n \<Longrightarrow> unat (PGROUNDUP oldsz) + 4096 * n < unat newsz + 4096"
    using new_pages_count [OF assms(2,3)] by metis
  have none: "maps (ram s) d x = None" if "unat (PGROUNDUP oldsz) \<le> unat x" "unat x < unat (PGROUNDUP oldsz) + 4096 * n" for x
    using assms(4) [of x] that n(1) by (simp add: word_le_nat_alt word_less_nat_alt)
  have len: "2 * n \<le> length as"
    using assms(5) n(1) by simp
  obtain t as' ps where l: "allocuvm_loop d (PGROUNDUP oldsz) oldsz newsz s = Ret None t" "length ps = n"
    and g: "grown d s as (PGROUNDUP oldsz) ps t as'"
    using allocuvm_loop_fresh [OF assms(1) aligned_PGROUNDDOWN(2) assms(3) n(2,3) len none, of oldsz] by blast
  have "allocuvm d oldsz newsz s = Ret newsz t"
    using assms(2,3) l(1) by (simp add: allocuvm_def not_le [symmetric])
  then show ?thesis
    using l(2) g n(1) by (intro exI [of _ t] exI [of _ as'] exI [of _ ps]) simp
qed

text \<open>A page directory without entries and two free pages.\<close>

definition vm0 :: kvm where
  "vm0 = machine.extend boot_machine
     \<lparr>ram = st32 (\<lambda>_. 0) 0x80400000 0x80401000, kend = 0x80110000, use_lock = True, freelist = 0x80400000,
      kdata = 0x80108000, kpgdir = 0, gdtr = None, ts_addr = \<lambda>_. 0, klog = []\<rparr>"

lemma mach_vm0 [simp]: "mach vm0 = boot_machine"
  by (rule machine.equality) (simp_all add: vm0_def machine.defs boot_machine_def)

lemma vm0_sel [simp]:
  "ram vm0 = st32 (\<lambda>_. 0) 0x80400000 0x80401000" "kend vm0 = 0x80110000" "use_lock vm0" "freelist vm0 = 0x80400000"
  by (simp_all add: vm0_def machine.defs boot_machine_def)

lemma vm0_page: "same_off_page 0x80400000 (\<lambda>_. 0) (ram vm0)"
  using same_off_page_st32_entry [of 0 "0x80400000" "\<lambda>_. 0" "0x80401000"] by simp

lemma vm0_entry:
  assumes "aligned 4096 p" "p \<noteq> 0x80400000" "unat i < 1024"
  shows "ld32 (ram vm0) (p + 4 * i) = 0"
  using same_off_page_entry [OF vm0_page assms(1) _ assms(2,3)] by (simp add: ld32_def aligned_def)

lemma vm0_empty: "unat i < 1024 \<Longrightarrow> \<not> present (pde_at (ram vm0) 0x80402000 i)"
  using vm0_entry [of "0x80402000" i] by (simp add: pde_at_def present_def aligned_def del: vm0_sel(1))

lemma vm0_ok: "pt_ok vm0 0x80402000 [0x80400000, 0x80401000]"
proof -
  have "ld32 (ram vm0) 0x80400000 = 0x80401000" "ld32 (ram vm0) 0x80401000 = 0"
    using vm0_entry [of "0x80401000" 0] by (simp_all add: aligned_def)
  then have "avail vm0 [0x80400000, 0x80401000]"
    by (simp add: avail_def page_ok_def aligned_def V2P_def del: vm0_sel(1))
  then show ?thesis
    using vm0_empty by (simp add: pt_ok_def aligned_def del: vm0_sel(1))
qed

lemma vm0_maps: "maps (ram vm0) 0x80402000 x = None"
  using vm0_empty [of "PDX x"] index_bounds by (simp add: maps_def del: vm0_sel(1))

theorem allocuvm_maps_fresh_pages_witness:
  "pt_ok vm0 0x80402000 [0x80400000, 0x80401000] \<and>
   (\<exists>t as' p. allocuvm 0x80402000 0 5 vm0 = Ret 5 t \<and> p \<in> {0x80400000, 0x80401000}
      \<and> zero_page (ram t) p \<and> maps (ram t) 0x80402000 0x123 = Some (user_entry p)
      \<and> maps (ram t) 0x80402000 0x1000 = None \<and> pt_ok t 0x80402000 as')"
proof -
  have u: "PGROUNDUP 0 = 0" "PGROUNDUP 5 = 0x1000"
    by (simp_all add: PGROUNDUP_def)
  obtain t as' ps where a: "allocuvm 0x80402000 0 5 vm0 = Ret 5 t" and l: "length ps = 1"
    and g: "grown 0x80402000 vm0 [0x80400000, 0x80401000] 0 ps t as'"
    using allocuvm_maps_fresh_pages [of vm0 "0x80402000" "[0x80400000, 0x80401000]" 0 5] vm0_ok vm0_maps
    by (auto simp: u simp del: vm0_sel(1))
  obtain p where p: "ps = [p]"
    using l by (cases ps) auto
  have m: "maps (ram t) 0x80402000 0x123 = Some (user_entry p)" "maps (ram t) 0x80402000 0x1000 = None"
    using g vm0_maps unfolding grown_def p by (simp_all del: vm0_sel(1))
  have "p \<in> {0x80400000, 0x80401000}" "zero_page (ram t) p" "pt_ok t 0x80402000 as'"
    using g unfolding grown_def p by (auto dest: pt_stepD(1))
  then show ?thesis
    using vm0_ok a m by blast
qed

end
