(* ===== verification/Ulib.thy ===== *)
theory Ulib
  imports Prelude
begin

section \<open>The user library (ulib.c, printf.c)\<close>

text \<open>
  The C library that the user programs are linked with. A string is the list of its characters up to the
  terminating NUL, a pointer into it the rest of the list; a buffer that may hold NULs is a list of characters in
  which the functions stop at the first NUL, as the loops of the code do. An \<^verbatim>\<open>int\<close> is a 32-bit word.
\<close>

abbreviation NUL :: char where "NUL \<equiv> CHR 0x00"
abbreviation NL :: char where "NL \<equiv> CHR 0x0A"
abbreviation CR :: char where "CR \<equiv> CHR 0x0D"

subsection \<open>ulib.c\<close>

text \<open>\<^verbatim>\<open>strchr\<close> as the offset of the character it points to.\<close>

fun strchr :: "string \<Rightarrow> char \<Rightarrow> nat option" where
  "strchr [] c = None"
| "strchr (x # s) c = (if x = NUL then None else if x = c then Some 0 else map_option Suc (strchr s c))"

fun strcmp :: "string \<Rightarrow> string \<Rightarrow> int" where
  "strcmp (x # p) (y # q) = (if x = y then strcmp p q else of_char x - of_char y)"
| "strcmp (x # p) [] = of_char x"
| "strcmp [] (y # q) = - of_char y"
| "strcmp [] [] = 0"

fun atoi_loop :: "u32 \<Rightarrow> string \<Rightarrow> u32" where
  "atoi_loop n [] = n"
| "atoi_loop n (c # s) =
     (if 48 \<le> (of_char c :: nat) \<and> (of_char c :: nat) \<le> 57 then atoi_loop (n * 10 + of_char c - 48) s else n)"

definition atoi :: "string \<Rightarrow> u32" where
  "atoi s = atoi_loop 0 s"

text \<open>
  \<^verbatim>\<open>gets\<close>, given the characters that its reads of descriptor 0 return one by one: the line it leaves in the
  buffer and the characters it has not read. The counter is the room \<^verbatim>\<open>max - 1 - i\<close> that is left.
\<close>

fun gets_loop :: "nat \<Rightarrow> string \<Rightarrow> string \<times> string" where
  "gets_loop 0 inp = ([], inp)"
| "gets_loop (Suc k) [] = ([], [])"
| "gets_loop (Suc k) (c # inp) =
     (if c = NL \<or> c = CR then ([c], inp)
      else let (l, r) = gets_loop k inp in (c # l, r))"

definition gets :: "nat \<Rightarrow> string \<Rightarrow> string \<times> string" where
  "gets mx inp = gets_loop (mx - 1) inp"

subsection \<open>printf.c\<close>

text \<open>The digits of \<open>x\<close>, least significant first, as the do-while loop leaves them in \<^verbatim>\<open>buf\<close>.\<close>

definition udigit :: "nat \<Rightarrow> char" where
  "udigit d = ''0123456789ABCDEF'' ! d"

function udigits :: "nat \<Rightarrow> nat \<Rightarrow> string" where
  "udigits base x =
     (if x div base = 0 \<or> base < 2 then [udigit (x mod base)]
      else udigit (x mod base) # udigits base (x div base))"
  by pat_completeness auto
termination
proof (relation "measure snd", goal_cases)
  case (2 base x)
  then have "0 < x"
    by (cases "x = 0") auto
  then show ?case
    using 2 by simp
qed simp

declare udigits.simps [simp del]

text \<open>What \<^verbatim>\<open>printint\<close> writes to its descriptor.\<close>

definition uprintint :: "u32 \<Rightarrow> nat \<Rightarrow> bool \<Rightarrow> string" where
  "uprintint xx base sg =
     (let neg = sg \<and> sint xx < 0;
          x = (if neg then - xx else xx)
      in rev (udigits base (unat x) @ (if neg then ''-'' else [])))"

text \<open>The arguments on the stack: numbers, and strings that may be null.\<close>

datatype uarg = UNum u32 | UStr "string option"

text \<open>
  \<^verbatim>\<open>printf\<close>, as the characters it writes; \<open>None\<close> when it reads an argument that was not passed or one of the
  other sort, which C leaves undefined.
\<close>

fun uprintf :: "string \<Rightarrow> uarg list \<Rightarrow> string option" where
  "uprintf [] args = Some []"
| "uprintf [c] args = (if c = CHR ''%'' then Some [] else Some [c])"
| "uprintf (c # d # fmt) args =
     (if c \<noteq> CHR ''%'' then map_option ((#) c) (uprintf (d # fmt) args)
      else if d = CHR ''d'' then
        (case args of UNum n # as \<Rightarrow> map_option ((@) (uprintint n 10 True)) (uprintf fmt as) | _ \<Rightarrow> None)
      else if d = CHR ''x'' \<or> d = CHR ''p'' then
        (case args of UNum n # as \<Rightarrow> map_option ((@) (uprintint n 16 False)) (uprintf fmt as) | _ \<Rightarrow> None)
      else if d = CHR ''s'' then
        (case args of
           UStr so # as \<Rightarrow> map_option ((@) (case so of None \<Rightarrow> ''(null)'' | Some t \<Rightarrow> t)) (uprintf fmt as)
         | UNum n # as \<Rightarrow> (if n = 0 then map_option ((@) ''(null)'') (uprintf fmt as) else None)
         | [] \<Rightarrow> None)
      else if d = CHR ''c'' then
        (case args of UNum n # as \<Rightarrow> map_option ((#) (char_of (unat n))) (uprintf fmt as) | _ \<Rightarrow> None)
      else if d = CHR ''%'' then map_option ((#) d) (uprintf fmt args)
      else map_option (\<lambda>out. CHR ''%'' # d # out) (uprintf fmt args))"

subsection \<open>Strings\<close>

lemma strchr_None: "NUL \<notin> set s \<Longrightarrow> strchr s c = None \<longleftrightarrow> c \<notin> set s"
  by (induction s) auto

lemma strchr_SomeD:
  "strchr s c = Some i \<Longrightarrow> i < length s \<and> s ! i = c \<and> c \<notin> set (take i s) \<and> NUL \<notin> set (take i s)"
proof (induction s arbitrary: i)
  case (Cons x s)
  then show ?case
    by (cases i) (auto split: if_splits)
qed simp

lemma of_char_0 [simp]: "(of_char c :: int) = 0 \<longleftrightarrow> c = NUL"
  using of_char_eq_iff [where 'a = int, of c NUL] by simp

lemma strcmp_eq_0: "NUL \<notin> set p \<Longrightarrow> NUL \<notin> set q \<Longrightarrow> strcmp p q = 0 \<longleftrightarrow> p = q"
  by (induction p q rule: strcmp.induct) auto

subsection \<open>Numbers\<close>

definition is_digit :: "char \<Rightarrow> bool" where
  "is_digit c \<longleftrightarrow> 48 \<le> (of_char c :: nat) \<and> (of_char c :: nat) \<le> 57"

lemma atoi_loop_digit: "is_digit c \<Longrightarrow> atoi_loop n (c # s) = atoi_loop (n * 10 + of_char c - 48) s"
  by (simp add: is_digit_def)

lemma atoi_loop_append:
  "list_all is_digit s \<Longrightarrow> atoi_loop n (s @ t) = atoi_loop (atoi_loop n s) t"
  by (induction s arbitrary: n) (simp_all add: atoi_loop_digit del: atoi_loop.simps(2))

lemma udigit_simps:
  assumes "d < 10"
  shows "is_digit (udigit d)" "(of_char (udigit d) :: u32) = word_of_nat d + 48"
proof -
  have "d = 0 \<or> d = 1 \<or> d = 2 \<or> d = 3 \<or> d = 4 \<or> d = 5 \<or> d = 6 \<or> d = 7 \<or> d = 8 \<or> d = 9"
    using assms by arith
  then show "is_digit (udigit d)" "(of_char (udigit d) :: u32) = word_of_nat d + 48"
    by (auto simp: udigit_def is_digit_def)
qed

lemma udigits_10:
  "list_all is_digit (rev (udigits 10 x)) \<and> atoi_loop 0 (rev (udigits 10 x)) = word_of_nat x"
proof (induction x rule: less_induct)
  case (less x)
  have e: "udigits 10 x = udigit (x mod 10) # (if x div 10 = 0 then [] else udigits 10 (x div 10))"
    by (subst udigits.simps) simp
  show ?case
  proof (cases "x div 10 = 0")
    case True
    then show ?thesis
      using udigit_simps [of "x mod 10"] by (simp add: e atoi_loop_digit del: atoi_loop.simps(2))
  next
    case False
    have ih: "list_all is_digit (rev (udigits 10 (x div 10)))"
        "atoi_loop 0 (rev (udigits 10 (x div 10))) = word_of_nat (x div 10)"
      using less.IH [of "x div 10"] False by simp_all
    have "(word_of_nat (x div 10) :: u32) * 10 + word_of_nat (x mod 10) = word_of_nat (x div 10 * 10 + x mod 10)"
      by (simp only: of_nat_add of_nat_mult of_nat_numeral)
    then show ?thesis
      using ih udigit_simps [of "x mod 10"] False
      by (simp add: e atoi_loop_append atoi_loop_digit del: atoi_loop.simps(2))
  qed
qed

text \<open>\<^verbatim>\<open>atoi\<close> reads back what \<^verbatim>\<open>printint\<close> writes in base ten, for every 32-bit number: the number
  itself, signed or not, except that the minus sign of a negative number makes \<^verbatim>\<open>atoi\<close> stop at once and return 0,
  because it knows no sign.\<close>

theorem atoi_reads_printint:
  "atoi (uprintint n 10 sg) = (if sg \<and> sint n < 0 then 0 else n)"
  using udigits_10 [of "unat n"] by (simp add: atoi_def uprintint_def Let_def)

end
