(* ===== verification/Grep.thy ===== *)
theory Grep
  imports Ulib
begin

section \<open>Searching text (grep.c)\<close>

text \<open>
  The pattern matcher and the loop that reads a descriptor and prints the lines that match. The reads are a
  parameter: \<open>rd n rest\<close> is what \<^verbatim>\<open>read\<close> returns when it is asked for \<open>n\<close> bytes and \<open>rest\<close> is still to come. A regular
  file gives all it is asked for (\<open>file_read\<close>); a pipe or the console may give less.
\<close>

subsection \<open>The matcher\<close>

function matchhere :: "string \<Rightarrow> string \<Rightarrow> bool" and matchstar :: "char \<Rightarrow> string \<Rightarrow> string \<Rightarrow> bool" where
  "matchhere re tx =
     (case re of
        [] \<Rightarrow> True
      | c # re' \<Rightarrow>
          (case re' of
             d # re'' \<Rightarrow>
               if d = CHR ''*'' then matchstar c re'' tx
               else (case tx of [] \<Rightarrow> False | x # tx' \<Rightarrow> (c = CHR ''.'' \<or> c = x) \<and> matchhere re' tx')
           | [] \<Rightarrow>
               if c = CHR ''$'' then tx = []
               else (case tx of [] \<Rightarrow> False | x # tx' \<Rightarrow> (c = CHR ''.'' \<or> c = x) \<and> matchhere re' tx')))"
| "matchstar c re tx =
     (matchhere re tx \<or>
      (case tx of [] \<Rightarrow> False | x # tx' \<Rightarrow> (x = c \<or> c = CHR ''.'') \<and> matchstar c re tx'))"
  by pat_completeness auto
termination
  by (relation "inv_image (less_than <*lex*> less_than <*lex*> less_than)
        (\<lambda>x. case x of Inl (re, tx) \<Rightarrow> (length re, length tx, 0)
                      | Inr (c, re, tx) \<Rightarrow> (length re, length tx, 1))") auto

declare matchhere.simps [simp del] matchstar.simps [simp del]

fun match_any :: "string \<Rightarrow> string \<Rightarrow> bool" where
  "match_any re [] = matchhere re []"
| "match_any re (x # tx) = (matchhere re (x # tx) \<or> match_any re tx)"

definition match :: "string \<Rightarrow> string \<Rightarrow> bool" where
  "match re tx = (case re of c # re' \<Rightarrow> if c = CHR ''^'' then matchhere re' tx else match_any re tx
                    | [] \<Rightarrow> match_any re tx)"

subsection \<open>The loop over the input\<close>

text \<open>
  The inner loop, from \<^verbatim>\<open>p\<close> to the end of what has been read: what it prints, and the rest that holds no newline.
\<close>

function grep_lines :: "string \<Rightarrow> string \<Rightarrow> string \<times> string" where
  "grep_lines pat p =
     (case strchr p NL of
        None \<Rightarrow> ([], p)
      | Some i \<Rightarrow>
          let (out, r) = grep_lines pat (drop (Suc i) p)
          in (if match pat (take i p) then take (Suc i) p @ out else out, r))"
  by pat_completeness auto
termination
  by (relation "measure (\<lambda>(_, p). length p)") (auto dest: strchr_SomeD)

declare grep_lines.simps [simp del]

text \<open>
  The outer loop: \<open>b\<close> is what the buffer of 1024 bytes holds (\<^verbatim>\<open>m\<close> of them), \<open>rest\<close> what is still to be read. The
  result is what is written to descriptor 1.
\<close>

function grep :: "(nat \<Rightarrow> string \<Rightarrow> int) \<Rightarrow> string \<Rightarrow> string \<Rightarrow> string \<Rightarrow> string" where
  "grep rd pat b rest =
     (let n = rd (1024 - length b - 1) rest in
      if n \<le> 0 \<or> rest = [] then []
      else
        let b = b @ take (nat n) rest;
            (out, p) = grep_lines pat b;
            b = (if length p = length b then [] else p)
        in out @ grep rd pat b (drop (nat n) rest))"
  by pat_completeness auto
termination
  by (relation "measure (\<lambda>(_, _, _, rest). length rest)") auto

declare grep.simps [simp del]

definition file_read :: "nat \<Rightarrow> string \<Rightarrow> int" where
  "file_read n rest = int (min n (length rest))"

subsection \<open>What a pattern means\<close>

text \<open>
  The language of a pattern, said without an algorithm: a star stands for any number of characters its atom matches.
\<close>

definition fits :: "char \<Rightarrow> char \<Rightarrow> bool" where
  "fits c x \<longleftrightarrow> c = CHR ''.'' \<or> c = x"

inductive denotes :: "string \<Rightarrow> string \<Rightarrow> string \<Rightarrow> bool" where
  denotes_nil: "denotes [] [] post"
| denotes_end: "denotes ''$'' [] []"
| denotes_star: "list_all (fits c) u \<Longrightarrow> denotes re w post \<Longrightarrow> denotes (c # CHR ''*'' # re) (u @ w) post"
| denotes_char: "fits c x \<Longrightarrow> \<not> (\<exists>re'. re = CHR ''*'' # re') \<Longrightarrow> \<not> (c = CHR ''$'' \<and> re = []) \<Longrightarrow>
    denotes re w post \<Longrightarrow> denotes (c # re) (x # w) post"


inductive_simps denotes_simps:
  "denotes [] w post"
  "denotes [c] w post"
  "denotes (c # d # re) w post"

lemma split_first:
  "(\<exists>w post. tx = w @ post \<and> (\<exists>x. w = [x] \<and> P x)) \<longleftrightarrow> (\<exists>x t. tx = x # t \<and> P x)"
  by (auto intro: exI [of _ "[_]"])

lemma denotes_last: "denotes [c] w post \<longleftrightarrow> (if c = CHR ''$'' then w = [] \<and> post = [] else \<exists>x. w = [x] \<and> fits c x)"
  by (auto simp: denotes_simps)

lemma split_star:
  "(\<exists>u v. x # t = u @ v \<and> list_all P u \<and> Q v) \<longleftrightarrow> Q (x # t) \<or> P x \<and> (\<exists>u v. t = u @ v \<and> list_all P u \<and> Q v)"
    (is "?l \<longleftrightarrow> ?r")
proof
  assume ?l
  then obtain u v where "x # t = u @ v" "list_all P u" "Q v"
    by blast
  then show ?r
    by (cases u) auto
next
  assume ?r
  then consider "Q (x # t)" | u v where "P x" "t = u @ v" "list_all P u" "Q v"
    by blast
  then show ?l
  proof cases
    case 1
    then show ?thesis
      by (intro exI [of _ "[]"] exI [of _ "x # t"]) simp
  next
    case 2
    then show ?thesis
      by (intro exI [of _ "x # u"] exI [of _ v]) simp
  qed
qed

lemma matcher_sound_complete:
  "matchhere re tx \<longleftrightarrow> (\<exists>w post. tx = w @ post \<and> denotes re w post)"
  "matchstar c re tx \<longleftrightarrow> (\<exists>u w post. tx = u @ w @ post \<and> list_all (fits c) u \<and> denotes re w post)"
proof (induction re tx and c re tx rule: matchhere_matchstar.induct)
  case (1 re tx)
  show ?case
  proof (cases re)
    case Nil
    then show ?thesis
      by (simp add: matchhere.simps denotes_simps)
  next
    case (Cons c re')
    show ?thesis
    proof (cases re')
      case Nil
      then show ?thesis
        using \<open>re = c # re'\<close> split_first [of tx "fits c"]
        by (cases tx) (simp_all add: matchhere.simps denotes_last fits_def cong: conj_cong)
    next
      case re': (Cons d re'')
      show ?thesis
      proof (cases "d = CHR ''*''")
        case True
        then show ?thesis
          using 1(2) [OF Cons re' True] Cons re'
          by (auto simp: matchhere.simps [of "_ # _ # _"] denotes_simps) (metis append.assoc)+
      next
        case False
        have "matchhere re' t \<longleftrightarrow> (\<exists>w post. t = w @ post \<and> denotes re' w post)" if "tx = x # t" for x t
          using 1(3) [OF Cons re' False that] by simp
        then show ?thesis
          using Cons re' False
          by (cases tx) (auto simp: matchhere.simps [of "_ # _ # _"] denotes_simps fits_def Cons_eq_append_conv)
      qed
    qed
  qed
next
  case (2 c re tx)
  let ?Q = "\<lambda>v. \<exists>w post. v = w @ post \<and> denotes re w post"
  have q: "(\<exists>u w post. t = u @ w @ post \<and> list_all (fits c) u \<and> denotes re w post) \<longleftrightarrow>
      (\<exists>u v. t = u @ v \<and> list_all (fits c) u \<and> ?Q v)" for t
    by blast
  show ?case
  proof (cases tx)
    case Nil
    then show ?thesis
      using 2(1) by (auto simp: matchstar.simps [of c re "[]"])
  next
    case (Cons x t)
    have "matchstar c re tx \<longleftrightarrow> matchhere re tx \<or> fits c x \<and> matchstar c re t"
      using Cons by (subst matchstar.simps) (auto simp: fits_def)
    moreover have "fits c x \<Longrightarrow> matchstar c re t \<longleftrightarrow> (\<exists>u v. t = u @ v \<and> list_all (fits c) u \<and> ?Q v)"
      using 2(2) [OF Cons] unfolding q by (auto simp: fits_def)
    ultimately show ?thesis
      using 2(1) unfolding q Cons split_star by blast
  qed
qed

lemma match_any_iff: "match_any re tx \<longleftrightarrow> (\<exists>pre t. tx = pre @ t \<and> matchhere re t)"
proof (induction tx)
  case (Cons x tx)
  then show ?case
    by (auto simp: Cons_eq_append_conv)
qed simp

text \<open>C38 (equivalence). The matcher finds exactly what the pattern means: \<^verbatim>\<open>match\<close> accepts a text if and only if some
  part of it is denoted by the pattern, the part being at the start when the pattern starts with a caret and at the
  end when it ends with a dollar sign. The recursion through \<^verbatim>\<open>matchhere\<close> and \<^verbatim>\<open>matchstar\<close> always ends.\<close>

theorem match_finds_pattern:
  "match re tx \<longleftrightarrow>
     (if \<exists>re'. re = CHR ''^'' # re' then \<exists>w post. tx = w @ post \<and> denotes (tl re) w post
      else \<exists>pre w post. tx = pre @ w @ post \<and> denotes re w post)"
  by (cases re) (auto simp: match_def match_any_iff matcher_sound_complete)


subsection \<open>What is printed\<close>

text \<open>The lines of a text that end in a newline, and what should be printed of them.\<close>

fun lines_of :: "string \<Rightarrow> string \<Rightarrow> string list" where
  "lines_of acc [] = []"
| "lines_of acc (c # s) = (if c = NL then acc # lines_of [] s else lines_of (acc @ [c]) s)"

definition matching :: "string \<Rightarrow> string list \<Rightarrow> string" where
  "matching pat ls = concat (map (\<lambda>l. l @ [NL]) (filter (match pat) ls))"

lemma matching_simps [simp]:
  "matching pat [] = []" "matching pat (ls @ ls') = matching pat ls @ matching pat ls'"
  "matching pat (l # ls) = (if match pat l then l @ NL # matching pat ls else matching pat ls)"
  by (simp_all add: matching_def)

lemma lines_of_fragment: "NL \<notin> set a \<Longrightarrow> lines_of acc (a @ s) = lines_of (acc @ a) s"
  by (induction a arbitrary: acc) auto

lemma lines_of_none: "NL \<notin> set s \<Longrightarrow> lines_of acc s = []"
  by (induction s arbitrary: acc) auto

lemma lines_of_long: "NL \<in> set s \<Longrightarrow> \<exists>l \<in> set (lines_of acc s). length acc \<le> length l"
proof (induction s arbitrary: acc)
  case (Cons c s)
  then show ?case
    using Cons.IH [of "acc @ [c]"] by (auto intro: Suc_leD)
qed simp

lemma grep_lines_spec:
  assumes "NUL \<notin> set p" "grep_lines pat p = (out, r)"
  shows "NL \<notin> set r \<and> set r \<subseteq> set p \<and> (NL \<in> set p \<longrightarrow> length r < length p) \<and> (NL \<notin> set p \<longrightarrow> r = p) \<and>
    (\<exists>ls. out = matching pat ls \<and> (\<forall>s. lines_of [] (p @ s) = ls @ lines_of [] (r @ s)))"
  using assms
proof (induction pat p arbitrary: out r rule: grep_lines.induct)
  case (1 pat p)
  show ?case
  proof (cases "strchr p NL")
    case None
    then have "out = []" "r = p"
      using 1(3) grep_lines.simps [of pat p] by simp_all
    then show ?thesis
      using 1(2) None strchr_None [of p NL] by (auto intro!: exI [of _ "[]"])
  next
    case (Some i)
    note i = strchr_SomeD [OF Some]
    have p: "p = take i p @ NL # drop (Suc i) p"
      using i id_take_nth_drop [of i p] by simp
    obtain o' r' where g: "grep_lines pat (drop (Suc i) p) = (o', r')"
      by (cases "grep_lines pat (drop (Suc i) p)")
    have "NUL \<notin> set (drop (Suc i) p)"
      using 1(2) by (auto dest: in_set_dropD)
    note ih = 1(1) [OF Some this g]
    have r': "NL \<notin> set r'" "set r' \<subseteq> set (drop (Suc i) p)"
        "NL \<in> set (drop (Suc i) p) \<longrightarrow> length r' < length (drop (Suc i) p)"
        "NL \<notin> set (drop (Suc i) p) \<longrightarrow> r' = drop (Suc i) p"
      using ih by blast+
    have "length r' \<le> length (drop (Suc i) p)"
      using r'(3,4) by (cases "NL \<in> set (drop (Suc i) p)") simp_all
    then have "length r' < length p"
      using i by (simp, linarith)
    from ih obtain ls where ls: "o' = matching pat ls" "\<And>s. lines_of [] (drop (Suc i) p @ s) = ls @ lines_of [] (r' @ s)"
      by blast
    have "grep_lines pat p = (if match pat (take i p) then take (Suc i) p @ o' else o', r')"
      using Some g by (subst grep_lines.simps) simp
    then have out: "out = matching pat (take i p # ls)" "r = r'"
      using 1(3) i ls(1) by (simp_all add: take_Suc_conv_app_nth)
    have lp: "\<forall>s. lines_of [] (p @ s) = (take i p # ls) @ lines_of [] (r @ s)"
    proof
      fix s
      show "lines_of [] (p @ s) = (take i p # ls) @ lines_of [] (r @ s)"
        using ls(2) [of s] i out(2) by (subst p) (simp add: lines_of_fragment)
    qed
    have sub: "length r < length p" "set r \<subseteq> set p" "NL \<in> set p" "NL \<notin> set r"
      using r'(1,2) \<open>length r' < length p\<close> out(2) i nth_mem [of i p] set_drop_subset [of "Suc i" p] by auto
    then show ?thesis
      using sub lp out(1) by blast
  qed
qed

lemma grep_file_lines:
  assumes "NUL \<notin> set (b @ rest)" "NL \<notin> set b" "length b < 1023" "\<forall>l \<in> set (lines_of [] (b @ rest)). length l < 1023"
  shows "grep file_read pat b rest = matching pat (lines_of [] (b @ rest))"
  using assms
proof (induction "length rest" arbitrary: b rest rule: less_induct)
  case less
  show ?case
  proof (cases "rest = []")
    case True
    then show ?thesis
      using less.prems by (subst grep.simps) (simp add: lines_of_none)
  next
    case False
    define n where "n = min (1023 - length b) (length rest)"
    have n: "0 < n" "n \<le> length rest" "length b + n \<le> 1023"
      using False less.prems(3) by (auto simp: n_def)
    let ?b = "b @ take n rest" and ?d = "drop n rest"
    obtain out r where g: "grep_lines pat ?b = (out, r)"
      by (cases "grep_lines pat ?b")
    have nul: "NUL \<notin> set ?b" "NUL \<notin> set ?d"
      using less.prems(1) by (auto dest: in_set_takeD in_set_dropD)
    note spec = grep_lines_spec [OF nul(1) g]
    have sp: "NL \<notin> set r" "set r \<subseteq> set ?b" "NL \<in> set ?b \<longrightarrow> length r < length ?b" "NL \<notin> set ?b \<longrightarrow> r = ?b"
      using spec by blast+
    from spec obtain ls where ls: "out = matching pat ls" "\<And>s. lines_of [] (?b @ s) = ls @ lines_of [] (r @ s)"
      by blast
    have all: "lines_of [] (b @ rest) = ls @ lines_of [] (r @ ?d)"
      using ls(2) [of ?d] by simp
    let ?b' = "if length r = length ?b then [] else r"
    have len: "length ?b' < 1023"
      using sp(3,4) n(3) by (cases "NL \<in> set ?b") (simp_all, linarith?)
    have same: "lines_of [] (?b' @ ?d) = lines_of [] (r @ ?d)"
    proof (cases "NL \<in> set ?b")
      case True
      then show ?thesis
        using sp by auto
    next
      case no: False
      have "NL \<notin> set ?d"
      proof (cases "n = length rest")
        case False
        then have len: "1023 \<le> length ?b"
          using n by (simp add: n_def)
        have l: "lines_of [] (b @ rest) = lines_of ?b ?d"
          using lines_of_fragment [OF no, of "[]" ?d] by simp
        show ?thesis
        proof
          assume "NL \<in> set ?d"
          then obtain l where "l \<in> set (lines_of ?b ?d)" "length ?b \<le> length l"
            using lines_of_long by blast
          then show False
            using less.prems(4) [rule_format, of l] len unfolding l by linarith
        qed
      qed simp
      then have none: "NL \<notin> set (?b' @ ?d)" "NL \<notin> set (r @ ?d)"
        using sp by auto
      show ?thesis
        unfolding lines_of_none [OF none(1)] lines_of_none [OF none(2)] ..
    qed
    have "file_read (1024 - length b - 1) rest = int n"
      by (simp add: file_read_def n_def)
    then have "grep file_read pat b rest = out @ grep file_read pat ?b' ?d"
      using False n(1) g by (subst grep.simps) (simp add: Let_def)
    also have "grep file_read pat ?b' ?d = matching pat (lines_of [] (?b' @ ?d))"
    proof (rule less.hyps)
      show "NUL \<notin> set (?b' @ ?d)"
        using nul sp by auto
      show "\<forall>l \<in> set (lines_of [] (?b' @ ?d)). length l < 1023"
        unfolding same using less.prems(4) all by simp
      show "NL \<notin> set ?b'"
        using sp by simp
      show "length ?d < length rest"
        using n by simp
    qed (rule len)
    finally show ?thesis
      unfolding all ls(1) same by simp
  qed
qed

text \<open>C39 (functional). On a regular file, whose reads return all they are asked for, \<^verbatim>\<open>grep\<close> prints exactly the lines that
  match, in order, each once: whatever way the lines fall into the buffer of 1024 bytes, as long as no line has more
  than 1022 characters and there are no NULs. A last line without a newline is not looked at.\<close>

theorem grep_prints_matching_lines:
  assumes "NUL \<notin> set contents" "\<forall>l \<in> set (lines_of [] contents). length l < 1023"
  shows "grep file_read pat [] contents = concat (map (\<lambda>l. l @ [NL]) (filter (match pat) (lines_of [] contents)))"
  using grep_file_lines [of "[]" contents pat] assms by (simp add: matching_def)

theorem grep_prints_matching_lines_witness:
  "grep file_read ''^a.*c$'' [] (''abc'' @ [NL] @ ''xabc'' @ [NL] @ ''ac'' @ [NL] @ ''abc'') = ''abc'' @ [NL] @ ''ac'' @ [NL]"
  using grep_prints_matching_lines [of "''abc'' @ [NL] @ ''xabc'' @ [NL] @ ''ac'' @ [NL] @ ''abc''" "''^a.*c$''"]
  by (simp add: match_def matchhere.simps matchstar.simps)

text \<open>C40 (error). On a pipe or the console, whose reads may return less than they are asked for, \<^verbatim>\<open>grep\<close> loses text: when a
  read brings no newline, the bytes it brought are dropped although the buffer has room for the rest of the line, and
  the search goes on as if the line began after them.\<close>

theorem grep_drops_partial_line:
  assumes "rd 1023 rest = int k" "0 < k" "k \<le> length rest" "NL \<notin> set (take k rest)" "NUL \<notin> set (take k rest)"
  shows "grep rd pat [] rest = grep rd pat [] (drop k rest)"
proof -
  have "strchr (take k rest) NL = None"
    using assms strchr_None by blast
  then have "grep_lines pat (take k rest) = ([], take k rest)"
    by (subst grep_lines.simps) simp
  then show ?thesis
    using assms by (subst grep.simps) (auto simp: Let_def)
qed

theorem grep_drops_partial_line_witness:
  "grep (\<lambda>n rest. int (min 3 (min n (length rest)))) ''hello'' [] (''hello'' @ [NL]) = []
   \<and> grep file_read ''hello'' [] (''hello'' @ [NL]) = ''hello'' @ [NL]"
proof
  let ?rd = "\<lambda>n rest. int (min 3 (min n (length rest)))"
  have "grep ?rd ''hello'' [] (''hello'' @ [NL]) = grep ?rd ''hello'' [] (''lo'' @ [NL])"
    using grep_drops_partial_line [of ?rd "''hello'' @ [NL]" 3 "''hello''"] by simp
  also have "\<dots> = []"
    by (simp add: grep.simps [of ?rd] grep_lines.simps match_def matchhere.simps)
  finally show "grep ?rd ''hello'' [] (''hello'' @ [NL]) = []" .
  show "grep file_read ''hello'' [] (''hello'' @ [NL]) = ''hello'' @ [NL]"
    by (simp add: grep.simps [of file_read] file_read_def grep_lines.simps match_def matchhere.simps)
qed

end
