(* ===== verification/Uthread.thy ===== *)
theory Uthread
  imports Cstring
begin

section \<open>User threads (uthread.c, ut_tcb.h, swtch.S)\<close>

text \<open>
  The thread library that runs inside one process: the table of eight threads, the round-robin scheduler, and the
  context switch of \<^verbatim>\<open>swtch.S\<close> with its stack frames in memory. The registers in the state are those of the running
  thread when it calls into the library; a call of \<^verbatim>\<open>swtch\<close> ends the outcome with \<open>Switch\<close>, in the state in which the
  other thread goes on. The table's address is what \<^verbatim>\<open>malloc\<close> returned.
\<close>

subsection \<open>The context switch\<close>

record uregs =
  r_ebp :: u32
  r_ebx :: u32
  r_esi :: u32
  r_edi :: u32
  r_esp :: u32
  r_eip :: u32

definition push32 :: "u32 \<Rightarrow> uregs \<times> mem \<Rightarrow> uregs \<times> mem" where
  "push32 v c = (case c of (r, m) \<Rightarrow> (r\<lparr>r_esp := r_esp r - 4\<rparr>, st32 m (r_esp r - 4) v))"

definition pop32 :: "uregs \<times> mem \<Rightarrow> u32 \<times> uregs \<times> mem" where
  "pop32 c = (case c of (r, m) \<Rightarrow> (ld32 m (r_esp r), r\<lparr>r_esp := r_esp r + 4\<rparr>, m))"

text \<open>
  \<^verbatim>\<open>swtch\<close> with the address of the new context; the stack pointer is at the return address that the call has
  pushed. The result is the address of the context it has saved, which it stores through \<^verbatim>\<open>old\<close>, and the machine.
\<close>

definition swtch :: "addr \<Rightarrow> uregs \<times> mem \<Rightarrow> addr \<times> uregs \<times> mem" where
  "swtch new c =
     (let c = push32 (r_ebp (fst c)) c;
          c = push32 (r_ebx (fst c)) c;
          c = push32 (r_esi (fst c)) c;
          c = push32 (r_edi (fst c)) c;
          old = r_esp (fst c);
          c = ((fst c)\<lparr>r_esp := new\<rparr>, snd c);
          (v, r, m) = pop32 c;
          (v, r, m) = pop32 (r\<lparr>r_edi := v\<rparr>, m);
          (v, r, m) = pop32 (r\<lparr>r_esi := v\<rparr>, m);
          (v, r, m) = pop32 (r\<lparr>r_ebx := v\<rparr>, m);
          (v, r, m) = pop32 (r\<lparr>r_ebp := v\<rparr>, m)
      in (old, r\<lparr>r_eip := v\<rparr>, m))"

subsection \<open>The table of threads\<close>

datatype tpcbstate = UT_UNUSED | UT_USED

record tpcb =
  utid :: int
  ut_context :: addr
  ut_state :: tpcbstate

abbreviation UT_COUNT :: nat where "UT_COUNT \<equiv> 8"

text \<open>\<open>ut_live\<close> is whether the table is allocated.\<close>

record uthreads =
  ut_table :: addr
  ut_live :: bool
  tpcbs :: "nat \<Rightarrow> tpcb"
  sched_index :: nat
  uthread_count :: int
  ut_tid :: int
  u_regs :: uregs
  u_ram :: mem

definition upd_tpcb :: "nat \<Rightarrow> (tpcb \<Rightarrow> tpcb) \<Rightarrow> uthreads \<Rightarrow> uthreads" where
  "upd_tpcb i f s = s\<lparr>tpcbs := (tpcbs s)(i := f (tpcbs s i))\<rparr>"

definition UT_Init :: "addr \<Rightarrow> uthreads \<Rightarrow> (int, uthreads) outcome" where
  "UT_Init p s =
     (let s = s\<lparr>ut_table := p\<rparr> in
      if p = 0 then Ret (-1) s
      else
        let s = s\<lparr>ut_live := True\<rparr>;
            s = fold (\<lambda>i. upd_tpcb i (\<lambda>t. t\<lparr>ut_state := UT_UNUSED, utid := -1\<rparr>)) [0..<UT_COUNT] s;
            s = upd_tpcb 0 (\<lambda>t. t\<lparr>ut_state := UT_USED, utid := ut_tid s\<rparr>) s;
            s = s\<lparr>ut_tid := ut_tid s + 1, uthread_count := 1, sched_index := 1\<rparr>
        in Ret 0 s)"

text \<open>
  A table entry takes 16396 bytes: the id, 4096 words of stack, the context pointer and the state. The last
  word of the stack of thread \<open>i\<close>, where \<^verbatim>\<open>UT_Create\<close> starts to fill it:
\<close>

definition ut_stack_top :: "nat \<Rightarrow> uthreads \<Rightarrow> addr" where
  "ut_stack_top i s = ut_table s + 16396 * word_of_nat i + 4 + 4 * 4095"

definition UT_Create :: "addr \<Rightarrow> addr \<Rightarrow> uthreads \<Rightarrow> (int, uthreads) outcome" where
  "UT_Create fnc arg s =
     (case find (\<lambda>i. ut_state (tpcbs s i) = UT_UNUSED) [0..<UT_COUNT] of
        None \<Rightarrow> Ret (-1) s
      | Some i \<Rightarrow>
          let n = ut_tid s;
              s = upd_tpcb i (\<lambda>t. t\<lparr>ut_state := UT_USED, utid := n\<rparr>) s;
              s = s\<lparr>ut_tid := n + 1\<rparr>;
              sp = ut_stack_top i s - 2 * 4;
              m = st32 (st32 (u_ram s) sp 0xffffffff) (sp + 4) arg;
              sp = sp - 20;
              s = upd_tpcb i (\<lambda>t. t\<lparr>ut_context := sp\<rparr>) s;
              m = stosb m sp 0 20;
              m = st32 m (sp + 16) fnc;
              m = st32 m (sp + 12) (sp + 16 + 4);
              s = s\<lparr>u_ram := m, uthread_count := uthread_count s + 1\<rparr>
          in Ret n s)"

definition increment_sched_index :: "nat \<Rightarrow> nat" where
  "increment_sched_index i = (if i = UT_COUNT - 1 then 0 else i + 1)"

definition ut_current :: "uthreads \<Rightarrow> nat" where
  "ut_current s = (if sched_index s = 0 then UT_COUNT - 1 else sched_index s - 1)"

text \<open>The loop of the scheduler, from the entry at \<^verbatim>\<open>sched_index\<close>: the entry it stops at. It may run forever.\<close>

partial_function (option) ut_scan :: "(nat \<Rightarrow> tpcb) \<Rightarrow> nat \<Rightarrow> nat option" where
  "ut_scan T i = (if ut_state (T i) = UT_USED then Some i else ut_scan T (increment_sched_index i))"

definition UT_Scheduler :: "uthreads \<Rightarrow> (unit, uthreads) outcome" where
  "UT_Scheduler s =
     (if uthread_count s = 1 \<and> sched_index s = 1 then Ret () s
      else
        let cur = ut_current s in
        case ut_scan (tpcbs s) (sched_index s) of
          None \<Rightarrow> Diverge
        | Some t \<Rightarrow>
            let s = s\<lparr>sched_index := increment_sched_index t\<rparr>;
                (old, r, m) = swtch (ut_context (tpcbs s t)) (u_regs s, u_ram s);
                s = upd_tpcb cur (\<lambda>q. q\<lparr>ut_context := old\<rparr>) s
            in Switch (s\<lparr>u_regs := r, u_ram := m\<rparr>))"

definition UT_yield :: "uthreads \<Rightarrow> (unit, uthreads) outcome" where
  "UT_yield s = UT_Scheduler s"

text \<open>The loop of \<^verbatim>\<open>UT_shutdown\<close>, which is also where the root thread goes on when it is resumed in it.\<close>

definition UT_shutdown_loop :: "uthreads \<Rightarrow> (int, uthreads) outcome" where
  "UT_shutdown_loop s =
     (if uthread_count s \<noteq> 1 then seq (UT_yield s) (\<lambda>_ s. Diverge)
      else Ret 0 (s\<lparr>ut_live := False\<rparr>))"

definition UT_shutdown :: "uthreads \<Rightarrow> (int, uthreads) outcome" where
  "UT_shutdown s = (if sched_index s = 1 then UT_shutdown_loop s else Ret (-1) s)"

definition UT_exit :: "uthreads \<Rightarrow> (unit, uthreads) outcome" where
  "UT_exit s =
     seq (UT_shutdown s) (\<lambda>r s.
       if r = 0 then Ret () s
       else
         let s = upd_tpcb (ut_current s) (\<lambda>t. t\<lparr>ut_state := UT_UNUSED\<rparr>) s;
             s = s\<lparr>uthread_count := uthread_count s - 1\<rparr>
         in UT_Scheduler s)"


subsection \<open>The scheduler finds the next thread\<close>

definition ut_used :: "(nat \<Rightarrow> tpcb) \<Rightarrow> nat \<Rightarrow> bool" where
  "ut_used T i \<longleftrightarrow> ut_state (T i) = UT_USED"

text \<open>The entries in the order in which the scheduler looks at them.\<close>

definition ut_order :: "nat \<Rightarrow> nat list" where
  "ut_order i = [i..<UT_COUNT] @ [0..<i]"

lemma set_ut_order: "i < UT_COUNT \<Longrightarrow> set (ut_order i) = {0..<UT_COUNT}"
  by (auto simp: ut_order_def)

lemma distinct_ut_order: "distinct (ut_order i)"
  by (auto simp: ut_order_def)

lemma ut_scan_to_end:
  "i < UT_COUNT \<Longrightarrow> ut_scan T i = (case find (ut_used T) [i..<UT_COUNT] of Some t \<Rightarrow> Some t | None \<Rightarrow> ut_scan T 0)"
proof (induction "UT_COUNT - i" arbitrary: i)
  case (Suc n)
  have s: "ut_scan T i = (if ut_used T i then Some i else ut_scan T (increment_sched_index i))"
    by (subst ut_scan.simps) (simp add: ut_used_def)
  have u: "[i..<UT_COUNT] = i # [Suc i..<UT_COUNT]"
    using Suc.prems by (simp add: upt_conv_Cons)
  show ?case
  proof (cases "i = UT_COUNT - 1")
    case True
    then show ?thesis
      unfolding s u by (simp add: increment_sched_index_def)
  next
    case False
    then show ?thesis
      using Suc.hyps(1) [of "Suc i"] Suc.hyps(2) Suc.prems unfolding s u by (simp add: increment_sched_index_def)
  qed
qed simp

lemma ut_scan_find:
  assumes "i < UT_COUNT" "\<exists>j < UT_COUNT. ut_used T j"
  shows "ut_scan T i = find (ut_used T) (ut_order i)"
proof -
  have "find (ut_used T) [0..<UT_COUNT] \<noteq> None"
    using assms(2) unfolding find_None_iff by auto
  then have z: "ut_scan T 0 = find (ut_used T) ([0..<i] @ [i..<UT_COUNT])"
    using ut_scan_to_end [of 0 T] upt_add_eq_append [of 0 i "UT_COUNT - i"] assms(1) by (auto split: option.splits)
  show ?thesis
  proof (cases "find (ut_used T) [i..<UT_COUNT]")
    case None
    then show ?thesis
      using ut_scan_to_end [OF assms(1), of T] z
      by (auto simp: ut_order_def find_append split: option.splits)
  next
    case (Some t)
    then show ?thesis
      using ut_scan_to_end [OF assms(1), of T] by (simp add: ut_order_def find_append)
  qed
qed

lemma ut_order_split:
  assumes "i < UT_COUNT" "t < UT_COUNT"
  shows "\<exists>pre post. ut_order i = pre @ t # post \<and> ut_order (increment_sched_index t) = post @ pre @ [t]"
proof -
  have n: "ut_order (increment_sched_index t) = [Suc t..<UT_COUNT] @ [0..<t] @ [t]"
    using assms(2) upt_Suc_append [of 0 7] by (auto simp: ut_order_def increment_sched_index_def)
  show ?thesis
  proof (cases "i \<le> t")
    case True
    have "[i..<UT_COUNT] = [i..<t] @ t # [Suc t..<UT_COUNT]" "[0..<t] = [0..<i] @ [i..<t]"
      using True assms upt_add_eq_append [of i t "UT_COUNT - t"] upt_conv_Cons [of t UT_COUNT]
        upt_add_eq_append [of 0 i "t - i"] by simp_all
    then show ?thesis
      unfolding n by (intro exI [of _ "[i..<t]"] exI [of _ "[Suc t..<UT_COUNT] @ [0..<i]"]) (simp add: ut_order_def)
  next
    case False
    have "[0..<i] = [0..<t] @ t # [Suc t..<i]" "[Suc t..<UT_COUNT] = [Suc t..<i] @ [i..<UT_COUNT]"
      using False assms upt_add_eq_append [of 0 t "i - t"] upt_conv_Cons [of t i]
        upt_add_eq_append [of "Suc t" i "UT_COUNT - i"] by simp_all
    then show ?thesis
      unfolding n by (intro exI [of _ "[i..<UT_COUNT] @ [0..<t]"] exI [of _ "[Suc t..<i]"]) (simp add: ut_order_def)
  qed
qed

lemma ut_order_rotate:
  assumes "i < UT_COUNT" "find P (ut_order i) = Some t"
  shows "filter P (ut_order i) = t # tl (filter P (ut_order i))"
    "filter P (ut_order (increment_sched_index t)) = tl (filter P (ut_order i)) @ [t]" "t < UT_COUNT" "P t"
proof -
  have t: "t \<in> set (ut_order i)" "P t"
    using assms(2) by (auto simp: find_Some_iff)
  then show "t < UT_COUNT" "P t"
    using set_ut_order [OF assms(1)] by auto
  with assms(1) obtain pre post where s: "ut_order i = pre @ t # post"
      "ut_order (increment_sched_index t) = post @ pre @ [t]"
    using ut_order_split by blast
  have "find P pre = None"
  proof (rule ccontr)
    assume "find P pre \<noteq> None"
    then obtain x where x: "find P pre = Some x"
      by blast
    then have "x = t"
      using assms(2) s(1) by (simp add: find_append)
    moreover have "x \<in> set pre"
      using x by (auto simp: find_Some_iff)
    ultimately show False
      using distinct_ut_order [of i] s(1) by auto
  qed
  then have "filter P pre = []"
    by (auto simp: find_None_iff filter_empty_conv)
  then show "filter P (ut_order i) = t # tl (filter P (ut_order i))"
    "filter P (ut_order (increment_sched_index t)) = tl (filter P (ut_order i)) @ [t]"
    using s t(2) by simp_all
qed


subsection \<open>The threads of a program\<close>

text \<open>
  What one thread does between two calls of \<^verbatim>\<open>swtch\<close>, and the switch itself: it computes (its registers and memory
  change), creates a thread, yields, or ends.
\<close>

inductive ut_step :: "uthreads \<Rightarrow> uthreads \<Rightarrow> bool" where
  step_compute: "ut_step s (s\<lparr>u_regs := r, u_ram := m\<rparr>)"
| step_create: "UT_Create fnc arg s = Ret n t \<Longrightarrow> ut_step s t"
| step_yield: "UT_yield s = Switch t \<Longrightarrow> ut_step s t"
| step_exit: "UT_exit s = Switch t \<Longrightarrow> ut_step s t"

inductive ut_reachable :: "uthreads \<Rightarrow> bool" where
  reach_init: "UT_Init p s = Ret 0 t \<Longrightarrow> ut_reachable t"
| reach_step: "ut_reachable s \<Longrightarrow> ut_step s t \<Longrightarrow> ut_reachable t"

definition ut_set :: "uthreads \<Rightarrow> nat set" where
  "ut_set s = {i. i < UT_COUNT \<and> ut_used (tpcbs s) i}"

definition ut_ok :: "uthreads \<Rightarrow> bool" where
  "ut_ok s \<longleftrightarrow>
     sched_index s < UT_COUNT \<and> 0 \<in> ut_set s \<and> ut_current s \<in> ut_set s
     \<and> uthread_count s = int (card (ut_set s))
     \<and> inj_on (\<lambda>i. utid (tpcbs s i)) (ut_set s) \<and> (\<forall>i \<in> ut_set s. utid (tpcbs s i) < ut_tid s)"

lemma finite_ut_set [simp]: "finite (ut_set s)"
  by (simp add: ut_set_def)

lemma upd_tpcb_sel [simp]:
  "sched_index (upd_tpcb i f s) = sched_index s" "uthread_count (upd_tpcb i f s) = uthread_count s"
  "ut_tid (upd_tpcb i f s) = ut_tid s" "tpcbs (upd_tpcb i f s) = (tpcbs s)(i := f (tpcbs s i))"
  "u_ram (upd_tpcb i f s) = u_ram s" "u_regs (upd_tpcb i f s) = u_regs s" "ut_table (upd_tpcb i f s) = ut_table s"
  "ut_live (upd_tpcb i f s) = ut_live s"
  by (simp_all add: upd_tpcb_def)

text \<open>The current thread is the one before \<^verbatim>\<open>sched_index\<close>.\<close>

lemma ut_current_next: "t < UT_COUNT \<Longrightarrow> sched_index s = increment_sched_index t \<Longrightarrow> ut_current s = t"
  by (auto simp: ut_current_def increment_sched_index_def)

lemma ut_next_current: "sched_index s < UT_COUNT \<Longrightarrow> sched_index s = increment_sched_index (ut_current s)"
  by (auto simp: ut_current_def increment_sched_index_def)

lemma ut_alone:
  assumes "ut_ok s"
  shows "uthread_count s = 1 \<longleftrightarrow> ut_set s = {0}"
proof
  assume "uthread_count s = 1"
  then obtain x where "ut_set s = {x}"
    using assms by (auto simp: ut_ok_def card_1_singleton_iff)
  then show "ut_set s = {0}"
    using assms by (auto simp: ut_ok_def)
qed (use assms in \<open>simp add: ut_ok_def\<close>)

text \<open>
  A switch from the state \<open>s\<close>, in which the thread that calls need not be alive any more: it goes to the first live
  thread after it.
\<close>

lemma UT_Scheduler_switches:
  assumes "sched_index s < UT_COUNT" "0 \<in> ut_set s" "\<not> (uthread_count s = 1 \<and> sched_index s = 1)"
  shows "\<exists>t u. find (ut_used (tpcbs s)) (ut_order (sched_index s)) = Some t \<and> UT_Scheduler s = Switch u \<and>
    sched_index u = increment_sched_index t \<and> ut_current u = t \<and> t \<in> ut_set s \<and>
    uthread_count u = uthread_count s \<and> ut_tid u = ut_tid s \<and>
    (\<forall>i. ut_state (tpcbs u i) = ut_state (tpcbs s i) \<and> utid (tpcbs u i) = utid (tpcbs s i))"
proof -
  let ?f = "find (ut_used (tpcbs s)) (ut_order (sched_index s))"
  have ex: "\<exists>j < UT_COUNT. ut_used (tpcbs s) j"
    using assms(2) by (auto simp: ut_set_def intro: exI [of _ 0])
  then have "?f \<noteq> None"
    using set_ut_order [OF assms(1)] by (auto simp: find_None_iff)
  then obtain t where t: "?f = Some t"
    by blast
  note r = ut_order_rotate [OF assms(1) t]
  obtain old rg m where w: "swtch (ut_context (tpcbs s t)) (u_regs s, u_ram s) = (old, rg, m)"
    by (cases "swtch (ut_context (tpcbs s t)) (u_regs s, u_ram s)")
  let ?u = "(upd_tpcb (ut_current s) (\<lambda>q. q\<lparr>ut_context := old\<rparr>)
      (s\<lparr>sched_index := increment_sched_index t\<rparr>))\<lparr>u_regs := rg, u_ram := m\<rparr>"
  have "UT_Scheduler s = Switch ?u"
    using assms(3) ut_scan_find [OF assms(1) ex] t w by (auto simp: UT_Scheduler_def Let_def)
  moreover have "ut_current ?u = t"
    by (rule ut_current_next [OF r(3)]) simp
  ultimately show ?thesis
    using t r(3,4) by (simp add: ut_set_def)
qed

lemma ut_ok_switched:
  assumes "ut_ok s" "ut_set t = ut_set s" "\<And>i. utid (tpcbs t i) = utid (tpcbs s i)" "ut_tid t = ut_tid s"
    "uthread_count t = uthread_count s" "sched_index t < UT_COUNT" "ut_current t \<in> ut_set t"
  shows "ut_ok t"
  using assms by (simp add: ut_ok_def)

lemma fold_upd_tpcb:
  "tpcbs (fold (\<lambda>i. upd_tpcb i f) [0..<n] s) = (\<lambda>i. if i < n then f (tpcbs s i) else tpcbs s i)"
  "ut_tid (fold (\<lambda>i. upd_tpcb i f) [0..<n] s) = ut_tid s"
  by (induction n) (auto simp: fun_eq_iff less_Suc_eq)

lemma ut_ok_init:
  assumes "UT_Init p s = Ret 0 t"
  shows "ut_ok t"
proof -
  have t: "tpcbs t = (\<lambda>i. if i < UT_COUNT then (tpcbs s i)\<lparr>ut_state := UT_UNUSED, utid := -1\<rparr> else tpcbs s i)
        (0 := (tpcbs s 0)\<lparr>ut_state := UT_USED, utid := ut_tid s\<rparr>)"
      "sched_index t = 1" "uthread_count t = 1" "ut_tid t = ut_tid s + 1"
    using assms by (auto simp: UT_Init_def Let_def fold_upd_tpcb split: if_splits)
  then have "ut_set t = {0}"
    by (auto simp: ut_set_def ut_used_def)
  then show ?thesis
    using t by (simp add: ut_ok_def ut_current_def)
qed

lemma only_once: "distinct (t # ys) \<Longrightarrow> t # ys = ys @ [t] \<Longrightarrow> t # ys = [t]"
  by (cases ys) auto

lemma find_used_other:
  assumes "ut_ok s" "find (ut_used (tpcbs s)) (ut_order (sched_index s)) = Some t" "ut_set s \<noteq> {0}"
  shows "t \<noteq> ut_current s"
proof
  assume c: "t = ut_current s"
  have i: "sched_index s < UT_COUNT"
    using assms(1) by (simp add: ut_ok_def)
  note r = ut_order_rotate [OF i assms(2)]
  have "filter (ut_used (tpcbs s)) (ut_order (sched_index s)) = tl (filter (ut_used (tpcbs s)) (ut_order (sched_index s))) @ [t]"
    using r(2) ut_next_current [OF i] c by simp
  moreover have "distinct (filter (ut_used (tpcbs s)) (ut_order (sched_index s)))"
    by (simp add: distinct_ut_order)
  ultimately have "filter (ut_used (tpcbs s)) (ut_order (sched_index s)) = [t]"
    using r(1) only_once [of t "tl (filter (ut_used (tpcbs s)) (ut_order (sched_index s)))"] by (simp only:)
  then have "set (filter (ut_used (tpcbs s)) (ut_order (sched_index s))) = {t}"
    by simp
  then have "ut_set s = {t}"
    using set_ut_order [OF i] by (auto simp: ut_set_def)
  then show False
    using assms(1,3) by (auto simp: ut_ok_def)
qed


lemma inj_on_fresh:
  fixes v :: int
  assumes "inj_on f A" "i \<notin> A" "\<forall>j \<in> A. f j < v"
  shows "inj_on (\<lambda>j. if j = i then v else f j) (insert i A)"
proof (rule inj_onI)
  fix x y
  assume "x \<in> insert i A" "y \<in> insert i A" "(if x = i then v else f x) = (if y = i then v else f y)"
  then show "x = y"
    using assms by (cases "x = i"; cases "y = i") (auto dest: inj_onD)
qed

lemma ut_ok_create:
  assumes "ut_ok s" "UT_Create fnc arg s = Ret n t"
  shows "ut_ok t"
proof (cases "find (\<lambda>i. ut_state (tpcbs s i) = UT_UNUSED) [0..<UT_COUNT]")
  case None
  then show ?thesis
    using assms by (simp add: UT_Create_def)
next
  case (Some i)
  then have i: "i < UT_COUNT" "i \<notin> ut_set s"
    by (auto simp: find_Some_iff ut_set_def ut_used_def)
  have t: "sched_index t = sched_index s" "uthread_count t = uthread_count s + 1" "ut_tid t = ut_tid s + 1"
      "\<And>j. ut_used (tpcbs t) j \<longleftrightarrow> j = i \<or> ut_used (tpcbs s) j"
      "\<And>j. utid (tpcbs t j) = (if j = i then ut_tid s else utid (tpcbs s j))"
    using assms(2) Some by (auto simp: UT_Create_def Let_def ut_used_def split: if_splits)
  then have u: "ut_set t = insert i (ut_set s)" "ut_current t = ut_current s"
    using i(1) by (auto simp: ut_set_def ut_current_def)
  have ids: "\<forall>j \<in> ut_set s. utid (tpcbs s j) < ut_tid s"
    using assms(1) by (simp add: ut_ok_def)
  have "inj_on (\<lambda>j. utid (tpcbs s j)) (ut_set s)"
    using assms(1) by (simp add: ut_ok_def)
  then have "inj_on (\<lambda>j. utid (tpcbs t j)) (ut_set t)"
    unfolding u(1) t(5) using i(2) ids by (rule inj_on_fresh)
  moreover have "\<forall>j \<in> ut_set t. utid (tpcbs t j) < ut_tid t"
    using ids unfolding u(1) t(3,5) by auto
  ultimately show ?thesis
    using assms(1) i(2) t(1,2) u by (simp add: ut_ok_def)
qed

lemma ut_ok_scheduler:
  assumes "sched_index s < UT_COUNT" "0 \<in> ut_set s" "uthread_count s = int (card (ut_set s))"
    "inj_on (\<lambda>i. utid (tpcbs s i)) (ut_set s)" "\<forall>i \<in> ut_set s. utid (tpcbs s i) < ut_tid s"
    "UT_Scheduler s = Switch u"
  shows "ut_ok u"
proof -
  have "\<not> (uthread_count s = 1 \<and> sched_index s = 1)"
    using assms(6) by (auto simp: UT_Scheduler_def)
  from UT_Scheduler_switches [OF assms(1,2) this] assms(6) obtain t where
    t: "sched_index u = increment_sched_index t" "ut_current u = t" "t \<in> ut_set s"
      "uthread_count u = uthread_count s" "ut_tid u = ut_tid s"
      "\<And>i. ut_state (tpcbs u i) = ut_state (tpcbs s i)" "\<And>i. utid (tpcbs u i) = utid (tpcbs s i)"
    by auto
  have e: "ut_set u = ut_set s"
    by (simp add: ut_set_def ut_used_def t)
  have "sched_index u < UT_COUNT"
    using t(1,3) by (auto simp: ut_set_def increment_sched_index_def)
  then show ?thesis
    using assms(2-5) t(2-5,7) e by (simp add: ut_ok_def)
qed

lemma ut_ok_yield:
  assumes "ut_ok s" "UT_yield s = Switch t"
  shows "ut_ok t"
  using assms ut_ok_scheduler [of s t] by (simp add: ut_ok_def UT_yield_def)

lemma ut_ok_exit:
  assumes "ut_ok s" "UT_exit s = Switch t"
  shows "ut_ok t"
proof (cases "sched_index s = 1")
  case True
  have "UT_yield s = Switch t"
    using assms(2) True
    by (cases "UT_yield s") (auto simp: UT_exit_def UT_shutdown_def UT_shutdown_loop_def split: if_splits)
  then show ?thesis
    using ut_ok_yield assms(1) by blast
next
  case False
  let ?c = "ut_current s"
  let ?s = "(upd_tpcb ?c (\<lambda>t. t\<lparr>ut_state := UT_UNUSED\<rparr>) s)\<lparr>uthread_count := uthread_count s - 1\<rparr>"
  have c: "?c \<in> ut_set s" "?c \<noteq> 0" and "0 \<in> ut_set s"
    using assms(1) False by (auto simp: ut_ok_def ut_current_def split: if_splits)
  have u: "ut_set ?s = ut_set s - {?c}"
    by (auto simp: ut_set_def ut_used_def)
  have x: "UT_Scheduler ?s = Switch t"
    using assms(2) False by (simp add: UT_exit_def UT_shutdown_def Let_def)
  have "uthread_count ?s = int (card (ut_set ?s))"
    using assms(1) c(1) card_gt_0_iff [of "ut_set s"] unfolding u by (auto simp: ut_ok_def Suc_le_eq)
  moreover have "inj_on (\<lambda>i. utid (tpcbs ?s i)) (ut_set ?s)" "\<forall>i \<in> ut_set ?s. utid (tpcbs ?s i) < ut_tid ?s"
    using assms(1) unfolding u by (auto simp: ut_ok_def inj_on_def)
  moreover have "sched_index ?s < UT_COUNT" "0 \<in> ut_set ?s"
    using assms(1) c \<open>0 \<in> ut_set s\<close> unfolding u by (auto simp: ut_ok_def)
  ultimately show ?thesis
    using ut_ok_scheduler x by blast
qed

lemma ut_compute_sel [simp]:
  "ut_set (s\<lparr>u_regs := r, u_ram := m\<rparr>) = ut_set s" "ut_current (s\<lparr>u_regs := r, u_ram := m\<rparr>) = ut_current s"
  by (simp_all add: ut_set_def ut_current_def)

lemma ut_ok_reachable: "ut_reachable s \<Longrightarrow> ut_ok s"
proof (induction rule: ut_reachable.induct)
  case (reach_init p s t)
  then show ?case
    by (rule ut_ok_init)
next
  case (reach_step s t)
  from reach_step(2,3) show ?case
  proof (cases rule: ut_step.cases)
    case (step_compute r m)
    then show ?thesis
      using reach_step(3) by (simp add: ut_ok_def)
  next
    case (step_create fnc arg n)
    then show ?thesis
      using reach_step(3) ut_ok_create by metis
  next
    case step_yield
    then show ?thesis
      using reach_step(3) ut_ok_yield by metis
  next
    case step_exit
    then show ?thesis
      using reach_step(3) ut_ok_exit by metis
  qed
qed




text \<open>The threads that successive yields switch to, each doing \<open>work\<close> with its registers and memory before it yields.\<close>

fun ut_turns :: "(uthreads \<Rightarrow> uregs \<times> mem) \<Rightarrow> nat \<Rightarrow> uthreads \<Rightarrow> nat list" where
  "ut_turns work 0 s = []"
| "ut_turns work (Suc n) s =
     (case UT_yield (s\<lparr>u_regs := fst (work s), u_ram := snd (work s)\<rparr>) of
        Switch u \<Rightarrow> ut_current u # ut_turns work n u
      | _ \<Rightarrow> [])"

abbreviation ut_queue :: "uthreads \<Rightarrow> nat list" where
  "ut_queue s \<equiv> filter (ut_used (tpcbs s)) (ut_order (sched_index s))"

lemma yield_rotates:
  assumes "ut_ok s" "ut_set s \<noteq> {0}"
  shows "\<exists>u. UT_yield s = Switch u \<and> ut_ok u \<and> ut_set u = ut_set s \<and>
    ut_queue s = ut_current u # tl (ut_queue s) \<and> ut_queue u = tl (ut_queue s) @ [ut_current u]"
proof -
  have i: "sched_index s < UT_COUNT" "0 \<in> ut_set s"
    using assms(1) by (simp_all add: ut_ok_def)
  have "\<not> (uthread_count s = 1 \<and> sched_index s = 1)"
    using ut_alone [OF assms(1)] assms(2) by simp
  from UT_Scheduler_switches [OF i this] obtain t u where
    u: "find (ut_used (tpcbs s)) (ut_order (sched_index s)) = Some t" "UT_Scheduler s = Switch u"
      "sched_index u = increment_sched_index t" "ut_current u = t"
      "\<And>i. ut_state (tpcbs u i) = ut_state (tpcbs s i)"
    by blast
  have "ut_used (tpcbs u) = ut_used (tpcbs s)"
    by (simp add: fun_eq_iff ut_used_def u(5))
  then show ?thesis
    using u(2-4) ut_order_rotate [OF i(1) u(1)] ut_ok_yield [OF assms(1), of u]
    by (simp add: UT_yield_def ut_set_def)
qed

lemma ut_turns_take:
  "ut_ok s \<Longrightarrow> ut_set s \<noteq> {0} \<Longrightarrow> n \<le> length (ut_queue s) \<Longrightarrow> ut_turns work n s = take n (ut_queue s)"
proof (induction n arbitrary: s)
  case (Suc n)
  let ?s = "s\<lparr>u_regs := fst (work s), u_ram := snd (work s)\<rparr>"
  have "ut_ok ?s"
    using Suc.prems(1) by (simp add: ut_ok_def)
  then obtain u where u: "UT_yield ?s = Switch u" "ut_ok u" "ut_set u = ut_set s"
      "ut_queue s = ut_current u # tl (ut_queue s)" "ut_queue u = tl (ut_queue s) @ [ut_current u]"
    using yield_rotates [of ?s] Suc.prems(2) by auto
  have n: "n \<le> length (tl (ut_queue s))"
    using Suc.prems(3) by simp
  then have "ut_turns work n u = take n (tl (ut_queue s))"
    using Suc.IH [of u] u(2,3,5) Suc.prems(2) by simp
  then show ?case
    using u(1) by (subst u(4)) simp
qed simp



text \<open>A program with two threads: the root thread, and one that has just been created.\<close>

definition ut0 :: uthreads where
  "ut0 = \<lparr>ut_table = 0, ut_live = False, tpcbs = (\<lambda>_. \<lparr>utid = 0, ut_context = 0, ut_state = UT_UNUSED\<rparr>),
     sched_index = 1, uthread_count = 0, ut_tid = 0,
     u_regs = \<lparr>r_ebp = 0x2ff0, r_ebx = 1, r_esi = 2, r_edi = 3, r_esp = 0x2f00, r_eip = 0x40\<rparr>, u_ram = (\<lambda>_. 0)\<rparr>"

definition ut_after :: "('a, uthreads) outcome \<Rightarrow> uthreads" where
  "ut_after r = (case r of Ret _ s \<Rightarrow> s | Switch s \<Rightarrow> s | _ \<Rightarrow> ut0)"

definition ut1 :: uthreads where
  "ut1 = ut_after (UT_Init 0x8000 ut0)"

definition ut2 :: uthreads where
  "ut2 = ut_after (UT_Create 0x100 0x200 ut1)"

lemma ut1_sel:
  "UT_Init 0x8000 ut0 = Ret 0 ut1" "ut_table ut1 = 0x8000" "sched_index ut1 = 1" "ut_tid ut1 = 1" "u_ram ut1 = u_ram ut0"
  "u_regs ut1 = u_regs ut0" "ut_used (tpcbs ut1) i \<longleftrightarrow> i = 0 \<or> 8 \<le> i \<and> ut_used (tpcbs ut0) i"
proof -
  have f: "ut_table (fold (\<lambda>i. upd_tpcb i f) [0..<n] s) = ut_table s"
      "sched_index (fold (\<lambda>i. upd_tpcb i f) [0..<n] s) = sched_index s"
      "u_ram (fold (\<lambda>i. upd_tpcb i f) [0..<n] s) = u_ram s"
      "u_regs (fold (\<lambda>i. upd_tpcb i f) [0..<n] s) = u_regs s" for f n s
    by (induction n) simp_all
  show "UT_Init 0x8000 ut0 = Ret 0 ut1"
    by (simp add: ut1_def ut_after_def UT_Init_def Let_def)
  show "ut_table ut1 = 0x8000" "sched_index ut1 = 1" "ut_tid ut1 = 1" "u_ram ut1 = u_ram ut0"
    "u_regs ut1 = u_regs ut0" "ut_used (tpcbs ut1) i \<longleftrightarrow> i = 0 \<or> 8 \<le> i \<and> ut_used (tpcbs ut0) i"
    by (simp_all add: ut1_def ut_after_def UT_Init_def Let_def f fold_upd_tpcb ut0_def ut_used_def)
qed

lemma ut1_free: "find (\<lambda>i. ut_state (tpcbs ut1 i) = UT_UNUSED) [0..<UT_COUNT] = Some 1"
proof -
  have "ut_state (tpcbs ut1 0) \<noteq> UT_UNUSED" "ut_state (tpcbs ut1 1) = UT_UNUSED"
    using ut1_sel(7) [of 0] ut1_sel(7) [of 1] by (simp_all add: ut_used_def) (metis tpcbstate.exhaust)
  then show ?thesis
    by (simp add: upt_conv_Cons)
qed

lemma ut2_create: "UT_Create 0x100 0x200 ut1 = Ret 1 ut2"
  by (simp add: ut2_def ut_after_def UT_Create_def Let_def ut1_sel ut1_free)

lemma ut2_reachable: "ut_reachable ut2" "ut_set ut2 = {0, 1}" "sched_index ut2 = 1"
proof -
  have c: "\<And>i. ut_used (tpcbs ut2) i \<longleftrightarrow> i = 1 \<or> ut_used (tpcbs ut1) i" "sched_index ut2 = 1"
    by (simp_all add: ut2_def ut_after_def UT_Create_def Let_def ut1_sel ut1_free ut_used_def)
  then show "ut_reachable ut2" "sched_index ut2 = 1"
    using reach_step [OF reach_init [OF ut1_sel(1)] step_create [OF ut2_create]] by blast+
  show "ut_set ut2 = {0, 1}"
    by (auto simp: ut_set_def c(1) ut1_sel(7))
qed





subsection \<open>Switching stacks\<close>

lemma aligned_offset:
  assumes "aligned 4 a"
  shows "aligned 4 (a + 4 * k)" "aligned 4 (a - 4 * k)"
proof -
  have "unat (a + 4 * k) mod 4 = (unat a + 4 * unat k) mod 4"
    by (simp add: unat_word_ariths mod_mod_cancel mod_add_right_eq)
  then show p: "aligned 4 (a + 4 * k)"
    using assms by (simp add: aligned_def)
  show "aligned 4 (a - 4 * k)"
  proof -
    have "unat (a - 4 * k) mod 4 = 0"
    proof -
      have "unat a mod 4 = unat ((a - 4 * k) + 4 * k) mod 4"
        by simp
      also have "\<dots> = (unat (a - 4 * k) + 4 * unat k) mod 4"
        by (simp only: unat_word_ariths) (simp add: mod_mod_cancel mod_add_right_eq)
      finally show ?thesis
        using assms by (simp add: aligned_def)
    qed
    then show ?thesis
      by (simp add: aligned_def)
  qed
qed

text \<open>The memory once the registers have been pushed.\<close>

definition swtch_saved :: "uregs \<Rightarrow> mem \<Rightarrow> mem" where
  "swtch_saved r m =
     st32 (st32 (st32 (st32 m (r_esp r - 4) (r_ebp r)) (r_esp r - 8) (r_ebx r)) (r_esp r - 12) (r_esi r))
       (r_esp r - 16) (r_edi r)"

lemma swtch_eq:
  "swtch new (r, m) = (r_esp r - 16,
     r\<lparr>r_edi := ld32 (swtch_saved r m) new, r_esi := ld32 (swtch_saved r m) (new + 4),
       r_ebx := ld32 (swtch_saved r m) (new + 8), r_ebp := ld32 (swtch_saved r m) (new + 12),
       r_eip := ld32 (swtch_saved r m) (new + 16), r_esp := new + 20\<rparr>, swtch_saved r m)"
  by (auto simp: swtch_def push32_def pop32_def Let_def swtch_saved_def add.commute intro!: uregs.equality)

lemma swtch_saved_other:
  assumes "aligned 4 a" "aligned 4 (r_esp r)" "a \<notin> {r_esp r - 4, r_esp r - 8, r_esp r - 12, r_esp r - 16}"
  shows "ld32 (swtch_saved r m) a = ld32 m a"
proof -
  have "r_esp r - 4 \<noteq> a" "r_esp r - 8 \<noteq> a" "r_esp r - 12 \<noteq> a" "r_esp r - 16 \<noteq> a"
    using assms(3) by auto
  then show ?thesis
    using assms aligned_offset(2) [OF assms(2), of 1] aligned_offset(2) [OF assms(2), of 2]
      aligned_offset(2) [OF assms(2), of 3] aligned_offset(2) [OF assms(2), of 4]
    by (simp add: swtch_saved_def)
qed

lemma swtch_saved_frame:
  assumes "aligned 4 (r_esp r)"
  shows "ld32 (swtch_saved r m) (r_esp r - 16) = r_edi r" "ld32 (swtch_saved r m) (r_esp r - 12) = r_esi r"
    "ld32 (swtch_saved r m) (r_esp r - 8) = r_ebx r" "ld32 (swtch_saved r m) (r_esp r - 4) = r_ebp r"
  using assms aligned_offset(2) [OF assms, of 1] aligned_offset(2) [OF assms, of 2]
    aligned_offset(2) [OF assms, of 3] aligned_offset(2) [OF assms, of 4]
  by (simp_all add: swtch_saved_def)

text \<open>
  The words of a context at \<open>c\<close>, and that the pushes of a thread with registers \<open>r\<close> stay clear of it.
\<close>

definition frame_words :: "addr \<Rightarrow> nat \<Rightarrow> addr set" where
  "frame_words c n = set (map (\<lambda>j. c + 4 * word_of_nat j) [0..<n])"

definition pushes_clear :: "uregs \<Rightarrow> addr \<Rightarrow> nat \<Rightarrow> bool" where
  "pushes_clear r c n \<longleftrightarrow>
     {r_esp r - 4, r_esp r - 8, r_esp r - 12, r_esp r - 16} \<inter> frame_words c n = {} \<and> aligned 4 (r_esp r)"

lemma pushes_clear_ld32:
  assumes "pushes_clear r c n" "aligned 4 c" "j < n"
  shows "ld32 (swtch_saved r m) (c + 4 * word_of_nat j) = ld32 m (c + 4 * word_of_nat j)"
proof (rule swtch_saved_other)
  have "c + 4 * word_of_nat j \<in> frame_words c n"
    using assms(3) by (simp add: frame_words_def)
  then show "c + 4 * word_of_nat j \<notin> {r_esp r - 4, r_esp r - 8, r_esp r - 12, r_esp r - 16}"
    using assms(1) by (auto simp: pushes_clear_def)
qed (use assms aligned_offset(1) [OF assms(2), of "word_of_nat j"] in \<open>simp_all add: pushes_clear_def\<close>)

text \<open>C34 (roundtrip). A thread that is switched away from and later back to finds everything as it left it: if the five words of
  its context are untouched in the meantime, by the other threads and by the pushes of the one that switches back, it
  returns from its call of \<^verbatim>\<open>swtch\<close> to the address it was called from, with the registers \<^verbatim>\<open>ebp\<close>, \<^verbatim>\<open>ebx\<close>, \<^verbatim>\<open>esi\<close>
  and \<^verbatim>\<open>edi\<close> and the stack pointer it had.\<close>

theorem swtch_there_and_back:
  assumes "aligned 4 (r_esp r)" "swtch new (r, m) = (old, r1, m1)"
    "\<forall>a \<in> frame_words old 5. ld32 m2 a = ld32 m1 a" "pushes_clear r2 old 5"
  shows "\<exists>old' r3 m3. swtch old (r2, m2) = (old', r3, m3) \<and> r_eip r3 = ld32 m (r_esp r) \<and> r_esp r3 = r_esp r + 4 \<and>
    r_ebp r3 = r_ebp r \<and> r_ebx r3 = r_ebx r \<and> r_esi r3 = r_esi r \<and> r_edi r3 = r_edi r"
proof -
  have o: "old = r_esp r - 16" "m1 = swtch_saved r m"
    using assms(2) by (simp_all add: swtch_eq)
  have al: "aligned 4 old"
    using aligned_offset(2) [OF assms(1), of 4] o(1) by simp
  have w: "old + 4 * word_of_nat j \<in> frame_words old 5" if "j < 5" for j
    using that by (simp add: frame_words_def)
  have k: "ld32 (swtch_saved r2 m2) (old + 4 * word_of_nat j) = ld32 (swtch_saved r m) (old + 4 * word_of_nat j)"
    if "j < 5" for j
    using bspec [OF assms(3) w [OF that]] pushes_clear_ld32 [OF assms(4) al that, of m2] o(2) by simp
  have "ld32 (swtch_saved r m) (r_esp r) = ld32 m (r_esp r)"
    using assms(1) by (intro swtch_saved_other) auto
  then show ?thesis
    using k [of 0] k [of 1] k [of 2] k [of 3] k [of 4] swtch_saved_frame [OF assms(1), of m]
    by (simp add: swtch_eq o(1))
qed


theorem swtch_there_and_back_witness:
  "\<exists>old' r3 m3. swtch 0x2ef0 (\<lparr>r_ebp = 0, r_ebx = 0, r_esi = 0, r_edi = 0, r_esp = 0x5000, r_eip = 0\<rparr>,
       snd (snd (swtch 0x4000 (u_regs ut0, u_ram ut0)))) = (old', r3, m3)
     \<and> r_ebx r3 = 1 \<and> r_esi r3 = 2 \<and> r_edi r3 = 3 \<and> r_esp r3 = 0x2f04"
proof -
  let ?r2 = "\<lparr>r_ebp = 0, r_ebx = 0, r_esi = 0, r_edi = 0, r_esp = 0x5000, r_eip = 0\<rparr>"
  have "pushes_clear ?r2 0x2ef0 5"
    by (simp add: pushes_clear_def frame_words_def aligned_def upt_conv_Cons)
  moreover have "fst (swtch 0x4000 (u_regs ut0, u_ram ut0)) = 0x2ef0"
    by (simp add: swtch_eq ut0_def)
  ultimately show ?thesis
    using swtch_there_and_back [of "u_regs ut0" "0x4000" "u_ram ut0" "0x2ef0"
        "fst (snd (swtch 0x4000 (u_regs ut0, u_ram ut0)))" "snd (snd (swtch 0x4000 (u_regs ut0, u_ram ut0)))"
        "snd (snd (swtch 0x4000 (u_regs ut0, u_ram ut0)))" ?r2]
    by (auto simp: aligned_def ut0_def swtch_eq)
qed

lemma ut_stack_top_upd [simp]:
  "ut_stack_top i (u\<lparr>ut_tid := k\<rparr>) = ut_stack_top i u" "ut_stack_top i (upd_tpcb j f u) = ut_stack_top i u"
  by (simp_all add: ut_stack_top_def)

lemma ld32_stosb_above:
  "ld32 (stosb m a c 20) (a + 20) = ld32 m (a + 20)" "ld32 (stosb m a c 20) (a + 24) = ld32 m (a + 24)"
  by (simp_all add: ld32_def stosb_fill fill_def add.assoc)

text \<open>C35 (functional). A new thread starts as its creator asked: whoever is the first to switch to a thread that \<^verbatim>\<open>UT_Create\<close>
  has made, with its own pushes outside the new stack's frame, continues at \<^verbatim>\<open>fnc\<close>, with the stack pointer at the fake
  return address and the argument above it, as the C calling convention wants it.\<close>

theorem new_uthread_calls_function:
  assumes "find (\<lambda>i. ut_state (tpcbs s i) = UT_UNUSED) [0..<UT_COUNT] = Some i" "UT_Create fnc arg s = Ret n t"
    "aligned 4 (ut_table s)" "pushes_clear r (ut_context (tpcbs t i)) 7"
  shows "\<exists>old r' m'. swtch (ut_context (tpcbs t i)) (r, u_ram t) = (old, r', m') \<and> r_eip r' = fnc \<and>
    r_esp r' = ut_stack_top i s - 8 \<and> ld32 m' (r_esp r') = 0xffffffff \<and> ld32 m' (r_esp r' + 4) = arg"
proof -
  define c where "c = ut_stack_top i s - 28"
  have top8: "ut_stack_top i s - 8 = c + 20"
    by (simp add: c_def)
  have t: "ut_context (tpcbs t i) = c"
      "u_ram t = st32 (st32 (stosb (st32 (st32 (u_ram s) (c + 20) 0xffffffff) (c + 24) arg) c 0 20) (c + 16) fnc) (c + 12) (c + 20)"
    using assms(1,2) by (auto simp: UT_Create_def Let_def c_def)
  have "c = ut_table s + 4 * (4099 * word_of_nat i + 1 + 4095 - 7)"
    by (simp add: c_def ut_stack_top_def algebra_simps)
  then have al: "aligned 4 c"
    using aligned_offset(1) [OF assms(3)] by metis
  then have al': "aligned 4 (c + 12)" "aligned 4 (c + 16)" "aligned 4 (c + 20)" "aligned 4 (c + 24)"
    using aligned_offset(1) [OF al, of 3] aligned_offset(1) [OF al, of 4] aligned_offset(1) [OF al, of 5]
      aligned_offset(1) [OF al, of 6] by simp_all
  have k: "ld32 (swtch_saved r (u_ram t)) (c + 4 * word_of_nat j) = ld32 (u_ram t) (c + 4 * word_of_nat j)" if "j < 7" for j
    using pushes_clear_ld32 [of r c 7 j] assms(4) al that unfolding t(1) by blast
  have "ld32 (u_ram t) (c + 16) = fnc" "ld32 (u_ram t) (c + 20) = 0xffffffff" "ld32 (u_ram t) (c + 24) = arg"
    unfolding t(2) using al al' by (simp_all add: ld32_stosb_above)
  then show ?thesis
    using k [of 4] k [of 5] k [of 6] by (simp add: swtch_eq t(1) top8 add.assoc)
qed


theorem new_uthread_calls_function_witness:
  "\<exists>old r' m'. swtch (ut_context (tpcbs ut2 1)) (u_regs ut0, u_ram ut2) = (old, r', m') \<and> r_eip r' = 0x100 \<and>
    r_esp r' = 0x10004 \<and> ld32 m' 0x10004 = 0xffffffff \<and> ld32 m' 0x10008 = 0x200"
proof -
  have top: "ut_stack_top (Suc 0) ut1 = 0x1000C"
    by (simp add: ut_stack_top_def ut1_sel)
  have c: "ut_context (tpcbs ut2 (Suc 0)) = 0xFFF0"
    by (simp add: ut2_def ut_after_def UT_Create_def Let_def ut1_free ut1_sel top)
  have "pushes_clear (u_regs ut0) 0xFFF0 7"
    by (simp add: pushes_clear_def frame_words_def aligned_def upt_conv_Cons ut0_def)
  then show ?thesis
    using new_uthread_calls_function [OF ut1_free ut2_create, of "u_regs ut0"] by (auto simp: c top ut1_sel aligned_def)
qed

end
