(* ===== verification/Shell.thy ===== *)
theory Shell
  imports Ulib "HOL-Library.Sublist"
begin

section \<open>The shell's parser (sh.c)\<close>

text \<open>
  The recursive-descent parser that turns a command line into a tree. A pointer into the line is the rest of the line
  from there on (\<^verbatim>\<open>es\<close> is the empty rest), so \<^verbatim>\<open>*ps\<close> is the state that the parsing functions pass on;
  \<^verbatim>\<open>panic\<close> ends the outcome. A counted string, \<^verbatim>\<open>q\<close> to \<^verbatim>\<open>eq\<close>, is the pair of its pointers until
  \<open>nulterminate\<close> writes the NULs into the line. The four mutually recursive functions take fuel and end with
  \<open>Diverge\<close> if it runs out; \<open>parse_fuel\<close> is always enough. The constructors' \<^verbatim>\<open>malloc\<close> is taken to succeed.
\<close>

subsection \<open>Commands\<close>

type_synonym span = "string \<times> string"

datatype cmd =
    EXEC "span list"
  | REDIR cmd span u32 nat
  | PIPE cmd cmd
  | LIST cmd cmd
  | BACK cmd

abbreviation MAXARGS :: nat where "MAXARGS \<equiv> 10"
abbreviation sh_rdonly :: u32 where "sh_rdonly \<equiv> 0"
abbreviation sh_wronly_create :: u32 where "sh_wronly_create \<equiv> 0x001 OR 0x200"

subsection \<open>Tokens\<close>

definition whitespace :: string where
  "whitespace = [CHR '' '', CHR 0x09, CR, NL, CHR 0x0B]"

definition symbols :: string where
  "symbols = ''<|>&;()''"

definition is_ws :: "char \<Rightarrow> bool" where
  "is_ws c \<longleftrightarrow> strchr whitespace c \<noteq> None"

definition is_sym :: "char \<Rightarrow> bool" where
  "is_sym c \<longleftrightarrow> strchr symbols c \<noteq> None"

definition skip_ws :: "string \<Rightarrow> string" where
  "skip_ws s = dropWhile is_ws s"

text \<open>\<^verbatim>\<open>gettoken\<close>: the token, where it starts and ends, and the new \<^verbatim>\<open>*ps\<close>.\<close>

definition gettoken :: "string \<Rightarrow> char \<times> span \<times> string" where
  "gettoken s =
     (let q = skip_ws s;
          (ret, eq) =
            (case q of
               [] \<Rightarrow> (NUL, q)
             | c # s \<Rightarrow>
                 if c = NUL then (NUL, q)
                 else if c \<in> set ''|();&<'' then (c, s)
                 else if c = CHR ''>'' then
                   (case s of d # s' \<Rightarrow> if d = CHR ''>'' then (CHR ''+'', s') else (c, s) | [] \<Rightarrow> (c, s))
                 else (CHR ''a'', dropWhile (\<lambda>c. \<not> is_ws c \<and> \<not> is_sym c) q))
      in (ret, (q, eq), skip_ws eq))"

definition peek :: "string \<Rightarrow> string \<Rightarrow> bool \<times> string" where
  "peek s toks =
     (let s = skip_ws s in ((case s of [] \<Rightarrow> False | c # _ \<Rightarrow> c \<noteq> NUL \<and> strchr toks c \<noteq> None), s))"

lemma skip_ws_length: "length (skip_ws s) \<le> length s"
  by (simp add: skip_ws_def length_dropWhile_le)

lemma gettoken_length: "length (snd (snd (gettoken s))) \<le> length s"
  "fst (gettoken s) \<noteq> NUL \<Longrightarrow> length (snd (snd (gettoken s))) < length s"
proof -
  let ?q = "skip_ws s"
  have w: "length (dropWhile (\<lambda>c. \<not> is_ws c \<and> \<not> is_sym c) ?q) \<le> length ?q"
    by (rule length_dropWhile_le)
  have l: "length (snd (snd (gettoken s))) \<le> length (snd (fst (snd (gettoken s))))"
    by (simp add: gettoken_def Let_def skip_ws_length split: prod.splits)
  have e: "length (snd (fst (snd (gettoken s)))) \<le> length ?q"
    using w by (auto simp: gettoken_def Let_def split: list.splits prod.splits if_splits)
  show "length (snd (snd (gettoken s))) \<le> length s"
    using l e skip_ws_length [of s] by linarith
  assume t: "fst (gettoken s) \<noteq> NUL"
  have "length (snd (fst (snd (gettoken s)))) < length ?q"
  proof (cases ?q)
    case (Cons c r)
    have "\<not> is_ws c"
      using Cons hd_dropWhile [of is_ws s] by (simp add: skip_ws_def)
    moreover have "is_sym c \<Longrightarrow> c \<in> set ''|();&<'' \<or> c = CHR ''>''"
      by (auto simp: is_sym_def symbols_def split: if_splits)
    moreover have "length (dropWhile (\<lambda>c. \<not> is_ws c \<and> \<not> is_sym c) r) \<le> length r"
      by (rule length_dropWhile_le)
    ultimately show ?thesis
      using t Cons by (auto simp: gettoken_def Let_def split: list.splits prod.splits if_splits)
  qed (use t in \<open>simp add: gettoken_def Let_def\<close>)
  then show "length (snd (snd (gettoken s))) < length s"
    using l skip_ws_length [of s] by linarith
qed


lemma skip_ws_idem [simp]: "skip_ws (skip_ws s) = skip_ws s"
  by (simp add: skip_ws_def)

lemma peek_length: "length (snd (peek s toks)) \<le> length s"
  by (simp add: peek_def Let_def skip_ws_length)

lemma tokens_shorter:
  "(p, r) = peek s toks \<Longrightarrow> length r \<le> length s" "(t, q, r) = gettoken s \<Longrightarrow> length r \<le> length s"
  "(t, q, r) = gettoken s \<Longrightarrow> t \<noteq> NUL \<Longrightarrow> length r < length s"
  using peek_length [of s toks] gettoken_length [of s] by (metis snd_conv, metis snd_conv, metis fst_conv snd_conv)

lemma peek_gettoken:
  assumes "fst (peek s toks)"
  shows "fst (gettoken (snd (peek s toks))) \<noteq> NUL"
  using assms by (auto simp: peek_def gettoken_def Let_def split: list.splits if_splits)

subsection \<open>The parsing functions\<close>

function parseredirs :: "cmd \<Rightarrow> string \<Rightarrow> (cmd, string) outcome" where
  "parseredirs cmd s =
     (case peek s ''<>'' of (p, s) \<Rightarrow>
      if \<not> p then Ret cmd s
      else case gettoken s of (tok, _, s) \<Rightarrow>
           case gettoken s of (t, q, s) \<Rightarrow>
           if t \<noteq> CHR ''a'' then Panic ''missing file for redirection''
           else parseredirs
                  (if tok = CHR ''<'' then REDIR cmd q sh_rdonly 0
                   else if tok = CHR ''>'' then REDIR cmd q sh_wronly_create 1
                   else if tok = CHR ''+'' then REDIR cmd q sh_wronly_create 1
                   else cmd) s)"
  by pat_completeness auto
termination
proof (relation "measure (\<lambda>(_, s). length s)", goal_cases)
  case (2 cmd s p s1 tok r q1 s2 t r' q s3)
  then have "length s1 \<le> length s" "length s2 \<le> length s1" "length s3 < length s2"
    using tokens_shorter(1) [of p s1 s] tokens_shorter(2) [of tok q1 s2 s1] tokens_shorter(3) [of t q s3 s2] by auto
  then show ?case
    by simp
qed simp

declare parseredirs.simps [simp del]

text \<open>The loop of \<^verbatim>\<open>parseline\<close> over ampersands.\<close>

function parse_backs :: "cmd \<Rightarrow> string \<Rightarrow> cmd \<times> string" where
  "parse_backs cmd s =
     (case peek s ''&'' of (p, s) \<Rightarrow>
      if \<not> p then (cmd, s) else case gettoken s of (_, _, s) \<Rightarrow> parse_backs (BACK cmd) s)"
  by pat_completeness auto
termination
proof (relation "measure (\<lambda>(_, s). length s)", goal_cases)
  case (2 cmd s p s1 tok r q s2)
  then have "tok \<noteq> NUL"
    using peek_gettoken [of s "''&''"] by (metis fst_conv snd_conv)
  with 2 have "length s1 \<le> length s" "length s2 < length s1"
    using tokens_shorter(1) [of p s1 s] tokens_shorter(3) [of tok q s2 s1] by auto
  then show ?case
    by simp
qed simp

declare parse_backs.simps [simp del]

text \<open>
  The stores into \<^verbatim>\<open>cmd->argv\<close> and \<^verbatim>\<open>cmd->eargv\<close>, where \<^verbatim>\<open>cmd\<close> is the innermost command that the redirections
  in \<^verbatim>\<open>ret\<close> have been wrapped around.
\<close>

fun add_arg :: "span \<Rightarrow> cmd \<Rightarrow> cmd" where
  "add_arg q (EXEC args) = EXEC (args @ [q])"
| "add_arg q (REDIR cmd f mode fd) = REDIR (add_arg q cmd) f mode fd"
| "add_arg q cmd = cmd"

lemma parseredirs_length: "parseredirs cmd s = Ret c s' \<Longrightarrow> length s' \<le> length s"
proof (induction cmd s arbitrary: c s' rule: parseredirs.induct)
  case (1 cmd s)
  obtain p s1 where p: "peek s ''<>'' = (p, s1)"
    by (cases "peek s ''<>''")
  have l1: "length s1 \<le> length s"
    using peek_length [of s "''<>''"] p by simp
  show ?case
  proof (cases p)
    case False
    then show ?thesis
      using 1(2) p l1 by (simp add: parseredirs.simps [of cmd s])
  next
    case True
    obtain tok q1 s2 where g1: "gettoken s1 = (tok, q1, s2)"
      by (cases "gettoken s1")
    obtain t q s3 where g2: "gettoken s2 = (t, q, s3)"
      by (cases "gettoken s2")
    have l: "length s3 \<le> length s2" "length s2 \<le> length s1"
      using gettoken_length(1) [of s2] gettoken_length(1) [of s1] g1 g2 by simp_all
    show ?thesis
      using 1(1) [OF p [symmetric] _ g1 [symmetric] refl g2 [symmetric] refl, of c s'] 1(2) True l l1
      by (simp add: parseredirs.simps [of cmd s] p g1 g2 split: if_splits)
  qed
qed

function parse_args :: "cmd \<Rightarrow> nat \<Rightarrow> string \<Rightarrow> (cmd, string) outcome" where
  "parse_args ret argc s =
     (case peek s ''|)&;'' of (p, s) \<Rightarrow>
      if p then Ret ret s
      else case gettoken s of (tok, q, s) \<Rightarrow>
           if tok = NUL then Ret ret s
           else if tok \<noteq> CHR ''a'' then Panic ''syntax''
           else if argc + 1 \<ge> MAXARGS then Panic ''too many args''
           else (case parseredirs (add_arg q ret) s of
                   Ret ret s \<Rightarrow> parse_args ret (argc + 1) s
                 | Panic msg \<Rightarrow> Panic msg
                 | _ \<Rightarrow> Diverge))"
  by pat_completeness auto
termination
proof (relation "measure (\<lambda>(_, _, s). length s)", goal_cases)
  case (2 ret argc s p s1 tok r q s2 c s3)
  then have "length s1 \<le> length s" "length s2 < length s1" "length s3 \<le> length s2"
    using tokens_shorter(1) [of p s1 s] tokens_shorter(3) [of tok q s2 s1] parseredirs_length [of "add_arg q ret" s2 c s3] by auto
  then show ?case
    by simp
qed simp

declare parse_args.simps [simp del]

fun parseline :: "nat \<Rightarrow> string \<Rightarrow> (cmd, string) outcome"
  and parsepipe :: "nat \<Rightarrow> string \<Rightarrow> (cmd, string) outcome"
  and parseexec :: "nat \<Rightarrow> string \<Rightarrow> (cmd, string) outcome"
  and parseblock :: "nat \<Rightarrow> string \<Rightarrow> (cmd, string) outcome" where
  "parseline 0 s = Diverge"
| "parseline (Suc n) s =
     seq (parsepipe n s) (\<lambda>cmd s.
     let (cmd, s) = parse_backs cmd s; (p, s) = peek s '';'' in
     if p then let (_, _, s) = gettoken s in seq (parseline n s) (\<lambda>r s. Ret (LIST cmd r) s)
     else Ret cmd s)"
| "parsepipe 0 s = Diverge"
| "parsepipe (Suc n) s =
     seq (parseexec n s) (\<lambda>cmd s.
     let (p, s) = peek s ''|'' in
     if p then let (_, _, s) = gettoken s in seq (parsepipe n s) (\<lambda>r s. Ret (PIPE cmd r) s)
     else Ret cmd s)"
| "parseexec 0 s = Diverge"
| "parseexec (Suc n) s =
     (let (p, s) = peek s ''('' in
      if p then parseblock n s
      else seq (parseredirs (EXEC []) s) (\<lambda>ret s. parse_args ret 0 s))"
| "parseblock 0 s = Diverge"
| "parseblock (Suc n) s =
     (let (p, s) = peek s ''('' in
      if \<not> p then Panic ''parseblock''
      else let (_, _, s) = gettoken s in
           seq (parseline n s) (\<lambda>cmd s.
           let (p, s) = peek s '')'' in
           if \<not> p then Panic ''syntax - missing )''
           else let (_, _, s) = gettoken s in parseredirs cmd s))"

text \<open>\<^verbatim>\<open>*eargv[i] = 0\<close> for a pointer into a line of \<open>n\<close> characters, in the buffer that holds the line.\<close>

definition put_nul :: "nat \<Rightarrow> span \<Rightarrow> string \<Rightarrow> string" where
  "put_nul n q buf = buf[n - length (snd q) := NUL]"

primrec nulterminate :: "nat \<Rightarrow> cmd \<Rightarrow> string \<Rightarrow> string" where
  "nulterminate n (EXEC args) buf = fold (put_nul n) args buf"
| "nulterminate n (REDIR cmd q mode fd) buf = put_nul n q (nulterminate n cmd buf)"
| "nulterminate n (PIPE l r) buf = nulterminate n r (nulterminate n l buf)"
| "nulterminate n (LIST l r) buf = nulterminate n r (nulterminate n l buf)"
| "nulterminate n (BACK cmd) buf = nulterminate n cmd buf"

definition parse_fuel :: "string \<Rightarrow> nat" where
  "parse_fuel s = 4 * length s + 4"

text \<open>
  \<^verbatim>\<open>parsecmd\<close> on a line \<open>s\<close> without NULs: the tree, and the buffer of the line and its terminator after
  \<^verbatim>\<open>nulterminate\<close>.
\<close>

definition parsecmd :: "string \<Rightarrow> (cmd, string) outcome" where
  "parsecmd s =
     seq (parseline (parse_fuel s) s) (\<lambda>cmd r.
     let (_, r) = peek r [] in
     if r \<noteq> [] then Panic ''syntax'' else Ret cmd (nulterminate (length s) cmd (s @ [NUL])))"


subsection \<open>What the parser returns\<close>

definition plain :: "char \<Rightarrow> bool" where
  "plain c \<longleftrightarrow> \<not> is_ws c \<and> \<not> is_sym c"

text \<open>A counted string that is a token of the line \<open>b\<close>: it has characters, and ends where they end.\<close>

definition is_token :: "string \<Rightarrow> span \<Rightarrow> bool" where
  "is_token b t \<longleftrightarrow>
     suffix (fst t) b \<and> (\<exists>w. fst t = w @ snd t \<and> w \<noteq> [] \<and> list_all plain w) \<and> (snd t = [] \<or> \<not> plain (hd (snd t)))"

text \<open>The counted strings of a command, and its typing: what the parser may put where.\<close>

primrec spans :: "cmd \<Rightarrow> span list" where
  "spans (EXEC args) = args"
| "spans (REDIR cmd q mode fd) = spans cmd @ [q]"
| "spans (PIPE l r) = spans l @ spans r"
| "spans (LIST l r) = spans l @ spans r"
| "spans (BACK cmd) = spans cmd"

primrec typed :: "cmd \<Rightarrow> bool" where
  "typed (EXEC args) \<longleftrightarrow> length args < MAXARGS"
| "typed (REDIR cmd q mode fd) \<longleftrightarrow> typed cmd \<and> (mode = sh_rdonly \<and> fd = 0 \<or> mode = sh_wronly_create \<and> fd = 1)"
| "typed (PIPE l r) \<longleftrightarrow> typed l \<and> typed r"
| "typed (LIST l r) \<longleftrightarrow> typed l \<and> typed r"
| "typed (BACK cmd) \<longleftrightarrow> typed cmd"

definition cmd_ok :: "string \<Rightarrow> cmd \<Rightarrow> bool" where
  "cmd_ok b c \<longleftrightarrow> typed c \<and> (\<forall>t \<in> set (spans c). is_token b t)"

text \<open>An outcome of parsing from \<open>s\<close>, in the line \<open>b\<close>: a panic, or a good command and a later position.\<close>

definition parsed :: "string \<Rightarrow> string \<Rightarrow> (cmd, string) outcome \<Rightarrow> bool" where
  "parsed b s r \<longleftrightarrow> (case r of Ret c s' \<Rightarrow> cmd_ok b c \<and> suffix s' s | Panic _ \<Rightarrow> True | _ \<Rightarrow> False)"

lemma parsed_simps [simp]:
  "parsed b s (Ret c s') \<longleftrightarrow> cmd_ok b c \<and> suffix s' s" "parsed b s (Panic msg)" "\<not> parsed b s Diverge"
  by (simp_all add: parsed_def)

lemma parsed_seq:
  assumes "parsed b s r" "\<And>c s'. cmd_ok b c \<Longrightarrow> suffix s' s \<Longrightarrow> parsed b s (f c s')"
  shows "parsed b s (seq r f)"
  using assms by (cases r) (auto simp: parsed_def)

lemma parsed_later: "parsed b s' r \<Longrightarrow> suffix s' s \<Longrightarrow> parsed b s r"
  by (cases r) (auto simp: parsed_def intro: suffix_order.trans)

lemma cmd_ok_simps [simp]:
  "cmd_ok b (EXEC [])" "cmd_ok b (PIPE c d) \<longleftrightarrow> cmd_ok b c \<and> cmd_ok b d" "cmd_ok b (LIST c d) \<longleftrightarrow> cmd_ok b c \<and> cmd_ok b d"
  "cmd_ok b (BACK c) \<longleftrightarrow> cmd_ok b c"
  "cmd_ok b (REDIR c q m fd) \<longleftrightarrow>
     cmd_ok b c \<and> is_token b q \<and> (m = sh_rdonly \<and> fd = 0 \<or> m = sh_wronly_create \<and> fd = 1)"
  by (auto simp: cmd_ok_def)

lemma suffix_skip_ws: "suffix (skip_ws s) s"
  by (simp add: skip_ws_def suffix_dropWhile)

lemma suffix_peek: "suffix (snd (peek s toks)) s"
  by (simp add: peek_def Let_def suffix_skip_ws)

lemma gettoken_suffix: "suffix (fst (fst (snd (gettoken s)))) s \<and> suffix (snd (fst (snd (gettoken s)))) s \<and> suffix (snd (snd (gettoken s))) s"
proof -
  let ?q = "skip_ws s"
  let ?e = "snd (fst (snd (gettoken s)))"
  have e: "suffix ?e ?q"
  proof (cases ?q)
    case (Cons c r)
    then show ?thesis
      using suffix_dropWhile [of "\<lambda>c. \<not> is_ws c \<and> \<not> is_sym c" "c # r"]
      by (cases r) (simp_all add: gettoken_def Let_def suffix_Cons del: dropWhile.simps)
  qed (simp add: gettoken_def Let_def)
  have "fst (fst (snd (gettoken s))) = ?q" "snd (snd (gettoken s)) = skip_ws ?e"
    by (simp_all add: gettoken_def Let_def split: prod.splits)
  then show ?thesis
    using suffix_skip_ws [of s] suffix_order.trans [OF e suffix_skip_ws]
      suffix_order.trans [OF suffix_skip_ws [of ?e] suffix_order.trans [OF e suffix_skip_ws]] by (simp only:)
qed

lemma gettoken_word:
  assumes "fst (gettoken s) = CHR ''a''"
  shows "is_token s (fst (snd (gettoken s)))"
proof -
  obtain c r where q: "skip_ws s = c # r"
    using assms by (cases "skip_ws s") (auto simp: gettoken_def Let_def)
  let ?e = "dropWhile plain (c # r)"
  have g: "fst (snd (gettoken s)) = (c # r, ?e)" "plain c"
  proof -
    have "\<not> is_ws c"
      using q hd_dropWhile [of is_ws s] by (simp add: skip_ws_def)
    moreover have "is_sym c \<Longrightarrow> c \<in> set ''|();&<'' \<or> c = CHR ''>''"
      by (auto simp: is_sym_def symbols_def split: if_splits)
    moreover have "(\<lambda>c. \<not> is_ws c \<and> \<not> is_sym c) = plain"
      by (simp add: fun_eq_iff plain_def)
    ultimately show "fst (snd (gettoken s)) = (c # r, ?e)" "plain c"
      using assms q by (auto simp: gettoken_def Let_def plain_def split: list.splits if_splits)
  qed
  have "c # r = takeWhile plain (c # r) @ ?e" "takeWhile plain (c # r) \<noteq> []" "list_all plain (takeWhile plain (c # r))"
    using g(2) by (auto simp: list_all_iff dest: set_takeWhileD)
  moreover have "?e = [] \<or> \<not> plain (hd ?e)"
    using hd_dropWhile by blast
  moreover have "suffix (c # r) s"
    using suffix_skip_ws [of s] q by simp
  ultimately show ?thesis
    unfolding is_token_def g(1) fst_conv snd_conv by blast
qed

lemma is_token_later: "is_token s t \<Longrightarrow> suffix s b \<Longrightarrow> is_token b t"
  by (auto simp: is_token_def intro: suffix_order.trans)


text \<open>The two steps of reading, in the form in which the functions take them apart.\<close>

lemma peekD: "peek s toks = (p, s') \<Longrightarrow> suffix s' s \<and> (p \<longrightarrow> s' \<noteq> [] \<and> fst (gettoken s') \<noteq> NUL)"
  using suffix_peek [of s toks] peek_gettoken [of s toks]
  by (auto simp: peek_def Let_def split: list.splits)

lemma gettokenD:
  assumes "gettoken s = (tok, q, s')"
  shows "suffix s' s" "tok \<noteq> NUL \<Longrightarrow> length s' < length s" "tok = CHR ''a'' \<Longrightarrow> is_token s q"
  using gettoken_suffix [of s] gettoken_length(2) [of s] gettoken_word [of s] assms by simp_all

lemma parseredirs_parsed:
  assumes "cmd_ok b cmd" "suffix s b"
  shows "parsed b s (parseredirs cmd s)"
  using assms
proof (induction cmd s rule: parseredirs.induct)
  case (1 cmd s)
  obtain p s1 where p: "peek s ''<>'' = (p, s1)"
    by (cases "peek s ''<>''")
  have s1: "suffix s1 s"
    using peekD [OF p] by simp
  show ?case
  proof (cases p)
    case False
    then show ?thesis
      using 1(2) p s1 by (simp add: parseredirs.simps [of cmd s])
  next
    case True
    obtain tok q1 s2 where g1: "gettoken s1 = (tok, q1, s2)"
      by (cases "gettoken s1")
    obtain t q s3 where g2: "gettoken s2 = (t, q, s3)"
      by (cases "gettoken s2")
    have s3: "suffix s2 s" "suffix s3 s" "suffix s2 b" "suffix s3 b"
      using suffix_order.trans [OF gettokenD(1) [OF g1] s1]
        suffix_order.trans [OF gettokenD(1) [OF g2] suffix_order.trans [OF gettokenD(1) [OF g1] s1]] 1(3)
      by (simp_all add: suffix_order.trans)
    show ?thesis
    proof (cases "t = CHR ''a''")
      case w: True
      have "is_token b q"
        using gettokenD(3) [OF g2 w] s3(3) by (rule is_token_later)
      then have "parsed b s3 (parseredirs (if tok = CHR ''<'' then REDIR cmd q sh_rdonly 0
                   else if tok = CHR ''>'' then REDIR cmd q sh_wronly_create 1
                   else if tok = CHR ''+'' then REDIR cmd q sh_wronly_create 1
                   else cmd) s3)"
        using 1(1) [OF p [symmetric] _ g1 [symmetric] refl g2 [symmetric] refl] True w 1(2) s3(4) by simp
      then show ?thesis
        using True w parsed_later [OF _ s3(2)] by (simp add: parseredirs.simps [of cmd s] p g1 g2)
    qed (use True in \<open>simp add: parseredirs.simps [of cmd s] p g1 g2\<close>)
  qed
qed

lemma parse_backs_parsed:
  assumes "cmd_ok b cmd" "parse_backs cmd s = (c, s')"
  shows "cmd_ok b c \<and> suffix s' s"
  using assms
proof (induction cmd s rule: parse_backs.induct)
  case (1 cmd s)
  obtain p s1 where p: "peek s ''&'' = (p, s1)"
    by (cases "peek s ''&''")
  obtain tok q s2 where g: "gettoken s1 = (tok, q, s2)"
    by (cases "gettoken s1")
  have s2: "suffix s1 s" "suffix s2 s"
    using peekD [OF p] suffix_order.trans [OF gettokenD(1) [OF g]] by simp_all
  show ?case
  proof (cases p)
    case True
    then have "cmd_ok b c \<and> suffix s' s2"
      using 1(1) [OF p [symmetric] _ g [symmetric] refl] 1(2,3) by (simp add: parse_backs.simps [of cmd s] p g)
    then show ?thesis
      using s2 suffix_order.trans by blast
  qed (use 1 s2 in \<open>simp add: parse_backs.simps [of cmd s] p\<close>)
qed

text \<open>The number of arguments of the command that \<open>add_arg\<close> adds to, which the redirections do not change.\<close>

fun arg_count :: "cmd \<Rightarrow> nat" where
  "arg_count (EXEC args) = length args"
| "arg_count (REDIR cmd q mode fd) = arg_count cmd"
| "arg_count cmd = 0"

lemma arg_count_redirs: "parseredirs cmd s = Ret c s' \<Longrightarrow> arg_count c = arg_count cmd"
proof (induction cmd s arbitrary: c s' rule: parseredirs.induct)
  case (1 cmd s)
  obtain p s1 where p: "peek s ''<>'' = (p, s1)"
    by (cases "peek s ''<>''")
  obtain tok q1 s2 where g1: "gettoken s1 = (tok, q1, s2)"
    by (cases "gettoken s1")
  obtain t q s3 where g2: "gettoken s2 = (t, q, s3)"
    by (cases "gettoken s2")
  show ?case
    using 1(1) [OF p [symmetric] _ g1 [symmetric] refl g2 [symmetric] refl, of c s'] 1(2)
    by (cases p; cases "t = CHR ''a''") (simp_all add: parseredirs.simps [of cmd s] p g1 g2 split: if_splits)
qed

lemma add_arg_ok:
  "cmd_ok b c \<Longrightarrow> is_token b q \<Longrightarrow> arg_count c + 1 < MAXARGS \<Longrightarrow> cmd_ok b (add_arg q c)"
  by (induction q c rule: add_arg.induct) (auto simp: cmd_ok_def)

lemma arg_count_add_arg: "arg_count (add_arg q c) \<le> Suc (arg_count c)"
  by (induction q c rule: add_arg.induct) auto


lemma peek_step: "peek s toks = (p, s1) \<Longrightarrow> suffix s t \<Longrightarrow> suffix s1 t"
  using peekD suffix_order.trans by blast

lemma token_step:
  assumes "peek s toks = (True, s1)" "gettoken s1 = (tok, q, s2)" "suffix s t"
  shows "suffix s2 t" "length s2 < length t"
proof -
  have "suffix s1 t" "tok \<noteq> NUL"
    using peek_step [OF assms(1,3)] peekD [OF assms(1)] assms(2) by simp_all
  then show "suffix s2 t" "length s2 < length t"
    using gettokenD(1,2) [OF assms(2)] suffix_order.trans suffix_length_le [of s1 t] by (blast, simp)
qed

lemma parse_args_parsed:
  assumes "cmd_ok b ret" "arg_count ret \<le> argc" "suffix s b"
  shows "parsed b s (parse_args ret argc s)"
  using assms
proof (induction ret argc s rule: parse_args.induct)
  case (1 ret argc s)
  obtain p s1 where p: "peek s ''|)&;'' = (p, s1)"
    by (cases "peek s ''|)&;''")
  obtain tok q s2 where g: "gettoken s1 = (tok, q, s2)"
    by (cases "gettoken s1")
  have s2: "suffix s1 s" "suffix s2 s" "suffix s1 b" "suffix s2 b"
    using peek_step [OF p] gettokenD(1) [OF g] 1(4) suffix_order.trans by blast+
  note unf = parse_args.simps [of ret argc s] p g
  show ?case
  proof (cases "\<not> p \<and> tok = CHR ''a'' \<and> argc + 1 < MAXARGS")
    case False
    then show ?thesis
      using 1(2) s2 by (cases p; cases "tok = NUL") (auto simp: unf)
  next
    case True
    then have q: "is_token b q"
      using gettokenD(3) [OF g] s2(3) is_token_later by blast
    have r: "parsed b s2 (parseredirs (add_arg q ret) s2)"
      using add_arg_ok [OF 1(2) q] 1(3) True s2(4) by (intro parseredirs_parsed) auto
    show ?thesis
    proof (cases "parseredirs (add_arg q ret) s2")
      case (Ret c s3)
      have c: "cmd_ok b c" "suffix s3 s2" "arg_count c \<le> argc + 1"
        using r Ret arg_count_redirs [OF Ret] arg_count_add_arg [of q ret] 1(3) by auto
      have "suffix s3 s" "suffix s3 b"
        using c(2) s2(2,4) suffix_order.trans by blast+
      then show ?thesis
        using 1(1) [OF p [symmetric] _ g [symmetric] refl _ _ _ Ret] True c
        by (simp add: unf Ret parsed_later)
    qed (use r True in \<open>auto simp: unf parsed_def\<close>)
  qed
qed

lemma parseline_parsed:
  assumes "parsed b s (parsepipe n s)"
    "\<And>s'. suffix s' s \<Longrightarrow> length s' < length s \<Longrightarrow> parsed b s' (parseline n s')"
  shows "parsed b s (parseline (Suc n) s)"
  unfolding parseline.simps
proof (rule parsed_seq [OF assms(1)])
  fix cmd s0
  assume c: "cmd_ok b cmd" "suffix s0 s"
  obtain cmd1 s1 where b: "parse_backs cmd s0 = (cmd1, s1)"
    by (cases "parse_backs cmd s0")
  obtain p s2 where p: "peek s1 '';'' = (p, s2)"
    by (cases "peek s1 '';''")
  obtain tok q s3 where g: "gettoken s2 = (tok, q, s3)"
    by (cases "gettoken s2")
  have c1: "cmd_ok b cmd1" "suffix s1 s"
    using parse_backs_parsed [OF c(1) b] suffix_order.trans c(2) by blast+
  have "parsed b s (seq (parseline n s3) (\<lambda>r s. Ret (LIST cmd1 r) s))" if p
  proof (rule parsed_seq)
    have s3: "suffix s3 s" "length s3 < length s"
      using token_step [OF _ g c1(2)] p that by simp_all
    show "parsed b s (parseline n s3)"
      by (rule parsed_later [OF assms(2) [OF s3] s3(1)])
  qed (use c1(1) in simp)
  then show "parsed b s (let (cmd, s) = parse_backs cmd s0; (p, s) = peek s '';'' in
      if p then let (_, _, s) = gettoken s in seq (parseline n s) (\<lambda>r s. Ret (LIST cmd r) s) else Ret cmd s)"
    using c1(1) peek_step [OF p c1(2)] by (simp add: b p g Let_def)
qed

lemma parsepipe_parsed:
  assumes "parsed b s (parseexec n s)"
    "\<And>s'. suffix s' s \<Longrightarrow> length s' < length s \<Longrightarrow> parsed b s' (parsepipe n s')"
  shows "parsed b s (parsepipe (Suc n) s)"
  unfolding parsepipe.simps
proof (rule parsed_seq [OF assms(1)])
  fix cmd s1
  assume c1: "cmd_ok b cmd" "suffix s1 s"
  obtain p s2 where p: "peek s1 ''|'' = (p, s2)"
    by (cases "peek s1 ''|''")
  obtain tok q s3 where g: "gettoken s2 = (tok, q, s3)"
    by (cases "gettoken s2")
  have "parsed b s (seq (parsepipe n s3) (\<lambda>r s. Ret (PIPE cmd r) s))" if p
  proof (rule parsed_seq)
    have s3: "suffix s3 s" "length s3 < length s"
      using token_step [OF _ g c1(2)] p that by simp_all
    show "parsed b s (parsepipe n s3)"
      by (rule parsed_later [OF assms(2) [OF s3] s3(1)])
  qed (use c1(1) in simp)
  then show "parsed b s (let (p, s) = peek s1 ''|'' in
      if p then let (_, _, s) = gettoken s in seq (parsepipe n s) (\<lambda>r s. Ret (PIPE cmd r) s) else Ret cmd s)"
    using c1(1) peek_step [OF p c1(2)] by (simp add: p g Let_def)
qed

lemma parseexec_parsed:
  assumes "suffix s b" "\<And>s'. suffix s' s \<Longrightarrow> parsed b s' (parseblock n s')"
  shows "parsed b s (parseexec (Suc n) s)"
proof -
  obtain p s1 where p: "peek s ''('' = (p, s1)"
    by (cases "peek s ''(''")
  have s1: "suffix s1 s" "suffix s1 b"
    using peek_step [OF p] assms(1) by blast+
  have "parsed b s (seq (parseredirs (EXEC []) s1) (\<lambda>ret s. parse_args ret 0 s))"
  proof (cases "parseredirs (EXEC []) s1")
    case (Ret c s2)
    have c: "cmd_ok b c" "suffix s2 s1" "arg_count c = 0"
      using parseredirs_parsed [of b "EXEC []" s1] s1(2) arg_count_redirs [OF Ret] Ret by simp_all
    have "suffix s2 b" "suffix s2 s"
      using c(2) s1 suffix_order.trans by blast+
    then show ?thesis
      using parse_args_parsed [OF c(1), of 0 s2] c(3) parsed_later Ret by simp
  qed (use parseredirs_parsed [of b "EXEC []" s1] s1(2) in \<open>auto simp: parsed_def\<close>)
  then show ?thesis
    using parsed_later [OF assms(2) [OF s1(1)] s1(1)] by (simp add: p)
qed

lemma parseblock_parsed:
  assumes "suffix s b" "\<And>s'. suffix s' s \<Longrightarrow> length s' < length s \<Longrightarrow> parsed b s' (parseline n s')"
  shows "parsed b s (parseblock (Suc n) s)"
proof -
  obtain p s1 where p: "peek s ''('' = (p, s1)"
    by (cases "peek s ''(''")
  obtain tok q s2 where g: "gettoken s1 = (tok, q, s2)"
    by (cases "gettoken s1")
  show ?thesis
  proof (cases p)
    case True
    have s2: "suffix s2 s" "length s2 < length s"
      using token_step [OF _ g suffix_order.refl] p True by simp_all
    have "parsed b s (seq (parseline n s2) (\<lambda>cmd s. let (p, s) = peek s '')'' in
        if \<not> p then Panic ''syntax - missing )'' else let (_, _, s) = gettoken s in parseredirs cmd s))"
    proof (rule parsed_seq)
      show "parsed b s (parseline n s2)"
        by (rule parsed_later [OF assms(2) [OF s2] s2(1)])
      fix c s3
      assume c: "cmd_ok b c" "suffix s3 s"
      obtain p' s4 where p': "peek s3 '')'' = (p', s4)"
        by (cases "peek s3 '')''")
      obtain tok' q' s5 where g': "gettoken s4 = (tok', q', s5)"
        by (cases "gettoken s4")
      have s5: "suffix s5 s"
        using peek_step [OF p' c(2)] gettokenD(1) [OF g'] suffix_order.trans by blast
      have "parsed b s5 (parseredirs c s5)"
        using c(1) suffix_order.trans [OF s5 assms(1)] by (rule parseredirs_parsed)
      then show "parsed b s (let (p, s) = peek s3 '')'' in
          if \<not> p then Panic ''syntax - missing )'' else let (_, _, s) = gettoken s in parseredirs c s)"
        using parsed_later s5 by (simp add: p' g')
    qed
    then show ?thesis
      using True by (simp add: p g)
  qed (simp add: p)
qed

lemma parser_parsed:
  "suffix s b \<Longrightarrow>
     (4 * length s + 4 \<le> n \<longrightarrow> parsed b s (parseline n s)) \<and> (4 * length s + 3 \<le> n \<longrightarrow> parsed b s (parsepipe n s)) \<and>
     (4 * length s + 2 \<le> n \<longrightarrow> parsed b s (parseexec n s)) \<and> (4 * length s + 1 \<le> n \<longrightarrow> parsed b s (parseblock n s))"
proof (induction n arbitrary: s)
  case (Suc n)
  have len: "suffix s' s \<Longrightarrow> suffix s' b \<and> length s' \<le> length s" for s'
    using Suc.prems suffix_order.trans suffix_length_le by blast
  have ih: "suffix s' s \<Longrightarrow> 4 * length s' + 4 \<le> n \<Longrightarrow> parsed b s' (parseline n s')"
    "suffix s' s \<Longrightarrow> 4 * length s' + 3 \<le> n \<Longrightarrow> parsed b s' (parsepipe n s')"
    "suffix s' s \<Longrightarrow> 4 * length s' + 2 \<le> n \<Longrightarrow> parsed b s' (parseexec n s')"
    "suffix s' s \<Longrightarrow> 4 * length s' + 1 \<le> n \<Longrightarrow> parsed b s' (parseblock n s')" for s'
    using Suc.IH [of s'] len by blast+
  show ?case
  proof (intro conjI impI)
    assume "4 * length s + 4 \<le> Suc n"
    then show "parsed b s (parseline (Suc n) s)"
      by (intro parseline_parsed ih) simp_all
  next
    assume "4 * length s + 3 \<le> Suc n"
    then show "parsed b s (parsepipe (Suc n) s)"
      by (intro parsepipe_parsed ih) simp_all
  next
    assume "4 * length s + 2 \<le> Suc n"
    then show "parsed b s (parseexec (Suc n) s)"
      using len by (intro parseexec_parsed ih) (use Suc.prems in fastforce)+
  next
    assume "4 * length s + 1 \<le> Suc n"
    then show "parsed b s (parseblock (Suc n) s)"
      by (intro parseblock_parsed ih Suc.prems) simp_all
  qed
qed simp


subsection \<open>The NULs\<close>

text \<open>The C string at a position of a buffer, and the characters of a counted string.\<close>

definition cstr :: "string \<Rightarrow> nat \<Rightarrow> string" where
  "cstr buf p = takeWhile (\<lambda>c. c \<noteq> NUL) (drop p buf)"

definition span_text :: "span \<Rightarrow> string" where
  "span_text t = take (length (fst t) - length (snd t)) (fst t)"

lemma cstr_take:
  assumes "take (Suc (length w)) (drop p buf) = w @ [NUL]" "NUL \<notin> set w"
  shows "cstr buf p = w"
proof -
  have "drop p buf = (w @ [NUL]) @ drop (Suc (length w)) (drop p buf)"
    using append_take_drop_id [of "Suc (length w)" "drop p buf"] assms(1) by simp
  then have "cstr buf p = takeWhile (\<lambda>c. c \<noteq> NUL) ((w @ [NUL]) @ drop (Suc (length w)) (drop p buf))"
    unfolding cstr_def by (rule arg_cong)
  also have "\<dots> = w"
    using assms(2) by (auto simp: takeWhile_append)
  finally show ?thesis .
qed

lemma nulterminate_fold: "nulterminate n c buf = fold (put_nul n) (spans c) buf"
  by (induction c arbitrary: buf) simp_all

lemma fold_put_nul:
  "length (fold (put_nul n) ts buf) = length buf \<and>
   (i < length buf \<longrightarrow> fold (put_nul n) ts buf ! i = (if \<exists>t \<in> set ts. i = n - length (snd t) then NUL else buf ! i))"
  by (induction ts arbitrary: buf) (auto simp: put_nul_def nth_list_update)

lemma token_end:
  assumes "is_token s t" "i = length s - length (snd t)" "i < length s"
  shows "\<not> plain (s ! i)"
proof -
  obtain pre w where s: "s = pre @ w @ snd t"
    using assms(1) by (auto simp: is_token_def suffix_def)
  then have "i = length (pre @ w)" "snd t \<noteq> []"
    using assms(2,3) by auto
  then have "s ! i = hd (snd t)"
    using s by (simp add: nth_append hd_conv_nth)
  then show ?thesis
    using assms(1) \<open>snd t \<noteq> []\<close> by (auto simp: is_token_def)
qed

lemma nulterminate_reads:
  assumes "NUL \<notin> set s" "\<forall>t \<in> set ts. is_token s t" "t \<in> set ts"
  shows "cstr (fold (put_nul (length s)) ts (s @ [NUL])) (length s - length (fst t)) = span_text t"
proof -
  let ?b = "fold (put_nul (length s)) ts (s @ [NUL])"
  have tok: "is_token s t"
    using assms(2,3) by blast
  then obtain pre w where s: "s = pre @ w @ snd t" and q: "fst t = w @ snd t" and w: "list_all plain w"
    by (auto simp: is_token_def suffix_def)
  have len: "length ?b = Suc (length s)"
    using fold_put_nul [of "length s" ts "s @ [NUL]"] by simp
  have nth: "i < Suc (length s) \<Longrightarrow> ?b ! i = (if \<exists>u \<in> set ts. i = length s - length (snd u) then NUL else (s @ [NUL]) ! i)" for i
    using fold_put_nul [of "length s" ts "s @ [NUL]" i] by simp
  have "?b ! (length pre + j) = w ! j" if j: "j < length w" for j
  proof -
    have wj: "s ! (length pre + j) = w ! j" "length pre + j < length s"
      using j by (simp_all add: s nth_append)
    have "plain (w ! j)"
      using w j by (simp add: list_all_length)
    then have "\<not> (\<exists>u \<in> set ts. length pre + j = length s - length (snd u))"
      using token_end [of s _ "length pre + j"] assms(2) wj by metis
    then show ?thesis
      using nth [of "length pre + j"] wj by (simp add: nth_append)
  qed
  moreover have "?b ! (length pre + length w) = NUL"
  proof -
    have "length pre + length w = length s - length (snd t)" "length pre + length w < Suc (length s)"
      by (simp_all add: s)
    then show ?thesis
      using nth [of "length pre + length w"] assms(3) by auto
  qed
  ultimately have "take (Suc (length w)) (drop (length pre) ?b) = w @ [NUL]"
    using len by (intro nth_equalityI) (auto simp: s nth_append less_Suc_eq)
  moreover have "NUL \<notin> set w"
    using assms(1) by (simp add: s)
  ultimately have "cstr ?b (length pre) = w"
    by (rule cstr_take)
  then show ?thesis
    by (simp add: s q span_text_def)
qed

lemma parse_ok: "parsed s s (parseline (parse_fuel s) s)"
  using parser_parsed [of s s "parse_fuel s"] by (simp add: parse_fuel_def)

lemma parsecmd_sound:
  assumes "NUL \<notin> set s" "parsecmd s = Ret c buf"
  shows "cmd_ok s c" "\<forall>t \<in> set (spans c). cstr buf (length s - length (fst t)) = span_text t"
proof -
  show ok: "cmd_ok s c"
    using assms(2) parse_ok [of s]
    by (cases "parseline (parse_fuel s) s") (auto simp: parsecmd_def parsed_def Let_def split: prod.splits if_splits)
  have "buf = nulterminate (length s) c (s @ [NUL])"
    using assms(2)
    by (cases "parseline (parse_fuel s) s") (auto simp: parsecmd_def Let_def split: prod.splits if_splits)
  then show "\<forall>t \<in> set (spans c). cstr buf (length s - length (fst t)) = span_text t"
    using nulterminate_reads [OF assms(1), of "spans c"] ok by (simp add: cmd_ok_def nulterminate_fold)
qed

subsection \<open>Printing commands\<close>

text \<open>Commands with their strings in place, as they are meant, and how they are written on a line.\<close>

datatype acmd =
    AExec "string list"
  | ARedir acmd string u32 nat
  | APipe acmd acmd
  | AList acmd acmd
  | ABack acmd

primrec abs_cmd :: "(span \<Rightarrow> string) \<Rightarrow> cmd \<Rightarrow> acmd" where
  "abs_cmd f (EXEC args) = AExec (map f args)"
| "abs_cmd f (REDIR cmd q mode fd) = ARedir (abs_cmd f cmd) (f q) mode fd"
| "abs_cmd f (PIPE l r) = APipe (abs_cmd f l) (abs_cmd f r)"
| "abs_cmd f (LIST l r) = AList (abs_cmd f l) (abs_cmd f r)"
| "abs_cmd f (BACK cmd) = ABack (abs_cmd f cmd)"

abbreviation in_text :: "cmd \<Rightarrow> acmd" where
  "in_text \<equiv> abs_cmd span_text"

definition word_ok :: "string \<Rightarrow> bool" where
  "word_ok w \<longleftrightarrow> w \<noteq> [] \<and> list_all plain w \<and> NUL \<notin> set w"

definition redir_ok :: "string \<times> u32 \<times> nat \<Rightarrow> bool" where
  "redir_ok r \<longleftrightarrow> word_ok (fst r) \<and> snd r \<in> {(sh_rdonly, 0), (sh_wronly_create, 1)}"

primrec acmd_ok :: "acmd \<Rightarrow> bool" where
  "acmd_ok (AExec ws) \<longleftrightarrow> list_all word_ok ws \<and> length ws < MAXARGS"
| "acmd_ok (ARedir c f mode fd) \<longleftrightarrow> acmd_ok c \<and> redir_ok (f, mode, fd)"
| "acmd_ok (APipe l r) \<longleftrightarrow> acmd_ok l \<and> acmd_ok r"
| "acmd_ok (AList l r) \<longleftrightarrow> acmd_ok l \<and> acmd_ok r"
| "acmd_ok (ABack c) \<longleftrightarrow> acmd_ok c"

definition put_word :: "string \<Rightarrow> string" where
  "put_word w = w @ '' ''"

definition put_redir :: "string \<times> u32 \<times> nat \<Rightarrow> string" where
  "put_redir r = (if snd (snd r) = 0 then ''< '' else ''> '') @ put_word (fst r)"

definition put_paren :: "bool \<Rightarrow> string \<Rightarrow> string" where
  "put_paren b t = (if b then ''( '' @ t @ '') '' else t)"

text \<open>Levels: 0 a line, 1 a pipeline with its ampersands, 2 a pipeline, 3 an element of a pipeline.\<close>

primrec put_cmd :: "nat \<Rightarrow> acmd \<Rightarrow> string" where
  "put_cmd n (AExec ws) = concat (map put_word ws)"
| "put_cmd n (ARedir c f mode fd) = put_cmd 3 c @ put_redir (f, mode, fd)"
| "put_cmd n (APipe l r) = put_paren (2 < n) (put_cmd 3 l @ ''| '' @ put_cmd 2 r)"
| "put_cmd n (ABack c) = put_paren (1 < n) (put_cmd 1 c @ ''& '')"
| "put_cmd n (AList l r) = put_paren (0 < n) (put_cmd 1 l @ ''; '' @ put_cmd 0 r)"

subsection \<open>Reading what is printed\<close>

definition front :: "string \<Rightarrow> char" where
  "front s = (case skip_ws s of [] \<Rightarrow> NUL | c # _ \<Rightarrow> c)"

lemma peek_front: "NUL \<notin> set toks \<Longrightarrow> peek s toks = (front s \<in> set toks, skip_ws s)"
  using strchr_None [of toks] by (auto simp: peek_def front_def Let_def split: list.splits)

lemma skip_ws_Cons: "skip_ws (c # s) = (if is_ws c then skip_ws s else c # s)"
  by (simp add: skip_ws_def)

lemma is_ws_simps [simp]:
  "is_ws (CHR '' '')" "\<not> is_ws (CHR ''|'')" "\<not> is_ws (CHR ''('')" "\<not> is_ws (CHR '')'')" "\<not> is_ws (CHR '';'')"
  "\<not> is_ws (CHR ''&'')" "\<not> is_ws (CHR ''<'')" "\<not> is_ws (CHR ''>'')"
  by (simp_all add: is_ws_def whitespace_def)

lemma front_Cons [simp]: "front (c # s) = (if is_ws c then front s else c)"
  by (simp add: front_def skip_ws_Cons)

lemma front_skip_ws [simp]: "front (skip_ws s) = front s"
  by (simp add: front_def)

lemma peek_skip_ws [simp]: "peek (skip_ws s) toks = peek s toks"
  by (simp add: peek_def)

lemma plain_not_special:
  assumes "plain c"
  shows "c \<notin> set ''|();&<>''" "\<not> is_ws c"
  using assms by (auto simp: plain_def is_sym_def symbols_def split: if_splits)

lemma word_front:
  assumes "word_ok w"
  shows "front (w @ s) \<notin> set ''|();&<>''" "front (w @ s) \<noteq> NUL" "skip_ws (w @ s) = w @ s"
proof -
  obtain c v where w: "w = c # v" "plain c" "c \<noteq> NUL"
    using assms by (cases w) (auto simp: word_ok_def)
  show "front (w @ s) \<notin> set ''|();&<>''" "front (w @ s) \<noteq> NUL" "skip_ws (w @ s) = w @ s"
    using w(3) plain_not_special [OF w(2)] unfolding w(1) by (simp_all add: skip_ws_Cons del: set_simps)
qed

lemma gettoken_put_word:
  assumes "word_ok w"
  shows "gettoken (put_word w @ s) = (CHR ''a'', (put_word w @ s, CHR '' '' # s), skip_ws s)"
proof -
  obtain c v where w: "w = c # v" "plain c" "c \<noteq> NUL" "list_all plain v"
    using assms by (cases w) (auto simp: word_ok_def)
  have e: "(\<lambda>c. \<not> is_ws c \<and> \<not> is_sym c) = plain"
    by (simp add: fun_eq_iff plain_def)
  have "dropWhile plain (w @ CHR '' '' # s) = CHR '' '' # s"
    using w(1,2,4) by (subst dropWhile_append2) (auto simp: list_all_iff plain_def)
  then show ?thesis
    using word_front [OF assms, of "CHR '' '' # s"] w(3) plain_not_special [OF w(2)]
    by (simp add: gettoken_def put_word_def e w(1) skip_ws_Cons)
qed

lemma gettoken_symbol:
  "c \<in> set ''|();&<'' \<Longrightarrow> gettoken (c # CHR '' '' # s) = (c, (c # CHR '' '' # s, CHR '' '' # s), skip_ws s)"
  "gettoken (CHR ''>'' # CHR '' '' # s) = (CHR ''>'', (CHR ''>'' # CHR '' '' # s, CHR '' '' # s), skip_ws s)"
  by (auto simp: gettoken_def skip_ws_Cons)


lemma parse_skip_ws [simp]:
  "parseredirs c (skip_ws s) = parseredirs c s" "parse_backs c (skip_ws s) = parse_backs c s"
  "parse_args c k (skip_ws s) = parse_args c k s" "parseexec n (skip_ws s) = parseexec n s"
  by (subst (1 2) parseredirs.simps parse_backs.simps parse_args.simps, simp)+ (cases n, simp_all)

lemma parse_skip_ws' [simp]: "parsepipe n (skip_ws s) = parsepipe n s" "parseline n (skip_ws s) = parseline n s"
proof -
  show p: "parsepipe n (skip_ws s) = parsepipe n s" for n
    by (cases n) simp_all
  show "parseline n (skip_ws s) = parseline n s"
    by (cases n) (simp_all add: p)
qed

text \<open>A command with redirections around it.\<close>

abbreviation wrap :: "acmd \<Rightarrow> string \<times> u32 \<times> nat \<Rightarrow> acmd" where
  "wrap c r \<equiv> ARedir c (fst r) (fst (snd r)) (snd (snd r))"

definition put_redirs :: "(string \<times> u32 \<times> nat) list \<Rightarrow> string" where
  "put_redirs rs = concat (map put_redir rs)"

lemma put_redirs_simps [simp]:
  "put_redirs [] = []" "put_redirs (r # rs) = put_redir r @ put_redirs rs"
  by (simp_all add: put_redirs_def)

lemma parseredirs_none: "front s \<notin> set ''<>'' \<Longrightarrow> parseredirs c s = Ret c (skip_ws s)"
  by (subst parseredirs.simps) (simp add: peek_front)

lemma parseredirs_one:
  assumes "redir_ok r"
  shows "\<exists>q. span_text q = fst r \<and> parseredirs c (put_redir r @ s) = parseredirs (REDIR c q (fst (snd r)) (snd (snd r))) s"
proof -
  let ?q = "(put_word (fst r) @ s, CHR '' '' # s)"
  have w: "word_ok (fst r)"
    using assms by (simp add: redir_ok_def)
  have k: "skip_ws (put_word (fst r) @ s) = put_word (fst r) @ s"
    using word_front(3) [OF w, of "'' '' @ s"] by (simp add: put_word_def)
  have "parseredirs c (put_redir r @ s) = parseredirs (REDIR c ?q (fst (snd r)) (snd (snd r))) s"
    using assms by (subst parseredirs.simps)
      (auto simp: peek_front put_redir_def skip_ws_Cons gettoken_symbol k gettoken_put_word [OF w] redir_ok_def)
  moreover have "span_text ?q = fst r"
    by (simp add: span_text_def put_word_def)
  ultimately show ?thesis
    by blast
qed

lemma parseredirs_put:
  assumes "list_all redir_ok rs" "front s \<notin> set ''<>''"
  shows "\<exists>c'. in_text c' = foldl wrap (in_text c) rs \<and> parseredirs c (put_redirs rs @ s) = Ret c' (skip_ws s)"
  using assms
proof (induction rs arbitrary: c)
  case Nil
  then show ?case
    using parseredirs_none by auto
next
  case (Cons r rs)
  then obtain q where q: "span_text q = fst r"
      "parseredirs c (put_redir r @ put_redirs rs @ s) = parseredirs (REDIR c q (fst (snd r)) (snd (snd r))) (put_redirs rs @ s)"
    using parseredirs_one [of r c "put_redirs rs @ s"] by auto
  then show ?case
    using Cons.IH [of "REDIR c q (fst (snd r)) (snd (snd r))"] Cons.prems by simp
qed

lemma put_redirs_front:
  assumes "list_all redir_ok rs"
  shows "front (put_redirs rs @ s) = (case rs of [] \<Rightarrow> front s | r # _ \<Rightarrow> if snd (snd r) = 0 then CHR ''<'' else CHR ''>'')"
  by (cases rs) (simp_all add: put_redir_def)

abbreviation stop3 :: "string \<Rightarrow> bool" where
  "stop3 s \<equiv> front s = NUL \<or> front s \<in> set ''|&;)''"

abbreviation stop2 :: "string \<Rightarrow> bool" where
  "stop2 s \<equiv> front s = NUL \<or> front s \<in> set ''&;)''"

abbreviation stop0 :: "string \<Rightarrow> bool" where
  "stop0 s \<equiv> front s = NUL \<or> front s = CHR '')''"

lemma parse_args_stop:
  assumes "stop3 s"
  shows "parse_args c k s = Ret c (skip_ws s)"
proof -
  have "front s = NUL \<Longrightarrow> gettoken (skip_ws s) = (NUL, (skip_ws s, skip_ws s), skip_ws s)"
    using skip_ws_idem [of s] by (auto simp: front_def gettoken_def Let_def split: list.splits simp del: skip_ws_idem)
  then show ?thesis
    using assms by (subst parse_args.simps) (auto simp: peek_front)
qed

lemma parse_args_word:
  assumes "word_ok w" "Suc k < MAXARGS"
  shows "parse_args c k (put_word w @ s) =
    (case parseredirs (add_arg (put_word w @ s, CHR '' '' # s) c) s of
       Ret c s \<Rightarrow> parse_args c (k + 1) s | Panic msg \<Rightarrow> Panic msg | _ \<Rightarrow> Diverge)"
proof -
  have f: "front (put_word w @ s) \<notin> set ''|();&<>''" "skip_ws (put_word w @ s) = put_word w @ s"
    using word_front [OF assms(1), of "'' '' @ s"] by (simp_all add: put_word_def)
  then show ?thesis
    using assms(2) by (subst parse_args.simps) (simp add: peek_front gettoken_put_word [OF assms(1)])
qed

lemma put_words_front:
  "list_all word_ok ws \<Longrightarrow> ws \<noteq> [] \<Longrightarrow>
     front (concat (map put_word ws) @ s) \<notin> set ''|();&<>'' \<and> front (concat (map put_word ws) @ s) \<noteq> NUL"
  using word_front(1,2) by (cases ws) (auto simp: put_word_def simp del: set_simps)


lemma parse_args_put:
  assumes "list_all word_ok ws" "ws \<noteq> []" "list_all redir_ok rs" "stop3 s" "length args + length ws < MAXARGS"
  shows "\<exists>c'. in_text c' = foldl wrap (AExec (map span_text args @ ws)) rs \<and>
    parse_args (EXEC args) (length args) (concat (map put_word ws) @ put_redirs rs @ s) = Ret c' (skip_ws s)"
  using assms
proof (induction ws arbitrary: args)
  case (Cons w ws)
  let ?x = "concat (map put_word ws) @ put_redirs rs @ s"
  let ?q = "(put_word w @ ?x, CHR '' '' # ?x)"
  have q: "span_text ?q = w"
    by (simp add: span_text_def put_word_def)
  have p: "parse_args (EXEC args) (length args) (put_word w @ ?x) =
      (case parseredirs (EXEC (args @ [?q])) ?x of
         Ret c s \<Rightarrow> parse_args c (length args + 1) s | Panic msg \<Rightarrow> Panic msg | _ \<Rightarrow> Diverge)"
    using parse_args_word [of w "length args" "EXEC args" ?x] Cons.prems by simp
  show ?case
  proof (cases "ws = []")
    case True
    have "front s \<notin> set ''<>''"
      using Cons.prems(4) by auto
    then obtain c' where c': "in_text c' = foldl wrap (in_text (EXEC (args @ [?q]))) rs"
        "parseredirs (EXEC (args @ [?q])) (put_redirs rs @ s) = Ret c' (skip_ws s)"
      using parseredirs_put [OF Cons.prems(3)] by blast
    then show ?thesis
      using p q True parse_args_stop [OF Cons.prems(4)] by simp
  next
    case False
    then have f: "front ?x \<notin> set ''<>''"
      using put_words_front [of ws "put_redirs rs @ s"] Cons.prems(1) by auto
    show ?thesis
      using p q parseredirs_none [OF f, of "EXEC (args @ [?q])"] Cons.IH [of "args @ [?q]"] Cons.prems False by simp
  qed
qed simp

text \<open>Elements, pipelines, pipelines with ampersands and lines are read as they were printed, once the fuel is enough.\<close>

definition ok3 :: "acmd \<Rightarrow> bool" where
  "ok3 c \<longleftrightarrow> (\<forall>rs s. list_all redir_ok rs \<longrightarrow> stop3 s \<longrightarrow>
     (\<exists>c'. in_text c' = foldl wrap c rs \<and> (\<exists>N. \<forall>n \<ge> N. parseexec n (put_cmd 3 c @ put_redirs rs @ s) = Ret c' (skip_ws s))))"

definition ok2 :: "acmd \<Rightarrow> bool" where
  "ok2 c \<longleftrightarrow> (\<forall>s. stop2 s \<longrightarrow>
     (\<exists>c'. in_text c' = c \<and> (\<exists>N. \<forall>n \<ge> N. parsepipe n (put_cmd 2 c @ s) = Ret c' (skip_ws s))))"

definition line_part :: "nat \<Rightarrow> string \<Rightarrow> (cmd, string) outcome" where
  "line_part n s = seq (parsepipe n s) (\<lambda>c s. Ret (fst (parse_backs c s)) (snd (parse_backs c s)))"

definition ok1 :: "acmd \<Rightarrow> bool" where
  "ok1 c \<longleftrightarrow> (\<forall>s. stop2 s \<longrightarrow>
     (\<exists>c'. in_text c' = c \<and> (\<exists>N. \<forall>n \<ge> N. line_part n (put_cmd 1 c @ s) = Ret (fst (parse_backs c' s)) (snd (parse_backs c' s)))))"

definition ok0 :: "acmd \<Rightarrow> bool" where
  "ok0 c \<longleftrightarrow> (\<forall>s. stop0 s \<longrightarrow>
     (\<exists>c'. in_text c' = c \<and> (\<exists>N. \<forall>n \<ge> N. parseline n (put_cmd 0 c @ s) = Ret c' (skip_ws s))))"

lemma enough_Suc: "(\<And>n. n \<ge> N \<Longrightarrow> P (Suc n)) \<Longrightarrow> \<exists>N. \<forall>n \<ge> N. P n"
  by (rule exI [of _ "Suc N"]) (metis Suc_le_D Suc_le_mono)

lemma parseline_part:
  "parseline (Suc n) s =
     seq (line_part n s) (\<lambda>cmd s.
     case peek s '';'' of (p, s) \<Rightarrow>
       if p then (case gettoken s of (_, _, s) \<Rightarrow> seq (parseline n s) (\<lambda>r s. Ret (LIST cmd r) s)) else Ret cmd s)"
  by (cases "parsepipe n s") (simp_all add: line_part_def split: prod.splits)

lemma ok2_from_ok3:
  assumes "ok3 c" "put_cmd 2 c = put_cmd 3 c"
  shows "ok2 c"
  unfolding ok2_def
proof (intro allI impI)
  fix s
  assume s: "stop2 s"
  then obtain c' N where c': "in_text c' = c" "\<forall>n \<ge> N. parseexec n (put_cmd 3 c @ s) = Ret c' (skip_ws s)"
    using assms(1) [unfolded ok3_def, rule_format, of "[]" s] by auto
  have "parsepipe (Suc n) (put_cmd 2 c @ s) = Ret c' (skip_ws s)" if "n \<ge> N" for n
    using c'(2) that assms(2) s by (auto simp: peek_front)
  then show "\<exists>c'. in_text c' = c \<and> (\<exists>N. \<forall>n \<ge> N. parsepipe n (put_cmd 2 c @ s) = Ret c' (skip_ws s))"
    using c'(1) enough_Suc [of N "\<lambda>n. parsepipe n (put_cmd 2 c @ s) = Ret c' (skip_ws s)"] by blast
qed

lemma ok1_from_ok2:
  assumes "ok2 c" "put_cmd 1 c = put_cmd 2 c"
  shows "ok1 c"
  unfolding ok1_def
proof (intro allI impI)
  fix s
  assume "stop2 s"
  then obtain c' N where c': "in_text c' = c" "\<forall>n \<ge> N. parsepipe n (put_cmd 2 c @ s) = Ret c' (skip_ws s)"
    using assms(1) [unfolded ok2_def, rule_format, of s] by auto
  then have "\<forall>n \<ge> N. line_part n (put_cmd 1 c @ s) = Ret (fst (parse_backs c' s)) (snd (parse_backs c' s))"
    using assms(2) by (simp add: line_part_def)
  then show "\<exists>c'. in_text c' = c \<and>
      (\<exists>N. \<forall>n \<ge> N. line_part n (put_cmd 1 c @ s) = Ret (fst (parse_backs c' s)) (snd (parse_backs c' s)))"
    using c'(1) by blast
qed

lemma parse_backs_none: "front s \<noteq> CHR ''&'' \<Longrightarrow> parse_backs c s = (c, skip_ws s)"
  by (subst parse_backs.simps) (simp add: peek_front)

lemma ok0_from_ok1:
  assumes "ok1 c" "put_cmd 0 c = put_cmd 1 c"
  shows "ok0 c"
  unfolding ok0_def
proof (intro allI impI)
  fix s
  assume s: "stop0 s"
  then obtain c' N where c': "in_text c' = c"
      "\<forall>n \<ge> N. line_part n (put_cmd 1 c @ s) = Ret (fst (parse_backs c' s)) (snd (parse_backs c' s))"
    using assms(1) [unfolded ok1_def, rule_format, of s] by auto
  have "parse_backs c' s = (c', skip_ws s)"
    using s by (intro parse_backs_none) auto
  then have "parseline (Suc n) (put_cmd 0 c @ s) = Ret c' (skip_ws s)" if "n \<ge> N" for n
    using c'(2) that assms(2) s unfolding parseline_part by (auto simp: peek_front)
  then show "\<exists>c'. in_text c' = c \<and> (\<exists>N. \<forall>n \<ge> N. parseline n (put_cmd 0 c @ s) = Ret c' (skip_ws s))"
    using c'(1) enough_Suc [of N "\<lambda>n. parseline n (put_cmd 0 c @ s) = Ret c' (skip_ws s)"] by blast
qed


lemma ok3_from_ok0:
  assumes "ok0 c" "put_cmd 3 c = put_paren True (put_cmd 0 c)"
  shows "ok3 c"
  unfolding ok3_def
proof (intro allI impI)
  fix rs s
  assume rs: "list_all redir_ok rs" and s: "stop3 s"
  let ?t = "put_redirs rs @ s"
  have "stop0 (CHR '')'' # CHR '' '' # ?t)"
    by simp
  then obtain c0 N where c0: "in_text c0 = c"
      "\<forall>n \<ge> N. parseline n (put_cmd 0 c @ CHR '')'' # CHR '' '' # ?t) = Ret c0 (CHR '')'' # CHR '' '' # ?t)"
    using assms(1) [unfolded ok0_def, rule_format, of "CHR '')'' # CHR '' '' # ?t"] by (auto simp: skip_ws_Cons)
  have "front s \<notin> set ''<>''"
    using s by auto
  then obtain c' where c': "in_text c' = foldl wrap c rs" "parseredirs c0 ?t = Ret c' (skip_ws s)"
    using parseredirs_put [OF rs, of s c0] c0(1) by auto
  have "parseblock (Suc n) (put_cmd 3 c @ ?t) = Ret c' (skip_ws s)" if "n \<ge> N" for n
    using c0(2) that c'(2) unfolding assms(2)
    by (simp add: put_paren_def peek_front skip_ws_Cons gettoken_symbol)
  then have "parseexec (Suc (Suc n)) (put_cmd 3 c @ ?t) = Ret c' (skip_ws s)" if "n \<ge> N" for n
    using that unfolding assms(2) by (simp add: put_paren_def peek_front skip_ws_Cons del: parseblock.simps)
  then have "\<exists>N. \<forall>n \<ge> N. parseexec n (put_cmd 3 c @ ?t) = Ret c' (skip_ws s)"
    using enough_Suc [of "Suc N" "\<lambda>n. parseexec n (put_cmd 3 c @ ?t) = Ret c' (skip_ws s)"]
    by (metis Suc_le_D Suc_le_mono)
  then show "\<exists>c'. in_text c' = foldl wrap c rs \<and> (\<exists>N. \<forall>n \<ge> N. parseexec n (put_cmd 3 c @ ?t) = Ret c' (skip_ws s))"
    using c'(1) by blast
qed

lemma ok3_exec:
  assumes "list_all word_ok ws" "length ws < MAXARGS"
  shows "ok3 (AExec ws)"
  unfolding ok3_def
proof (intro allI impI)
  fix rs s
  assume rs: "list_all redir_ok rs" and s: "stop3 s"
  let ?t = "concat (map put_word ws) @ put_redirs rs @ s"
  have "\<exists>c'. in_text c' = foldl wrap (AExec ws) rs \<and> (\<forall>n. parseexec (Suc n) ?t = Ret c' (skip_ws s))"
  proof (cases "ws = []")
    case True
    have f: "front s \<notin> set ''<>''" "front (put_redirs rs @ s) \<noteq> CHR ''(''"
      using s put_redirs_front [OF rs, of s] by (auto split: list.splits)
    obtain c' where "in_text c' = foldl wrap (in_text (EXEC [])) rs" "parseredirs (EXEC []) (put_redirs rs @ s) = Ret c' (skip_ws s)"
      using parseredirs_put [OF rs f(1)] by blast
    then show ?thesis
      using True f(2) parse_args_stop [OF s] by (intro exI [of _ c']) (simp add: peek_front)
  next
    case False
    have f: "front ?t \<notin> set ''<>''" "front ?t \<noteq> CHR ''(''"
      using put_words_front [OF assms(1) False, of "put_redirs rs @ s"] by auto
    obtain c' where "in_text c' = foldl wrap (AExec ws) rs" "parse_args (EXEC []) 0 ?t = Ret c' (skip_ws s)"
      using parse_args_put [OF assms(1) False rs s, of "[]"] assms(2) by auto
    then show ?thesis
      using f(2) parseredirs_none [OF f(1)] by (intro exI [of _ c']) (simp add: peek_front)
  qed
  then obtain c' where c': "in_text c' = foldl wrap (AExec ws) rs" "\<And>n. parseexec (Suc n) ?t = Ret c' (skip_ws s)"
    by blast
  then show "\<exists>c'. in_text c' = foldl wrap (AExec ws) rs \<and>
      (\<exists>N. \<forall>n \<ge> N. parseexec n (put_cmd 3 (AExec ws) @ put_redirs rs @ s) = Ret c' (skip_ws s))"
    using enough_Suc [of 0 "\<lambda>n. parseexec n ?t = Ret c' (skip_ws s)"] by auto
qed

lemma ok3_redir:
  assumes "ok3 c" "redir_ok (f, mode, fd)"
  shows "ok3 (ARedir c f mode fd)"
  unfolding ok3_def
proof (intro allI impI)
  fix rs s
  assume "list_all redir_ok rs" "stop3 s"
  then show "\<exists>c'. in_text c' = foldl wrap (ARedir c f mode fd) rs \<and>
      (\<exists>N. \<forall>n \<ge> N. parseexec n (put_cmd 3 (ARedir c f mode fd) @ put_redirs rs @ s) = Ret c' (skip_ws s))"
    using assms(1) [unfolded ok3_def, rule_format, of "(f, mode, fd) # rs" s] assms(2) by simp
qed

lemma ok2_pipe:
  assumes "ok3 l" "ok2 r"
  shows "ok2 (APipe l r)"
  unfolding ok2_def
proof (intro allI impI)
  fix s
  assume s: "stop2 s"
  let ?t = "CHR ''|'' # CHR '' '' # put_cmd 2 r @ s"
  obtain l' N1 where l': "in_text l' = l" "\<forall>n \<ge> N1. parseexec n (put_cmd 3 l @ ?t) = Ret l' ?t"
    using assms(1) [unfolded ok3_def, rule_format, of "[]" ?t] by (auto simp: skip_ws_Cons)
  obtain r' N2 where r': "in_text r' = r" "\<forall>n \<ge> N2. parsepipe n (put_cmd 2 r @ s) = Ret r' (skip_ws s)"
    using assms(2) [unfolded ok2_def, rule_format, OF s] by blast
  have "parsepipe (Suc n) (put_cmd 2 (APipe l r) @ s) = Ret (PIPE l' r') (skip_ws s)" if "n \<ge> max N1 N2" for n
    using l'(2) r'(2) that by (simp add: put_paren_def peek_front skip_ws_Cons gettoken_symbol)
  then show "\<exists>c'. in_text c' = APipe l r \<and> (\<exists>N. \<forall>n \<ge> N. parsepipe n (put_cmd 2 (APipe l r) @ s) = Ret c' (skip_ws s))"
    using l'(1) r'(1) enough_Suc [of "max N1 N2" "\<lambda>n. parsepipe n (put_cmd 2 (APipe l r) @ s) = Ret (PIPE l' r') (skip_ws s)"]
    by (intro exI [of _ "PIPE l' r'"]) simp
qed

lemma ok1_back:
  assumes "ok1 c"
  shows "ok1 (ABack c)"
  unfolding ok1_def
proof (intro allI impI)
  fix s
  assume "stop2 s"
  let ?t = "CHR ''&'' # CHR '' '' # s"
  obtain c' N where c': "in_text c' = c"
      "\<forall>n \<ge> N. line_part n (put_cmd 1 c @ ?t) = Ret (fst (parse_backs c' ?t)) (snd (parse_backs c' ?t))"
    using assms [unfolded ok1_def, rule_format, of ?t] by auto
  have "parse_backs c' ?t = parse_backs (BACK c') s"
    by (subst parse_backs.simps) (simp add: peek_front skip_ws_Cons gettoken_symbol)
  then have "\<forall>n \<ge> N. line_part n (put_cmd 1 (ABack c) @ s) = Ret (fst (parse_backs (BACK c') s)) (snd (parse_backs (BACK c') s))"
    using c'(2) by (simp add: put_paren_def)
  then show "\<exists>c'. in_text c' = ABack c \<and>
      (\<exists>N. \<forall>n \<ge> N. line_part n (put_cmd 1 (ABack c) @ s) = Ret (fst (parse_backs c' s)) (snd (parse_backs c' s)))"
    using c'(1) by (intro exI [of _ "BACK c'"]) auto
qed

lemma ok0_list:
  assumes "ok1 l" "ok0 r"
  shows "ok0 (AList l r)"
  unfolding ok0_def
proof (intro allI impI)
  fix s
  assume s: "stop0 s"
  let ?t = "CHR '';'' # CHR '' '' # put_cmd 0 r @ s"
  obtain l' N1 where l': "in_text l' = l"
      "\<forall>n \<ge> N1. line_part n (put_cmd 1 l @ ?t) = Ret (fst (parse_backs l' ?t)) (snd (parse_backs l' ?t))"
    using assms(1) [unfolded ok1_def, rule_format, of ?t] by auto
  have b: "parse_backs l' ?t = (l', ?t)"
    using parse_backs_none [of ?t l'] by (simp add: skip_ws_Cons)
  obtain r' N2 where r': "in_text r' = r" "\<forall>n \<ge> N2. parseline n (put_cmd 0 r @ s) = Ret r' (skip_ws s)"
    using assms(2) [unfolded ok0_def, rule_format, OF s] by blast
  have "parseline (Suc n) (put_cmd 0 (AList l r) @ s) = Ret (LIST l' r') (skip_ws s)" if "n \<ge> max N1 N2" for n
    using l'(2) r'(2) that b unfolding parseline_part
    by (simp add: put_paren_def peek_front skip_ws_Cons gettoken_symbol)
  then show "\<exists>c'. in_text c' = AList l r \<and> (\<exists>N. \<forall>n \<ge> N. parseline n (put_cmd 0 (AList l r) @ s) = Ret c' (skip_ws s))"
    using l'(1) r'(1) enough_Suc [of "max N1 N2" "\<lambda>n. parseline n (put_cmd 0 (AList l r) @ s) = Ret (LIST l' r') (skip_ws s)"]
    by (intro exI [of _ "LIST l' r'"]) simp
qed

lemma put_cmd_read: "acmd_ok c \<Longrightarrow> ok3 c \<and> ok2 c \<and> ok1 c \<and> ok0 c"
proof (induction c)
  case (AExec ws)
  then have "ok3 (AExec ws)"
    by (simp add: ok3_exec)
  then show ?case
    using ok2_from_ok3 ok1_from_ok2 ok0_from_ok1 by simp
next
  case (ARedir c f mode fd)
  then have "ok3 (ARedir c f mode fd)"
    by (simp add: ok3_redir)
  then show ?case
    using ok2_from_ok3 ok1_from_ok2 ok0_from_ok1 by simp
next
  case (APipe l r)
  then have "ok2 (APipe l r)"
    by (simp add: ok2_pipe)
  then show ?case
    using ok1_from_ok2 ok0_from_ok1 ok3_from_ok0 by (simp add: put_paren_def)
next
  case (AList l r)
  then have "ok0 (AList l r)"
    by (simp add: ok0_list)
  then show ?case
    using ok3_from_ok0 ok2_from_ok3 ok1_from_ok2 by (simp add: put_paren_def)
next
  case (ABack c)
  then have "ok1 (ABack c)"
    by (simp add: ok1_back)
  then show ?case
    using ok0_from_ok1 ok3_from_ok0 ok2_from_ok3 by (simp add: put_paren_def)
qed


text \<open>More fuel does not change a result.\<close>

lemma seq_more:
  assumes "seq r f \<noteq> Diverge" "r \<noteq> Diverge \<Longrightarrow> r' = r" "\<And>c s. f c s \<noteq> Diverge \<Longrightarrow> f' c s = f c s"
  shows "seq r' f' = seq r f"
  using assms by (cases r) auto

lemma fuel_more:
  "(parseline n s \<noteq> Diverge \<longrightarrow> parseline (Suc n) s = parseline n s) \<and>
   (parsepipe n s \<noteq> Diverge \<longrightarrow> parsepipe (Suc n) s = parsepipe n s) \<and>
   (parseexec n s \<noteq> Diverge \<longrightarrow> parseexec (Suc n) s = parseexec n s) \<and>
   (parseblock n s \<noteq> Diverge \<longrightarrow> parseblock (Suc n) s = parseblock n s)"
proof (induction n arbitrary: s)
  case (Suc n)
  have "parseline (Suc n) s \<noteq> Diverge \<Longrightarrow> parseline (Suc (Suc n)) s = parseline (Suc n) s"
    unfolding parseline.simps(2) [of "Suc n" s] parseline.simps(2) [of n s]
    by (erule seq_more) (use Suc.IH in \<open>auto split: prod.splits intro!: seq_more simp del: parseline.simps parsepipe.simps parseexec.simps parseblock.simps\<close>)
  moreover have "parsepipe (Suc n) s \<noteq> Diverge \<Longrightarrow> parsepipe (Suc (Suc n)) s = parsepipe (Suc n) s"
    unfolding parsepipe.simps(2) [of "Suc n" s] parsepipe.simps(2) [of n s]
    by (erule seq_more) (use Suc.IH in \<open>auto split: prod.splits intro!: seq_more simp del: parseline.simps parsepipe.simps parseexec.simps parseblock.simps\<close>)
  moreover have "parseexec (Suc n) s \<noteq> Diverge \<Longrightarrow> parseexec (Suc (Suc n)) s = parseexec (Suc n) s"
    unfolding parseexec.simps(2) [of "Suc n" s] parseexec.simps(2) [of n s]
    using Suc.IH by (auto split: prod.splits simp del: parseline.simps parsepipe.simps parseexec.simps parseblock.simps)
  moreover have "parseblock (Suc n) s \<noteq> Diverge \<Longrightarrow> parseblock (Suc (Suc n)) s = parseblock (Suc n) s"
    unfolding parseblock.simps(2) [of "Suc n" s] parseblock.simps(2) [of n s]
    using Suc.IH by (auto split: prod.splits intro!: seq_more simp del: parseline.simps parsepipe.simps parseexec.simps parseblock.simps)
  ultimately show ?case
    by blast
qed simp

lemma fuel_enough:
  assumes "parseline k s \<noteq> Diverge" "k \<le> n"
  shows "parseline n s = parseline k s"
  using assms(2)
proof (induction rule: dec_induct)
  case (step m)
  then show ?case
    using fuel_more [of m s] assms(1) by simp
qed simp


subsection \<open>The parser\<close>

text \<open>C37 (termination). Parsing a command line always ends, in a command or in a panic; the fuel given to the four
  mutually recursive functions is enough for every line, and more would change nothing.\<close>

theorem parsecmd_ends:
  "((\<exists>c buf. parsecmd s = Ret c buf) \<or> (\<exists>msg. parsecmd s = Panic msg)) \<and>
   parseline (parse_fuel s + k) s = parseline (parse_fuel s) s"
proof
  show "(\<exists>c buf. parsecmd s = Ret c buf) \<or> (\<exists>msg. parsecmd s = Panic msg)"
    using parse_ok [of s]
    by (cases "parseline (parse_fuel s) s") (auto simp: parsecmd_def parsed_def Let_def split: prod.splits)
  show "parseline (parse_fuel s + k) s = parseline (parse_fuel s) s"
    using parse_ok [of s] by (intro fuel_enough) (auto simp: parsed_def)
qed

text \<open>C36 (type). Every command that the parser returns is well formed: no more than nine arguments anywhere, redirections
  only of descriptor 0 for reading and 1 for writing, and every argument and file name a token of the line. After
  \<^verbatim>\<open>nulterminate\<close> each of those pointers, read as a C string, is exactly its token: the NUL written after one token
  never cuts another.\<close>

theorem parsecmd_typed:
  assumes "NUL \<notin> set s" "parsecmd s = Ret c buf"
  shows "typed c \<and> (\<forall>t \<in> set (spans c). is_token s t \<and> cstr buf (length s - length (fst t)) = span_text t)"
  using parsecmd_sound [OF assms] by (auto simp: cmd_ok_def)

lemma abs_cmd_cong: "\<forall>t \<in> set (spans c). f t = g t \<Longrightarrow> abs_cmd f c = abs_cmd g c"
  by (induction c) auto

lemma parsecmd_put:
  assumes "acmd_ok c"
  shows "\<exists>c' buf. parsecmd (put_cmd 0 c) = Ret c' buf \<and> in_text c' = c"
proof -
  let ?s = "put_cmd 0 c"
  have "stop0 []"
    by (simp add: front_def skip_ws_def)
  then obtain c' N where c': "in_text c' = c" "\<forall>n \<ge> N. parseline n (?s @ []) = Ret c' (skip_ws [])"
    using put_cmd_read [OF assms] unfolding ok0_def by blast
  have "parseline (parse_fuel ?s) ?s \<noteq> Diverge"
    using parse_ok [of ?s] by auto
  then have "parseline (parse_fuel ?s) ?s = parseline (max N (parse_fuel ?s)) ?s"
    using fuel_enough [of "parse_fuel ?s" ?s "max N (parse_fuel ?s)"] by simp
  then have "parseline (parse_fuel ?s) ?s = Ret c' []"
    using c'(2) by (simp add: skip_ws_def)
  then show ?thesis
    using c'(1) by (simp add: parsecmd_def peek_front skip_ws_def)
qed

text \<open>The characters of a printed command.\<close>

lemma put_cmd_no_nul: "acmd_ok c \<Longrightarrow> NUL \<notin> set (put_cmd n c)"
  by (induction c arbitrary: n)
    (auto simp: put_paren_def put_redir_def put_word_def redir_ok_def word_ok_def list_all_iff)

text \<open>C8 (roundtrip). The parser reads every command: print any tree of simple commands, redirections, pipelines, lists and
  background commands, with parentheses where they are needed, and \<^verbatim>\<open>parsecmd\<close> gives that tree back, with each
  argument and file name read as a C string from the line after the NULs have been written.\<close>

theorem parsecmd_reads_printed:
  assumes "acmd_ok c"
  shows "\<exists>c' buf. parsecmd (put_cmd 0 c) = Ret c' buf \<and>
    abs_cmd (\<lambda>t. cstr buf (length (put_cmd 0 c) - length (fst t))) c' = c"
proof -
  obtain c' buf where c': "parsecmd (put_cmd 0 c) = Ret c' buf" "in_text c' = c"
    using parsecmd_put [OF assms] by blast
  then have "abs_cmd (\<lambda>t. cstr buf (length (put_cmd 0 c) - length (fst t))) c' = in_text c'"
    using parsecmd_sound(2) [OF put_cmd_no_nul [OF assms]] by (intro abs_cmd_cong) blast
  then show ?thesis
    using c' by auto
qed


subsection \<open>A command line\<close>

definition sample_cmd :: acmd where
  "sample_cmd = APipe (AExec [''ls'', ''-l'']) (ABack (ARedir (AExec [''wc'']) ''out'' sh_wronly_create 1))"

lemma sample_ok: "acmd_ok sample_cmd" "put_cmd 0 sample_cmd = ''ls -l | ( wc > out & ) ''"
proof -
  have "word_ok ''ls''" "word_ok ''-l''" "word_ok ''wc''" "word_ok ''out''"
    by (simp_all add: word_ok_def plain_def is_ws_def is_sym_def whitespace_def symbols_def)
  then show "acmd_ok sample_cmd"
    by (simp add: sample_cmd_def redir_ok_def)
  show "put_cmd 0 sample_cmd = ''ls -l | ( wc > out & ) ''"
    by (simp add: sample_cmd_def put_paren_def put_redir_def put_word_def)
qed

lemma sample_length: "length ''ls -l | ( wc > out & ) '' = 23"
  by simp

primrec atexts :: "acmd \<Rightarrow> string list" where
  "atexts (AExec ws) = ws"
| "atexts (ARedir c f mode fd) = atexts c @ [f]"
| "atexts (APipe l r) = atexts l @ atexts r"
| "atexts (AList l r) = atexts l @ atexts r"
| "atexts (ABack c) = atexts c"

lemma map_spans: "map f (spans c) = atexts (abs_cmd f c)"
  by (induction c) simp_all

theorem parsecmd_typed_witness:
  "\<exists>c buf. parsecmd ''ls -l | ( wc > out & ) '' = Ret c buf \<and> typed c \<and>
     map (\<lambda>t. cstr buf (23 - length (fst t))) (spans c) = [''ls'', ''-l'', ''wc'', ''out'']"
proof -
  let ?s = "''ls -l | ( wc > out & ) ''"
  obtain c buf where c: "parsecmd ?s = Ret c buf" "in_text c = sample_cmd"
    using parsecmd_put [OF sample_ok(1)] unfolding sample_ok(2) by blast
  have t: "typed c \<and> (\<forall>t \<in> set (spans c). is_token ?s t \<and> cstr buf (length ?s - length (fst t)) = span_text t)"
    by (rule parsecmd_typed [OF _ c(1)]) simp
  from this [unfolded sample_length] have "map (\<lambda>t. cstr buf (23 - length (fst t))) (spans c) = map span_text (spans c)"
    by (intro map_cong) simp_all
  also have "\<dots> = [''ls'', ''-l'', ''wc'', ''out'']"
    by (simp add: map_spans c(2) sample_cmd_def)
  finally show ?thesis
    using c(1) t by (intro exI [of _ c] exI [of _ buf]) simp
qed

theorem parsecmd_reads_printed_witness:
  "\<exists>c' buf. parsecmd ''ls -l | ( wc > out & ) '' = Ret c' buf \<and>
     abs_cmd (\<lambda>t. cstr buf (23 - length (fst t))) c' = sample_cmd"
  using parsecmd_reads_printed [OF sample_ok(1)] unfolding sample_ok(2) sample_length .

end
