(* ===== verification/Spec2Isabelle.thy ===== *)
theory Spec2Isabelle
  imports Trap PageTable Grep Uthread Shell
begin

text \<open>
  \<^bold>\<open>Verification of the xv6 kernel with kernel threads, semaphores and user threads.\<close>

  The program is xv6 for the x86 (a small Unix kernel in C), extended with kernel threads that share an address
  space (\<^verbatim>\<open>KT_Create\<close>, \<^verbatim>\<open>clone\<close>, \<^verbatim>\<open>KT_Join\<close>), counting semaphores with a queue of waiters, and a library of
  user-level threads. All paths below are under \<^verbatim>\<open>src/\<close>.

  \<^bold>\<open>How the parts hang together.\<close> A processor runs kernel code between its interrupts and system calls
  (\<^verbatim>\<open>trap.c\<close>, \<^verbatim>\<open>syscall.c\<close>, \<^verbatim>\<open>sysproc.c\<close>, \<^verbatim>\<open>sysfile.c\<close>). Spin locks with nested interrupt disabling
  (\<^verbatim>\<open>spinlock.c\<close>) protect every table. Pages come from \<^verbatim>\<open>kalloc.c\<close>; \<^verbatim>\<open>vm.c\<close> builds page tables from them.
  Processes and threads (\<^verbatim>\<open>proc.c\<close>) give the processor up in \<^verbatim>\<open>sched\<close> and sleep on channels; sleep locks
  (\<^verbatim>\<open>sleeplock.c\<close>) and semaphores are built on that. The file system is a stack: disk and block cache
  (\<^verbatim>\<open>memide.c\<close>, \<^verbatim>\<open>bio.c\<close>), write-ahead log (\<^verbatim>\<open>log.c\<close>), block allocator, inodes, directories and paths
  (\<^verbatim>\<open>fs.c\<close>), open files and pipes (\<^verbatim>\<open>file.c\<close>, \<^verbatim>\<open>pipe.c\<close>), console (\<^verbatim>\<open>console.c\<close>, \<^verbatim>\<open>uart.c\<close>), and
  \<^verbatim>\<open>exec.c\<close> on top. User programs run above the system calls: the C library (\<^verbatim>\<open>ulib.c\<close>, \<^verbatim>\<open>printf.c\<close>),
  the thread library (\<^verbatim>\<open>uthread.c\<close>), the shell (\<^verbatim>\<open>sh.c\<close>) and \<^verbatim>\<open>grep.c\<close>.

  \<^bold>\<open>State.\<close> The kernel's state is one extensible record that grows with the components, in the order in which
  they are built: \<open>machine\<close> (processors, locks, interrupt flag; Spinlock), \<open>kmachine\<close> (byte memory and free list;
  Kalloc), \<open>kvm\<close> (kernel page table, descriptor table; Vm), \<open>kproc\<close> (process table, stack lists, semaphores,
  ticks; Sched), \<open>ksleep\<close> (Sleeplock), \<open>kbio\<close> (buffers and disk; Bio), \<open>kjournal\<close> (log; Log), \<open>kfs\<close> (super
  block and inode cache; Inode), \<open>kcons\<close> (console; Console), \<open>kfile\<close> (file table and pipes; File). Every
  operation is polymorphic in the rest of the record, so it applies unchanged to the later states, and its frame
  (that it touches nothing of them) is part of its type. Page tables, trap frames and the free list are in the byte
  memory, where the code keeps them; process slots, buffers, inodes and files are indexed by the slot numbers of the
  code's arrays; the contents of a disk block or a buffer is a list of 512 bytes.

  \<^bold>\<open>Outcomes.\<close> An operation returns an \<open>outcome\<close> (Prelude): \<open>Ret\<close> a value, \<open>Panic\<close> with the code's message,
  \<open>Fault\<close> for an access C leaves undefined, \<open>Spin\<close> on a lock that another processor holds (the model does not wait
  for it), \<open>Diverge\<close> for a loop that does not end, and \<open>Switch\<close> when the code calls \<^verbatim>\<open>swtch\<close>. What a function does
  when it is resumed after a switch is a function of its own, \<open>sleep_resume\<close>, \<open>sched_resume\<close>,
  \<open>piperead_resume\<close> and so on, in the state another process has left behind. The callers of such a function
  are not resumed: a property of a system call that sleeps in the middle speaks of the part up to the sleep and
  of the resumed part by itself. Interleaving of processors at single memory accesses is modelled where it
  matters, in the step relation for locks (\<open>multi_step\<close> in Spinlock).

  \<^bold>\<open>The theories.\<close>
  \<^item> Prelude: machine words, outcomes with their calculus (\<open>seq\<close>, \<open>returns\<close>), iterated updates, lists.
  \<^item> Spinlock: \<^verbatim>\<open>spinlock.c\<close>, \<^verbatim>\<open>mycpu\<close> and \<^verbatim>\<open>cpuid\<close>. Mutual exclusion over all interleavings; sections
    restore the interrupt state; \<^verbatim>\<open>pushcli\<close> and \<^verbatim>\<open>popcli\<close> are matched. The locales \<open>critical_section\<close> and
    \<open>nested_section\<close> are interpreted on the lock and on the interrupt nesting.
  \<^item> Cstring, Mmu, Bytes: \<^verbatim>\<open>string.c\<close> over byte memory, the address macros of \<^verbatim>\<open>mmu.h\<close> and \<^verbatim>\<open>memlayout.h\<close>,
    little-endian fields of byte lists. \<^verbatim>\<open>memmove\<close> is a simultaneous copy.
  \<^item> Kalloc: \<^verbatim>\<open>kalloc.c\<close>, with the locale \<open>page_allocator\<close>: no page handed out twice, none lost.
  \<^item> Vm, PageTable: \<^verbatim>\<open>vm.c\<close>, and what the tables in memory map. \<^verbatim>\<open>allocuvm\<close> maps fresh, zeroed pages and nothing
    else changes.
  \<^item> Sched: process table, \<^verbatim>\<open>sched\<close>, \<^verbatim>\<open>yield\<close>, \<^verbatim>\<open>sleep\<close>, \<^verbatim>\<open>wakeup\<close>, \<^verbatim>\<open>kill\<close>, \<^verbatim>\<open>scheduler\<close>,
    \<^verbatim>\<open>switchuvm\<close>. No wakeup is lost; a resumed sleeper has its lock; a scheduler pass is fair.
  \<^item> Fifo, Ring: the locale \<open>bounded_fifo\<close> (interpreted on the semaphore queue and on the pipe buffer) and rings
    with free-running 32-bit counters (pipe and console buffers).
  \<^item> Semaphore: queue, semaphores and their system calls. Waiters are admitted in order; what happens when the queue
    is full, and which indices the checks let through.
  \<^item> Sleeplock: \<^verbatim>\<open>sleeplock.c\<close>.
  \<^item> Bio: \<^verbatim>\<open>memide.c\<close> and \<^verbatim>\<open>bio.c\<close> with the linked list of buffers, and the locale \<open>block_cache\<close> that the log
    is proved over. Reading gives a block's contents, written blocks read back, recycling is least recently used.
  \<^item> Log: \<^verbatim>\<open>log.c\<close>. A commit is atomic: a crash after any number of its disk writes, followed by recovery, leaves
    either all of the transaction or none.
  \<^item> Inode, Fs: block bitmap, inode cache, block map, \<^verbatim>\<open>readi\<close>, \<^verbatim>\<open>writei\<close>, directories, paths.
  \<^item> Console: output on the screen and the serial line, formatted printing, line editing.
  \<^item> File: \<^verbatim>\<open>file.c\<close> and \<^verbatim>\<open>pipe.c\<close>. A pipe passes its bytes in order.
  \<^item> Process, Exec: process creation, \<^verbatim>\<open>fork\<close>, \<^verbatim>\<open>exit\<close>, \<^verbatim>\<open>wait\<close>, kernel threads; \<^verbatim>\<open>loaduvm\<close> and \<^verbatim>\<open>exec\<close>.
  \<^item> Syscall, Sysproc, Sysfile, Trap: arguments, the table of calls, every call, and \<^verbatim>\<open>trap\<close>.
  \<^item> Ulib, Grep, Uthread, Shell: the user programs. The matcher of \<^verbatim>\<open>grep\<close> against the meaning of patterns, its
    reading loop; the user-thread table under every sequence of operations, its scheduler and context switch
    (\<^verbatim>\<open>swtch.S\<close>); the shell's parser against a printer of commands.

  \<^bold>\<open>Bounds and fuel.\<close> Loops over tables run over the code's own bounds (\<^verbatim>\<open>NPROC\<close>, \<^verbatim>\<open>NBUF\<close>, \<^verbatim>\<open>LOGSIZE\<close> and so
  on). Loops with addresses have termination proofs, with \<open>Diverge\<close> for the wrap-around in which \<^verbatim>\<open>deallocuvm\<close> does
  not end. The scheduler loop of the user threads is a partial function whose end is a theorem. The shell's four
  mutually recursive parsing functions take fuel; four times the length of the line plus four is proved to be
  enough and more to change nothing. Counters and addresses wrap at 32 bits; numbers that the code can never
  drive to their limits (lock nesting, thread ids, reference counts) are integers.

  \<^bold>\<open>Parameters.\<close> The symbols that the linker defines (the end of the kernel, its data, the embedded first
  program, code addresses) are fields of the state. The scheduler takes the behaviour of the processes it switches to as
  an argument, \<^verbatim>\<open>grep\<close> what its reads return, \<^verbatim>\<open>UT_Init\<close> what \<^verbatim>\<open>malloc\<close> returns.

  \<^bold>\<open>Not modelled.\<close>
  \<^item> The drivers that only program devices through ports or memory-mapped registers: \<^verbatim>\<open>lapic.c\<close>, \<^verbatim>\<open>ioapic.c\<close>,
    \<^verbatim>\<open>picirq.c\<close>, \<^verbatim>\<open>ide.c\<close>, the set-up of \<^verbatim>\<open>uart.c\<close>, and \<^verbatim>\<open>kbd.c\<close>: their effect is the device's. The disk is the
    memory disk of \<^verbatim>\<open>memide.c\<close>, which the build links in place of \<^verbatim>\<open>ide.c\<close> for the kernel with a memory file
    system.
  \<^item> Start-up: \<^verbatim>\<open>bootasm.S\<close>, \<^verbatim>\<open>bootmain.c\<close>, \<^verbatim>\<open>entry.S\<close>, \<^verbatim>\<open>entryother.S\<close>, \<^verbatim>\<open>mp.c\<close>, \<^verbatim>\<open>main.c\<close>, which load the
    kernel and call the modelled initialisation functions in turn; \<^verbatim>\<open>tvinit\<close> and \<^verbatim>\<open>idtinit\<close>, which fill the descriptor table
    with generated entry points; \<^verbatim>\<open>trapasm.S\<close> and \<^verbatim>\<open>initcode.S\<close>.
  \<^item> Debugging aids: the call stack a lock records, \<^verbatim>\<open>procdump\<close>.
  \<^item> \<^verbatim>\<open>mkfs.c\<close>, which runs on the build machine; \<^verbatim>\<open>umalloc.c\<close>; the running of parsed commands in \<^verbatim>\<open>sh.c\<close>; the
    small user programs and the tests, which only make system calls.
\<close>

end
